(* ===== verification/Sidecar_Prelude.thy ===== *)
theory Sidecar_Prelude
  imports Main "HOL-Library.Word" "HOL-Library.FSet" "HOL-Library.Finite_Map"
begin

section \<open>Prelude: types, Rust library operations and shared lemmas\<close>

text \<open>
  The machine types of the program, the operations of Rust's standard library that the
  sidecar calls on integers, vectors, hash maps and instants, and the generic lemmas that
  every component shares.

  Fixed-width integers are words of their width. \<open>Address\<close>, \<open>TxHash\<close>/\<open>B256\<close> and \<open>U256\<close> are
  words of 160 and 256 bits, byte strings read big-endian, so that \<open>U256::from_be_slice\<close> of a
  hash is the hash itself. Signed 64-bit values are words read with \<^const>\<open>sint\<close>, so Rust's
  \<open>as i64\<close> is the identity. An \<open>Instant\<close> is a number of nanoseconds; \<open>duration_since\<close>
  saturates at zero, as subtraction on natural numbers does.

  A \<open>HashMap\<close> is a finite map; the order in which \<open>values_mut\<close> visits it is unspecified and is
  an argument wherever the code iterates. A \<open>VecDeque\<close> is a list with its front at the head.
  Lengths of collections are natural numbers: a collection of \<open>2 ^ 64\<close> elements does not fit in
  memory. A counter kept beside a collection is a word, so that a wrap-around would show.
\<close>

unbundle bit_operations_syntax

subsection \<open>Types\<close>

type_synonym u8 = "8 word"
type_synonym u16 = "16 word"
type_synonym u64 = "64 word"
type_synonym i64 = "64 word"
type_synonym u128 = "128 word"
type_synonym usize = "64 word"
type_synonym u256 = "256 word"
type_synonym address = "160 word"
type_synonym txhash = "256 word"
type_synonym instant = nat
type_synonym duration = nat

subsection \<open>Theorem collection\<close>

named_theorems unat_encoding \<open>values of encoded priorities as natural numbers\<close>

subsection \<open>Saturating and ordered integer operations\<close>

definition saturating_add :: "'a::len word \<Rightarrow> 'a word \<Rightarrow> 'a word" where
  "saturating_add a b = (if unat a + unat b < 2 ^ LENGTH('a) then a + b else - 1)"

definition saturating_sub :: "'a::len word \<Rightarrow> 'a word \<Rightarrow> 'a word" where
  "saturating_sub a b = (if a < b then 0 else a - b)"

definition saturating_mul :: "'a::len word \<Rightarrow> 'a word \<Rightarrow> 'a word" where
  "saturating_mul a b = (if unat a * unat b < 2 ^ LENGTH('a) then a * b else - 1)"

lemma unat_all_ones: "unat (- 1 :: 'a::len word) = 2 ^ LENGTH('a) - 1"
  by (simp add: unsigned_minus_1_eq_mask mask_eq_exp_minus_1)

lemma unat_saturating_add:
  "unat (saturating_add a (b :: 'a::len word)) = min (2 ^ LENGTH('a) - 1) (unat a + unat b)"
  by (auto simp: saturating_add_def unat_word_ariths unat_all_ones min_def)

lemma unat_saturating_sub: "unat (saturating_sub a b) = unat a - unat b"
  by (auto simp: saturating_sub_def word_less_nat_alt unat_sub word_le_nat_alt)

lemma unat_saturating_mul:
  "unat (saturating_mul a (b :: 'a::len word)) = min (2 ^ LENGTH('a) - 1) (unat a * unat b)"
  by (auto simp: saturating_mul_def unat_word_ariths unat_all_ones min_def)

lemma unat_of_nat_bounded: "n < 2 ^ LENGTH('a) \<Longrightarrow> unat (of_nat n :: 'a::len word) = n"
  by (simp add: unsigned_of_nat take_bit_nat_eq_self)

lemma unat_max_word: "unat (max a (b :: 'a::len word)) = max (unat a) (unat b)"
  by (simp add: max_def word_le_nat_alt)

lemma unat_min_word: "unat (min a (b :: 'a::len word)) = min (unat a) (unat b)"
  by (simp add: min_def word_le_nat_alt)

lemma unat_less_64: "unat (x :: 64 word) < 2 ^ 64"
  by (rule order_less_le_trans [OF unsigned_less]) simp

lemma unat_less_128: "unat (x :: 128 word) < 2 ^ 128"
  by (rule order_less_le_trans [OF unsigned_less]) simp

lemma unat_less_256: "unat (x :: 256 word) < 2 ^ 256"
  by (rule order_less_le_trans [OF unsigned_less]) simp

text \<open>A counter of one unit, when it has room.\<close>

lemma unat_inc_word:
  "Suc (unat (c :: 'a::len word)) < 2 ^ LENGTH('a) \<Longrightarrow> unat (c + 1) = Suc (unat c)"
  by (simp add: unat_word_ariths)

lemma unat_dec_word: "0 < unat (c :: 'a::len word) \<Longrightarrow> unat (c - 1) = unat c - 1"
  by (metis One_nat_def Suc_leI unat_1 unat_sub word_le_nat_alt)

lemma unat_sub_of_nat:
  assumes "n \<le> unat (c :: 'a::len word)"
  shows "unat (c - of_nat n) = unat c - n"
proof -
  have "n < 2 ^ LENGTH('a)"
    using assms unsigned_less [of c] by (simp add: order_le_less_trans)
  then have n: "unat (of_nat n :: 'a word) = n"
    by (rule unat_of_nat_bounded)
  with assms show ?thesis
    by (simp add: unat_sub word_le_nat_alt)
qed

subsection \<open>Vectors: position, remove, retain\<close>

text \<open>\<open>iter().position(p)\<close>, \<open>Vec::remove(i)\<close>.\<close>

fun position :: "('a \<Rightarrow> bool) \<Rightarrow> 'a list \<Rightarrow> nat option" where
  "position p [] = None"
| "position p (x # xs) = (if p x then Some 0 else map_option Suc (position p xs))"

definition vec_remove :: "nat \<Rightarrow> 'a list \<Rightarrow> 'a list" where
  "vec_remove i xs = take i xs @ drop (Suc i) xs"

lemma vec_remove_simps [simp]:
  "vec_remove 0 (x # xs) = xs" "vec_remove (Suc i) (x # xs) = x # vec_remove i xs"
  by (simp_all add: vec_remove_def)

text \<open>The first element that satisfies a predicate, taken out.\<close>

fun remove_first :: "('a \<Rightarrow> bool) \<Rightarrow> 'a list \<Rightarrow> 'a list" where
  "remove_first p [] = []"
| "remove_first p (x # xs) = (if p x then xs else x # remove_first p xs)"

lemma position_None_iff: "position p xs = None \<longleftrightarrow> (\<forall>x \<in> set xs. \<not> p x)"
  by (induction xs) auto

lemma position_Some_bound: "position p xs = Some i \<Longrightarrow> i < length xs \<and> p (xs ! i)"
  by (induction xs arbitrary: i) (auto split: if_splits)

lemma vec_remove_position: "position p xs = Some i \<Longrightarrow> vec_remove i xs = remove_first p xs"
  by (induction xs arbitrary: i) (auto split: if_splits)

lemma position_remove_first:
  "position p xs = Some i \<Longrightarrow> length xs = Suc (length (remove_first p xs))"
  by (induction xs arbitrary: i) (auto split: if_splits)

lemma set_remove_first: "set (remove_first p xs) \<subseteq> set xs"
  by (induction xs) auto

lemma remove_first_filter_other:
  "(\<And>x. x \<in> set xs \<Longrightarrow> p x \<Longrightarrow> \<not> q x) \<Longrightarrow> filter q (remove_first p xs) = filter q xs"
  by (induction xs) auto

lemma length_filter_remove_first:
  "position p xs = Some i \<Longrightarrow> length (filter p xs) = Suc (length (filter p (remove_first p xs)))"
  by (induction xs arbitrary: i) (auto split: if_splits)

lemma remove_first_absent: "position p xs = None \<Longrightarrow> remove_first p xs = xs"
  by (induction xs) (auto split: if_splits)

subsection \<open>Hash maps\<close>

text \<open>\<open>HashMap::len\<close>, and the number of elements in the vectors a map holds.\<close>

definition hm_len :: "('k, 'v) fmap \<Rightarrow> nat" where
  "hm_len m = fcard (fmdom m)"

definition hm_total :: "('k, 'v list) fmap \<Rightarrow> nat" where
  "hm_total m = (\<Sum>k \<in> fset (fmdom m). length (the (fmlookup m k)))"

text \<open>An iteration order of a map: a list of its keys, each once.\<close>

definition is_iteration :: "(('k, 'v) fmap \<Rightarrow> 'k list) \<Rightarrow> bool" where
  "is_iteration it \<longleftrightarrow> (\<forall>m. distinct (it m) \<and> set (it m) = fset (fmdom m))"

lemma hm_len_empty [simp]: "hm_len fmempty = 0"
  by (simp add: hm_len_def)

lemma hm_len_fmupd:
  "hm_len (fmupd k v m) = (if fmlookup m k = None then Suc (hm_len m) else hm_len m)"
  by (simp add: hm_len_def fcard_finsert_if fmlookup_dom_iff)

lemma hm_len_fmdrop:
  "hm_len (fmdrop k m) = (if fmlookup m k = None then hm_len m else hm_len m - 1)"
proof (cases "fmlookup m k")
  case None
  then have "fmdom m |-| {|k|} = fmdom m"
    by (metis fmdom_drop fmdrop_idle fmdom_notI)
  with None show ?thesis
    by (simp add: hm_len_def)
next
  case (Some v)
  then have "k |\<in>| fmdom m"
    by (simp add: fmlookup_dom_iff)
  then have "fcard (fmdom m) = Suc (fcard (fmdom m |-| {|k|}))"
    by (metis fcard_Suc_fminus1)
  with Some show ?thesis
    by (simp add: hm_len_def)
qed

lemma hm_len_pos: "fmlookup m k = Some v \<Longrightarrow> 0 < hm_len m"
  by (metis fcard_fempty fcard_seteq fempty_iff fempty_fsubsetI fmdom_notI hm_len_def
      fmlookup_dom_iff not_gr_zero not_le option.simps(3) le_numeral_extra(3))

subsection \<open>Maps of vectors\<close>

text \<open>
  The vector at a key, empty when there is none, and the update the code makes after it took an
  element out: drop the key when nothing is left.
\<close>

definition vec_of :: "('k, 'v list) fmap \<Rightarrow> 'k \<Rightarrow> 'v list" where
  "vec_of m k = (case fmlookup m k of None \<Rightarrow> [] | Some v \<Rightarrow> v)"

definition set_vec :: "'k \<Rightarrow> 'v list \<Rightarrow> ('k, 'v list) fmap \<Rightarrow> ('k, 'v list) fmap" where
  "set_vec k v m = (if v = [] then fmdrop k m else fmupd k v m)"

lemma vec_of_empty [simp]: "vec_of fmempty k = []"
  by (simp add: vec_of_def)

lemma vec_of_fmupd [simp]: "vec_of (fmupd k v m) j = (if j = k then v else vec_of m j)"
  by (simp add: vec_of_def)

lemma vec_of_fmdrop [simp]: "vec_of (fmdrop k m) j = (if j = k then [] else vec_of m j)"
  by (simp add: vec_of_def)

lemma vec_of_set_vec [simp]: "vec_of (set_vec k v m) j = (if j = k then v else vec_of m j)"
  by (simp add: set_vec_def)

lemma vec_of_lookup: "fmlookup m k = Some v \<Longrightarrow> vec_of m k = v"
  by (simp add: vec_of_def)

lemma vec_of_retain: "vec_of (fmfilter (\<lambda>k. fmlookup m k \<noteq> Some []) m) k = vec_of m k"
  by (simp add: vec_of_def split: option.splits)

lemma hm_total_superset:
  assumes "finite K" "fset (fmdom m) \<subseteq> K"
  shows "hm_total m = (\<Sum>k \<in> K. length (vec_of m k))"
proof -
  have "hm_total m = (\<Sum>k \<in> fset (fmdom m). length (vec_of m k))"
    unfolding hm_total_def
    by (rule sum.cong) (auto simp: vec_of_def fmlookup_dom_iff split: option.splits)
  also have "\<dots> = (\<Sum>k \<in> K. length (vec_of m k))"
    using assms by (intro sum.mono_neutral_left) (auto simp: vec_of_def dest: fmdom_notD)
  finally show ?thesis .
qed

lemma hm_total_cong:
  assumes "\<And>k. vec_of m k = vec_of m' k"
  shows "hm_total m = hm_total m'"
  using hm_total_superset [of "fset (fmdom m) \<union> fset (fmdom m')" m]
    hm_total_superset [of "fset (fmdom m) \<union> fset (fmdom m')" m'] assms by simp

lemma hm_total_update:
  assumes "\<And>j. vec_of m' j = (if j = k then v else vec_of m j)"
  shows "hm_total m' + length (vec_of m k) = hm_total m + length v"
proof -
  let ?K = "insert k (fset (fmdom m) \<union> fset (fmdom m'))"
  have "hm_total m' = (\<Sum>j \<in> ?K. length (vec_of m' j))"
    by (rule hm_total_superset) auto
  also have "\<dots> = length v + (\<Sum>j \<in> ?K - {k}. length (vec_of m j))"
    by (subst sum.remove [where x = k]) (auto simp: assms intro!: sum.cong)
  finally have m': "hm_total m' = length v + (\<Sum>j \<in> ?K - {k}. length (vec_of m j))" .
  have "hm_total m = (\<Sum>j \<in> ?K. length (vec_of m j))"
    by (rule hm_total_superset) auto
  also have "\<dots> = length (vec_of m k) + (\<Sum>j \<in> ?K - {k}. length (vec_of m j))"
    by (rule sum.remove) auto
  finally show ?thesis using m' by simp
qed

lemma hm_total_empty: "(\<And>k. vec_of m k = []) \<Longrightarrow> hm_total m = 0"
  using hm_total_superset [of "fset (fmdom m)" m] by simp

lemma hm_total_fmempty [simp]: "hm_total fmempty = 0"
  by (rule hm_total_empty) simp

lemma vec_of_le_total: "length (vec_of m k) \<le> hm_total m"
  using hm_total_update [of "fmdrop k m" k "[]" m] by simp

end
