(* ===== verification/Bounded_Store.thy ===== *)
theory Bounded_Store
  imports Sidecar_Prelude
begin

section \<open>The contract of the bounded, forgetful stores\<close>

text \<open>
  Two components keep hashes in a capacity-bounded store from which entries are dropped when
  the node reports that a transaction left its pool: the cache of reinjected hashes and the
  cache of candidate targets. The loop relies on the same contract from both; the candidate
  cache also expires entries. The locales state the contract, the lemmas inside them what any
  sequence of operations then guarantees.
\<close>

subsection \<open>Order queues with stale entries\<close>

text \<open>The live part of an order queue: entries still in the map.\<close>

definition live :: "('k, 'v) fmap \<Rightarrow> 'k list \<Rightarrow> 'k list" where
  "live m ks = filter (\<lambda>k. k |\<in>| fmdom m) ks"

lemma live_simps [simp]:
  "live m [] = []"
  "live m (k # ks) = (if k |\<in>| fmdom m then k # live m ks else live m ks)"
  "live m (ks @ js) = live m ks @ live m js"
  by (simp_all add: live_def)

lemma live_fmdrop: "live (fmdrop k m) ks = filter (\<lambda>j. j \<noteq> k) (live m ks)"
  by (induction ks) auto

lemma live_fmupd_old: "k |\<in>| fmdom m \<Longrightarrow> live (fmupd k v m) ks = live m ks"
  by (auto simp: live_def intro!: filter_cong)

lemma live_fmupd_new: "k \<notin> set ks \<Longrightarrow> live (fmupd k v m) ks = live m ks"
  by (auto simp: live_def intro!: filter_cong)

lemma live_compact: "live m (filter (\<lambda>k. k |\<in>| fmdom m) ks) = live m ks"
  by (simp add: live_def)

lemma live_absent: "k \<notin> set ks \<Longrightarrow> filter (\<lambda>j. j \<noteq> k) (live m ks) = live m ks"
  by (induction ks) auto

text \<open>When every key is queued, the live queue of a duplicate-free order has its length.\<close>

lemma length_live:
  assumes "fset (fmdom m) \<subseteq> set ks" "distinct ks"
  shows "length (live m ks) = hm_len m"
proof -
  have "set (live m ks) = fset (fmdom m)"
    using assms(1) by (auto simp: live_def)
  then have "card (set (live m ks)) = hm_len m"
    by (simp add: hm_len_def fcard.rep_eq)
  moreover have "distinct (live m ks)"
    using assms(2) by (simp add: live_def)
  ultimately show ?thesis
    by (simp add: distinct_card)
qed

lemma queued_stale:
  "fset (fmdom m) \<subseteq> set (k # ks) \<Longrightarrow> fmlookup m k = None \<Longrightarrow> fset (fmdom m) \<subseteq> set ks"
  by (metis fmdom_notI list.simps(15) subset_insert)

lemma queued_drop: "fset (fmdom m) \<subseteq> set (k # ks) \<Longrightarrow> fset (fmdom (fmdrop k m)) \<subseteq> set ks"
  by auto

lemmas queued_rules = queued_stale queued_drop

subsection \<open>Sequences of store operations\<close>

datatype ('k, 'v) store_op = Ins 'k 'v | Del 'k

fun run_ops :: "('k \<Rightarrow> 'v \<Rightarrow> 's \<Rightarrow> 's) \<Rightarrow> ('k \<Rightarrow> 's \<Rightarrow> 's) \<Rightarrow> ('k, 'v) store_op list \<Rightarrow> 's \<Rightarrow> 's" where
  "run_ops ins del [] s = s"
| "run_ops ins del (Ins k v # ops) s = run_ops ins del ops (ins k v s)"
| "run_ops ins del (Del k # ops) s = run_ops ins del ops (del k s)"

text \<open>Keys that are inserted by a sequence, and keys inserted after their last removal.\<close>

fun inserted :: "('k, 'v) store_op list \<Rightarrow> 'k set" where
  "inserted [] = {}"
| "inserted (Ins k v # ops) = insert k (inserted ops)"
| "inserted (Del k # ops) = inserted ops"

fun surviving :: "('k, 'v) store_op list \<Rightarrow> 'k set \<Rightarrow> 'k set" where
  "surviving [] K = K"
| "surviving (Ins k v # ops) K = surviving ops (insert k K)"
| "surviving (Del k # ops) K = surviving ops (K - {k})"

lemma surviving_mono: "K \<subseteq> L \<Longrightarrow> surviving ops K \<subseteq> surviving ops L"
proof (induction ops arbitrary: K L)
  case (Cons a ops)
  show ?case
  proof (cases a)
    case (Ins k v)
    then show ?thesis using Cons.IH [OF insert_mono [OF Cons.prems]] by simp
  next
    case (Del k)
    then show ?thesis using Cons.IH [OF Diff_mono [OF Cons.prems subset_refl]] by simp
  qed
qed simp

lemma surviving_subset: "surviving ops K \<subseteq> K \<union> inserted ops"
  by (induction ops K rule: surviving.induct) auto

subsection \<open>The contracts\<close>

locale bounded_store =
  fixes inv :: "'s \<Rightarrow> bool"
    and keys :: "'s \<Rightarrow> 'k set"
    and cap :: "'s \<Rightarrow> nat"
    and ins :: "'k \<Rightarrow> 'v \<Rightarrow> 's \<Rightarrow> 's"
    and del :: "'k \<Rightarrow> 's \<Rightarrow> 's"
  assumes inv_ins: "inv s \<Longrightarrow> inv (ins k v s)"
    and inv_del: "inv s \<Longrightarrow> inv (del k s)"
    and cap_ins: "cap (ins k v s) = cap s"
    and cap_del: "cap (del k s) = cap s"
    and keys_ins: "inv s \<Longrightarrow> keys (ins k v s) \<subseteq> insert k (keys s)"
    and keys_del: "keys (del k s) = keys s - {k}"
    and keys_bounded: "inv s \<Longrightarrow> finite (keys s) \<and> card (keys s) \<le> cap s"
begin

lemma run_inv: "inv s \<Longrightarrow> inv (run_ops ins del ops s)"
proof (induction ops arbitrary: s)
  case (Cons a ops)
  then show ?case by (cases a) (auto intro: inv_ins inv_del)
qed simp

lemma run_cap: "cap (run_ops ins del ops s) = cap s"
proof (induction ops arbitrary: s)
  case (Cons a ops)
  then show ?case by (cases a) (auto simp: cap_ins cap_del)
qed simp

lemma run_bounded:
  assumes "inv s"
  shows "card (keys (run_ops ins del ops s)) \<le> cap s"
  using keys_bounded [OF run_inv [OF assms]] by (simp add: run_cap)

lemma run_keys: "inv s \<Longrightarrow> keys (run_ops ins del ops s) \<subseteq> surviving ops (keys s)"
proof (induction ops arbitrary: s)
  case Nil
  then show ?case by simp
next
  case (Cons a ops)
  show ?case
  proof (cases a)
    case (Ins k v)
    have "keys (run_ops ins del ops (ins k v s)) \<subseteq> surviving ops (keys (ins k v s))"
      by (rule Cons.IH [OF inv_ins [OF Cons.prems]])
    also have "\<dots> \<subseteq> surviving ops (insert k (keys s))"
      by (rule surviving_mono [OF keys_ins [OF Cons.prems]])
    finally show ?thesis using Ins by simp
  next
    case (Del k)
    have "keys (run_ops ins del ops (del k s)) \<subseteq> surviving ops (keys (del k s))"
      by (rule Cons.IH [OF inv_del [OF Cons.prems]])
    then show ?thesis using Del by (simp add: keys_del)
  qed
qed

end

locale expiring_store = bounded_store inv keys cap ins del
  for inv :: "'s \<Rightarrow> bool" and keys :: "'s \<Rightarrow> 'k set" and cap and ins :: "'k \<Rightarrow> 'v \<Rightarrow> 's \<Rightarrow> 's"
    and del +
  fixes expire :: "'t \<Rightarrow> 's \<Rightarrow> 's"
  assumes inv_expire: "inv s \<Longrightarrow> inv (expire t s)"
    and cap_expire: "cap (expire t s) = cap s"
    and keys_expire: "keys (expire t s) \<subseteq> keys s"
begin

text \<open>Expiring first, as the loop does before each insertion, keeps the contract.\<close>

lemma expire_then_insert:
  assumes "inv s"
  shows "inv (ins k v (expire t s)) \<and> keys (ins k v (expire t s)) \<subseteq> insert k (keys s)
    \<and> card (keys (ins k v (expire t s))) \<le> cap s"
proof -
  have i: "inv (expire t s)" by (rule inv_expire [OF assms])
  have "keys (ins k v (expire t s)) \<subseteq> insert k (keys s)"
    using keys_ins [OF i] keys_expire [of t s] by blast
  moreover have "card (keys (ins k v (expire t s))) \<le> cap s"
    using keys_bounded [OF inv_ins [OF i]] by (simp add: cap_ins cap_expire)
  ultimately show ?thesis
    using inv_ins [OF i] by blast
qed

end

sublocale expiring_store \<subseteq> refreshed: bounded_store inv keys cap "\<lambda>k (v, t) s. ins k v (expire t s)" del
proof unfold_locales
  fix s k and vt :: "'d \<times> 'e"
  show "keys (del k s) = keys s - {k}" by (rule keys_del)
qed (auto simp: cap_ins cap_expire cap_del inv_del keys_bounded dest: expire_then_insert)

end
