(* ===== verification/Policy.thy ===== *)
theory Policy
  imports Sidecar_Prelude
begin

section \<open>The tip policy: networks, scoring, call decoding, priority encoding\<close>

text \<open>
  The module \<^verbatim>\<open>src/policy.rs\<close>. The crates \<open>alloy-consensus\<close> and \<open>alloy-sol-types\<close> are not
  part of the repository: the accessors of a transaction envelope that the code calls, the
  4-byte selector and the ABI decoder that \<open>sol!\<close> derives from the interface are the fields
  of the record \<open>alloy\<close>, an argument of every definition that uses them, over a type \<open>'tx\<close> of
  envelopes of which nothing else is known.
\<close>

unbundle bit_operations_syntax

subsection \<open>The foreign interface\<close>

text \<open>The arguments of \<open>magmaSearcherGatewayCall\<close>, as the interface declares them.\<close>

record gateway_call_args =
  sender :: address
  bidAmount :: u256
  targetBlockNumber :: u64
  targetTxHash :: txhash
  requireExclusiveSlot :: bool
  searcherContract :: address
  searcherCallData :: "u8 list"

record 'tx alloy =
  tx_to :: "'tx \<Rightarrow> address option"
  tx_gas_limit :: "'tx \<Rightarrow> u64"
  tx_input :: "'tx \<Rightarrow> u8 list"
  tx_priority_fee_or_price :: "'tx \<Rightarrow> u128"
  tx_max_fee_per_gas :: "'tx \<Rightarrow> u128"
  call_selector :: "u8 list"
  abi_decode_raw :: "u8 list \<Rightarrow> gateway_call_args option"

subsection \<open>Networks\<close>

datatype network = Mainnet | Testnet | Localnet

fun network_gateway :: "network \<Rightarrow> address" where
  "network_gateway Mainnet = 0xe0232Cf5ee0c6d79118498c29a267D80881011C5"
| "network_gateway Testnet = 0x21615eDffD849eEd1C08e780032Da3bCd1003CD3"
| "network_gateway Localnet = 0xe7f1725e7734ce288f8367e1bb143e90bb3f0512"

fun network_base_fee_floor_wei :: "network \<Rightarrow> u128" where
  "network_base_fee_floor_wei Mainnet = 0"
| "network_base_fee_floor_wei Testnet = 0"
| "network_base_fee_floor_wei Localnet = 0"

fun network_as_str :: "network \<Rightarrow> string" where
  "network_as_str Mainnet = ''mainnet''"
| "network_as_str Testnet = ''testnet''"
| "network_as_str Localnet = ''localnet''"

subsection \<open>The compiled policy\<close>

record policy_config =
  gateway :: address
  base_fee_floor_wei :: u128

definition for_network :: "network \<Rightarrow> policy_config" where
  "for_network n =
     \<lparr>gateway = network_gateway n, base_fee_floor_wei = network_base_fee_floor_wei n\<rparr>"

definition is_allowlisted_gateway :: "policy_config \<Rightarrow> address \<Rightarrow> bool" where
  "is_allowlisted_gateway policy addr \<longleftrightarrow> addr = gateway policy"

definition gateway_is_unset :: "policy_config \<Rightarrow> bool" where
  "gateway_is_unset policy \<longleftrightarrow> gateway policy = 0"

subsection \<open>Decoding a gateway call\<close>

record gateway_call =
  bid_amount :: u256
  target_tx_hash :: txhash

definition is_tob :: "gateway_call \<Rightarrow> bool" where
  "is_tob call \<longleftrightarrow> target_tx_hash call = 0"

definition decode_gateway_call :: "'tx alloy \<Rightarrow> 'tx \<Rightarrow> gateway_call option" where
  "decode_gateway_call A tx =
     (let input = tx_input A tx in
      if length input < 4 then None
      else if take 4 input \<noteq> call_selector A then None
      else (case abi_decode_raw A (drop 4 input) of
              None \<Rightarrow> None
            | Some call \<Rightarrow>
                Some \<lparr>bid_amount = bidAmount call, target_tx_hash = targetTxHash call\<rparr>))"

definition gateway_bid_amount :: "'tx alloy \<Rightarrow> 'tx \<Rightarrow> u256 option" where
  "gateway_bid_amount A tx = map_option bid_amount (decode_gateway_call A tx)"

subsection \<open>Scoring\<close>

definition effective_priority_fee_per_gas :: "'tx alloy \<Rightarrow> 'tx \<Rightarrow> u128 \<Rightarrow> u128" where
  "effective_priority_fee_per_gas A tx base_fee_floor =
     (let raw = tx_priority_fee_or_price A tx;
          max_fee = tx_max_fee_per_gas A tx;
          cap = saturating_sub max_fee base_fee_floor
      in min raw cap)"

definition compute_priority :: "'tx alloy \<Rightarrow> 'tx \<Rightarrow> policy_config \<Rightarrow> u256" where
  "compute_priority A tx policy =
     (let priority_fee = effective_priority_fee_per_gas A tx (base_fee_floor_wei policy);
          gas_limit = (ucast (tx_gas_limit A tx) :: u128);
          fee_component = saturating_mul (ucast priority_fee :: u256) (ucast gas_limit);
          bid_component =
            (case tx_to A tx of
               Some to \<Rightarrow>
                 if to = gateway policy
                 then (case gateway_bid_amount A tx of Some bid \<Rightarrow> bid | None \<Rightarrow> 0)
                 else 0
             | None \<Rightarrow> 0)
      in saturating_add fee_component bid_component)"

subsection \<open>Structured priorities\<close>

definition TOB_MARKER_BIT :: nat where
  "TOB_MARKER_BIT = 255"

definition OPPORTUNITY_MARKER_BIT :: nat where
  "OPPORTUNITY_MARKER_BIT = 128"

definition GROUP_KEY_SHIFT :: nat where
  "GROUP_KEY_SHIFT = 129"

definition BACKRUN_ID_BITS :: nat where
  "BACKRUN_ID_BITS = 126"

definition low_128_mask :: u256 where
  "low_128_mask = push_bit 128 1 - 1"

definition encode_tob_priority :: "u256 \<Rightarrow> u256" where
  "encode_tob_priority scalar = push_bit TOB_MARKER_BIT 1 OR (scalar AND low_128_mask)"

definition backrun_id :: "txhash \<Rightarrow> u256" where
  "backrun_id target = drop_bit (256 - BACKRUN_ID_BITS) target"

definition encode_opportunity_priority :: "txhash \<Rightarrow> u256" where
  "encode_opportunity_priority target =
     push_bit GROUP_KEY_SHIFT (backrun_id target) OR push_bit OPPORTUNITY_MARKER_BIT 1"

definition encode_backrun_bid_priority :: "txhash \<Rightarrow> u256 \<Rightarrow> u256" where
  "encode_backrun_bid_priority target scalar =
     push_bit GROUP_KEY_SHIFT (backrun_id target) OR (scalar AND low_128_mask)"

lemmas priority_constants =
  TOB_MARKER_BIT_def OPPORTUNITY_MARKER_BIT_def GROUP_KEY_SHIFT_def BACKRUN_ID_BITS_def

lemmas priority_encoders =
  encode_tob_priority_def encode_opportunity_priority_def encode_backrun_bid_priority_def
  backrun_id_def low_128_mask_def priority_constants

subsection \<open>Decoding: selector and length are checked first\<close>

lemma decode_gateway_call_Some_iff:
  "decode_gateway_call A tx = Some call \<longleftrightarrow>
     (\<exists>args. 4 \<le> length (tx_input A tx) \<and> take 4 (tx_input A tx) = call_selector A \<and>
        abi_decode_raw A (drop 4 (tx_input A tx)) = Some args \<and>
        call = \<lparr>bid_amount = bidAmount args, target_tx_hash = targetTxHash args\<rparr>)"
  by (auto simp: decode_gateway_call_def Let_def not_less split: option.splits if_splits)

lemma decode_gateway_call_short:
  "length (tx_input A tx) < 4 \<Longrightarrow> decode_gateway_call A tx = None"
  by (simp add: decode_gateway_call_def)

lemma decode_gateway_call_wrong_selector:
  "take 4 (tx_input A tx) \<noteq> call_selector A \<Longrightarrow> decode_gateway_call A tx = None"
  by (simp add: decode_gateway_call_def Let_def)

subsection \<open>The value of a score\<close>

text \<open>The three parts of a score, as natural numbers.\<close>

definition fee_value :: "'tx alloy \<Rightarrow> 'tx \<Rightarrow> policy_config \<Rightarrow> nat" where
  "fee_value A tx policy =
     min (unat (tx_priority_fee_or_price A tx))
         (unat (tx_max_fee_per_gas A tx) - unat (base_fee_floor_wei policy))
       * unat (tx_gas_limit A tx)"

definition bid_value :: "'tx alloy \<Rightarrow> 'tx \<Rightarrow> policy_config \<Rightarrow> nat" where
  "bid_value A tx policy =
     (if tx_to A tx = Some (gateway policy)
      then (case decode_gateway_call A tx of None \<Rightarrow> 0 | Some call \<Rightarrow> unat (bid_amount call))
      else 0)"

lemma unat_effective_priority_fee:
  "unat (effective_priority_fee_per_gas A tx fl) =
     min (unat (tx_priority_fee_or_price A tx)) (unat (tx_max_fee_per_gas A tx) - unat fl)"
  by (simp add: effective_priority_fee_per_gas_def unat_min_word unat_saturating_sub)

lemma unat_ucast_up: "LENGTH('a) \<le> LENGTH('b) \<Longrightarrow> unat (ucast (x :: 'a::len word) :: 'b::len word) = unat x"
  by (simp add: unsigned_ucast_eq take_bit_nat_eq_self_iff)
     (meson order_less_le_trans power_increasing one_le_numeral unsigned_less)

text \<open>The fee fits in 192 bits, so its saturating product is exact.\<close>

lemma fee_value_bound: "fee_value A tx policy < 2 ^ 192"
proof -
  have a: "min (unat (tx_priority_fee_or_price A tx))
         (unat (tx_max_fee_per_gas A tx) - unat (base_fee_floor_wei policy)) < 2 ^ 128"
    using unat_less_128 [of "tx_priority_fee_or_price A tx"] by (rule min.strict_coboundedI1)
  have b: "unat (tx_gas_limit A tx) < 2 ^ 64"
    by (rule unat_less_64)
  have "fee_value A tx policy < 2 ^ 128 * 2 ^ 64"
    unfolding fee_value_def using a b by (intro mult_strict_mono) auto
  then show ?thesis
    by simp
qed

lemma unat_compute_priority:
  "unat (compute_priority A tx policy)
     = min (2 ^ 256 - 1) (fee_value A tx policy + bid_value A tx policy)"
proof -
  let ?p = "effective_priority_fee_per_gas A tx (base_fee_floor_wei policy)"
  let ?fee = "saturating_mul (ucast ?p :: u256) (ucast (ucast (tx_gas_limit A tx) :: u128))"
  have "unat (ucast ?p :: u256) * unat (ucast (ucast (tx_gas_limit A tx) :: u128) :: u256)
      = fee_value A tx policy"
    by (simp add: unat_ucast_up unat_effective_priority_fee fee_value_def)
  then have fee: "unat ?fee = fee_value A tx policy"
    using fee_value_bound [of A tx policy] by (simp add: unat_saturating_mul)
  have bid: "unat (case tx_to A tx of
               Some to \<Rightarrow>
                 if to = gateway policy
                 then (case gateway_bid_amount A tx of Some bid \<Rightarrow> bid | None \<Rightarrow> 0)
                 else 0
             | None \<Rightarrow> 0) = bid_value A tx policy"
    by (auto simp: bid_value_def gateway_bid_amount_def split: option.splits)
  show ?thesis
    unfolding compute_priority_def Let_def unat_saturating_add fee bid by simp
qed

subsection \<open>The value of an encoded priority\<close>

text \<open>A field shifted above a payload that fits below it: the bitwise or is a sum.\<close>

lemma or_shift_nat:
  fixes a b :: nat
  assumes "b < 2 ^ n"
  shows "push_bit n a OR b = a * 2 ^ n + b"
proof -
  have "take_bit n b = b"
    using assms by (simp add: take_bit_nat_eq_self)
  then have "push_bit n a AND b = 0"
    by (metis (no_types, lifting) and.commute bit_and_iff bit_eq_iff bit_push_bit_iff bit_0_eq
        bit_take_bit_iff bot_apply bot_bool_def not_less)
  then show ?thesis
    by (simp add: disjunctive_add_eq_or [symmetric] push_bit_eq_mult)
qed

lemma unat_or_shift:
  fixes a b :: u256
  assumes "n \<le> 256" "unat a < 2 ^ (256 - n)" "unat b < 2 ^ n"
  shows "unat (push_bit n a OR b) = unat a * 2 ^ n + unat b"
proof -
  have "unat a * 2 ^ n < 2 ^ (256 - n) * 2 ^ n"
    using assms(2) by simp
  also have "\<dots> = 2 ^ 256"
    using assms(1) by (metis le_add_diff_inverse2 power_add)
  finally have "take_bit 256 (push_bit n (unat a)) = push_bit n (unat a)"
    by (simp add: take_bit_nat_eq_self push_bit_eq_mult)
  then have "unat (push_bit n a OR b) = push_bit n (unat a) OR unat b"
    by (simp add: unsigned_or_eq unsigned_push_bit_eq)
  with assms(3) show ?thesis
    by (simp add: or_shift_nat)
qed

lemma low_128_mask_eq: "low_128_mask = mask 128"
  by (simp add: low_128_mask_def mask_eq_exp_minus_1 push_bit_eq_mult)

lemma unat_low_128: "unat (s AND low_128_mask) = unat s mod 2 ^ 128"
  by (simp only: low_128_mask_eq take_bit_eq_mask [symmetric] unsigned_take_bit_eq)
     (simp only: take_bit_eq_mod)

lemma unat_backrun_id [unat_encoding]: "unat (backrun_id t) = unat t div 2 ^ 130"
proof -
  have "take_bit 256 (unat t) = unat t"
    by (rule take_bit_nat_eq_self [OF unat_less_256])
  then show ?thesis
    by (simp only: backrun_id_def BACKRUN_ID_BITS_def unsigned_drop_bit_eq)
       (simp add: drop_bit_eq_div)
qed

lemma backrun_id_bound: "unat (backrun_id t) < 2 ^ 126"
proof -
  have "unat t < 2 ^ 126 * 2 ^ 130"
    using unat_less_256 [of t] by simp
  then show ?thesis
    unfolding unat_backrun_id by (rule less_mult_imp_div_less)
qed

lemma unat_encode_tob [unat_encoding]:
  "unat (encode_tob_priority s) = 2 ^ 255 + unat s mod 2 ^ 128"
proof -
  have "unat s mod 2 ^ 128 < (2::nat) ^ 255"
    by (rule order_less_trans [OF mod_less_divisor]) auto
  then show ?thesis
    using unat_or_shift [of 255 1 "s AND low_128_mask"]
    by (simp add: encode_tob_priority_def TOB_MARKER_BIT_def unat_low_128)
qed

lemma unat_encode_bid [unat_encoding]:
  "unat (encode_backrun_bid_priority t s) = unat (backrun_id t) * 2 ^ 129 + unat s mod 2 ^ 128"
proof -
  have "unat s mod 2 ^ 128 < (2::nat) ^ 129"
    by (rule order_less_trans [OF mod_less_divisor]) auto
  moreover have "unat (backrun_id t) < 2 ^ (256 - 129)"
    by (rule order_less_trans [OF backrun_id_bound]) simp
  ultimately show ?thesis
    using unat_or_shift [of 129 "backrun_id t" "s AND low_128_mask"]
    by (simp add: encode_backrun_bid_priority_def GROUP_KEY_SHIFT_def unat_low_128)
qed

lemma unat_encode_opportunity [unat_encoding]:
  "unat (encode_opportunity_priority t) = unat (backrun_id t) * 2 ^ 129 + 2 ^ 128"
proof -
  have one: "unat (push_bit 128 1 :: u256) = 2 ^ 128"
    using unat_or_shift [of 128 1 0] by simp
  moreover have "unat (backrun_id t) < 2 ^ (256 - 129)"
    by (rule order_less_trans [OF backrun_id_bound]) simp
  ultimately show ?thesis
    using unat_or_shift [of 129 "backrun_id t" "push_bit 128 1"]
    by (simp add: encode_opportunity_priority_def GROUP_KEY_SHIFT_def OPPORTUNITY_MARKER_BIT_def)
qed

end
