(* ===== verification/Pending_Pool.thy ===== *)
theory Pending_Pool
  imports Bounded_Store Policy
begin

section \<open>The backrun pairing pool\<close>

text \<open>
  \<open>PendingPool\<close> of \<^verbatim>\<open>src/backrun.rs\<close>: the cache of recently seen transactions, the bids
  parked under the hash of their target, the two order queues, the counter of parked bids and
  the set of targets already streamed. Every operation takes the pool and returns it updated.
  \<open>observe_at\<close> and \<open>prune\<close> take the instant they read; \<open>forget\<close> takes the order in which the
  hash map of parked bids is visited.
\<close>

subsection \<open>State and results\<close>

record 'tx reinjection =
  rj_hash :: txhash
  rj_tx :: 'tx
  rj_priority :: u256

record 'tx observe_result =
  reinjections :: "'tx reinjection list"
  pairs_matched :: u64
  bids_pended :: u64
  bids_evicted :: u64
  skipped_non_gateway :: bool
  skipped_invalid_gateway :: bool

definition default_result :: "'tx observe_result" where
  "default_result =
     \<lparr>reinjections = [], pairs_matched = 0, bids_pended = 0, bids_evicted = 0,
      skipped_non_gateway = False, skipped_invalid_gateway = False\<rparr>"

record 'tx cached_tx =
  ct_tx :: 'tx
  ct_seen_at :: instant

record 'tx pending_bid =
  pb_hash :: txhash
  pb_tx :: 'tx
  pb_scalar :: u256
  pb_target :: txhash
  pb_seen_at :: instant

type_synonym 'tx bid_map = "(txhash, 'tx pending_bid list) fmap"
type_synonym 'tx tx_cache = "(txhash, 'tx cached_tx) fmap"

record 'tx pending_pool =
  policy :: policy_config
  fallback :: u256
  ttl :: duration
  max_cache_entries :: usize
  max_pending_entries :: usize
  cache :: "'tx tx_cache"
  cache_order :: "txhash list"
  pending :: "'tx bid_map"
  pending_order :: "(txhash \<times> txhash) list"
  pending_count :: usize
  streamed_targets :: "txhash fset"

definition pool_new :: "policy_config \<Rightarrow> u256 \<Rightarrow> duration \<Rightarrow> usize \<Rightarrow> usize \<Rightarrow> 'tx pending_pool" where
  "pool_new pol fb t mc mp =
     \<lparr>policy = pol, fallback = fb, ttl = t,
      max_cache_entries = max mc 1, max_pending_entries = max mp 1,
      cache = fmempty, cache_order = [], pending = fmempty, pending_order = [],
      pending_count = 0, streamed_targets = {||}\<rparr>"

definition pending_len :: "'tx pending_pool \<Rightarrow> usize" where
  "pending_len p = pending_count p"

definition cache_len :: "'tx pending_pool \<Rightarrow> nat" where
  "cache_len p = hm_len (cache p)"

subsection \<open>The candidate cache\<close>

fun evict_cache :: "usize \<Rightarrow> 'tx tx_cache \<Rightarrow> txhash list \<Rightarrow> txhash fset \<Rightarrow>
    'tx tx_cache \<times> txhash list \<times> txhash fset" where
  "evict_cache mx c [] streamed = (c, [], streamed)"
| "evict_cache mx c (old # order') streamed =
     (if unat mx < hm_len c
      then (case fmlookup c old of
              Some _ \<Rightarrow> evict_cache mx (fmdrop old c) order' (streamed |-| {|old|})
            | None \<Rightarrow> evict_cache mx c order' streamed)
      else (c, old # order', streamed))"

definition insert_cache :: "txhash \<Rightarrow> 'tx \<Rightarrow> instant \<Rightarrow> 'tx pending_pool \<Rightarrow> 'tx pending_pool" where
  "insert_cache hash tx now p =
     (let c = fmupd hash \<lparr>ct_tx = tx, ct_seen_at = now\<rparr> (cache p);
          order1 = (if fmlookup (cache p) hash = None then cache_order p @ [hash] else cache_order p);
          (c', order2, streamed) = evict_cache (max_cache_entries p) c order1 (streamed_targets p)
      in p\<lparr>cache := c', cache_order := order2, streamed_targets := streamed\<rparr>)"

subsection \<open>Parking a bid\<close>

fun evict_pending :: "usize \<Rightarrow> 'tx bid_map \<Rightarrow> (txhash \<times> txhash) list \<Rightarrow> usize \<Rightarrow> u64 \<Rightarrow>
    'tx bid_map \<times> (txhash \<times> txhash) list \<times> usize \<times> u64" where
  "evict_pending mx pend [] count evicted = (pend, [], count, evicted)"
| "evict_pending mx pend ((target, hash) # order') count evicted =
     (if mx < count
      then (case fmlookup pend target of
              None \<Rightarrow> evict_pending mx pend order' count evicted
            | Some bids \<Rightarrow>
                (case position (\<lambda>candidate. pb_hash candidate = hash) bids of
                   None \<Rightarrow> evict_pending mx pend order' count evicted
                 | Some pos \<Rightarrow>
                     (let bids' = vec_remove pos bids
                      in evict_pending mx
                           (if bids' = [] then fmdrop target pend else fmupd target bids' pend)
                           order' (count - 1) (evicted + 1))))
      else (pend, (target, hash) # order', count, evicted))"

definition push_pending :: "'tx pending_bid \<Rightarrow> 'tx pending_pool \<Rightarrow> u64 \<times> 'tx pending_pool" where
  "push_pending bid p =
     (let key = pb_target bid;
          bids = (case fmlookup (pending p) key of None \<Rightarrow> [] | Some v \<Rightarrow> v);
          (pend, order', count, evicted) =
            evict_pending (max_pending_entries p) (fmupd key (bids @ [bid]) (pending p))
              (pending_order p @ [(key, pb_hash bid)]) (pending_count p + 1) 0
      in (evicted, p\<lparr>pending := pend, pending_order := order', pending_count := count\<rparr>))"

subsection \<open>Observing a transaction\<close>

definition emit_opportunity_once :: "txhash \<Rightarrow> 'tx observe_result \<times> 'tx pending_pool \<Rightarrow>
    'tx observe_result \<times> 'tx pending_pool" where
  "emit_opportunity_once target = (\<lambda>(res, p).
     if target |\<in>| streamed_targets p then (res, p)
     else (case fmlookup (cache p) target of
             Some cached \<Rightarrow>
               (res\<lparr>reinjections := reinjections res @
                   [\<lparr>rj_hash = target, rj_tx = ct_tx cached,
                     rj_priority = encode_opportunity_priority target\<rparr>]\<rparr>,
                p\<lparr>streamed_targets := finsert target (streamed_targets p)\<rparr>)
           | None \<Rightarrow> (res, p)))"

text \<open>The loop that flushes the bids that waited for \<open>hash\<close>.\<close>

fun flush_bids :: "txhash \<Rightarrow> 'tx pending_bid list \<Rightarrow> 'tx observe_result \<times> 'tx pending_pool \<Rightarrow>
    'tx observe_result \<times> 'tx pending_pool" where
  "flush_bids hash [] rp = rp"
| "flush_bids hash (b # bids) (res, p) =
     flush_bids hash bids
       (res\<lparr>reinjections := reinjections res @
              [\<lparr>rj_hash = pb_hash b, rj_tx = pb_tx b,
                rj_priority = encode_backrun_bid_priority hash (pb_scalar b)\<rparr>],
            pairs_matched := pairs_matched res + 1\<rparr>,
        p\<lparr>pending_count := pending_count p - 1\<rparr>)"

definition observe_at :: "'tx alloy \<Rightarrow> txhash \<Rightarrow> 'tx \<Rightarrow> instant \<Rightarrow> 'tx pending_pool \<Rightarrow>
    'tx observe_result \<times> 'tx pending_pool" where
  "observe_at A hash tx now p0 =
     (let res = default_result;
          p = insert_cache hash tx now p0;
          is_gateway = (case tx_to A tx of Some to \<Rightarrow> is_allowlisted_gateway (policy p) to
                                         | None \<Rightarrow> False)
      in if is_gateway
         then (case decode_gateway_call A tx of
                 Some call \<Rightarrow>
                   (if is_tob call
                    then (let scalar = compute_priority A tx (policy p);
                              priority = (if scalar = 0 then fallback p else encode_tob_priority scalar)
                          in (res\<lparr>reinjections := reinjections res @
                                [\<lparr>rj_hash = hash, rj_tx = tx, rj_priority = priority\<rparr>]\<rparr>, p))
                    else (let bid_target = target_tx_hash call;
                              scalar = compute_priority A tx (policy p)
                          in if bid_target |\<in>| fmdom (cache p)
                             then (let (res', p') = emit_opportunity_once bid_target (res, p)
                                   in (res'\<lparr>reinjections := reinjections res' @
                                         [\<lparr>rj_hash = hash, rj_tx = tx,
                                           rj_priority = encode_backrun_bid_priority bid_target scalar\<rparr>],
                                         pairs_matched := pairs_matched res' + 1\<rparr>, p'))
                             else (let (evicted, p') = push_pending
                                         \<lparr>pb_hash = hash, pb_tx = tx, pb_scalar = scalar,
                                          pb_target = bid_target, pb_seen_at = now\<rparr> p
                                   in (res\<lparr>bids_evicted := bids_evicted res + evicted,
                                           bids_pended := bids_pended res + 1\<rparr>, p'))))
               | None \<Rightarrow> (res\<lparr>skipped_invalid_gateway := True\<rparr>, p))
         else (case fmlookup (pending p) hash of
                 Some bids \<Rightarrow>
                   flush_bids hash bids
                     (emit_opportunity_once hash (res, p\<lparr>pending := fmdrop hash (pending p)\<rparr>))
               | None \<Rightarrow> (res\<lparr>skipped_non_gateway := True\<rparr>, p)))"

subsection \<open>Expiry\<close>

fun prune_cache :: "duration \<Rightarrow> instant \<Rightarrow> 'tx tx_cache \<Rightarrow> txhash list \<Rightarrow> txhash fset \<Rightarrow>
    'tx tx_cache \<times> txhash list \<times> txhash fset" where
  "prune_cache t now c [] streamed = (c, [], streamed)"
| "prune_cache t now c (front # order') streamed =
     (case fmlookup c front of
        Some e \<Rightarrow>
          (if t \<le> now - ct_seen_at e
           then prune_cache t now (fmdrop front c) order' (streamed |-| {|front|})
           else (c, front # order', streamed))
      | None \<Rightarrow> prune_cache t now c order' streamed)"

fun prune_pending :: "duration \<Rightarrow> instant \<Rightarrow> 'tx bid_map \<Rightarrow> (txhash \<times> txhash) list \<Rightarrow> usize \<Rightarrow> u64 \<Rightarrow>
    'tx bid_map \<times> (txhash \<times> txhash) list \<times> usize \<times> u64" where
  "prune_pending t now pend [] count expired = (pend, [], count, expired)"
| "prune_pending t now pend ((target, bid) # order') count expired =
     (case fmlookup pend target of
        Some vec \<Rightarrow>
          (case position (\<lambda>b. pb_hash b = bid) vec of
             Some pos \<Rightarrow>
               (if t \<le> now - pb_seen_at (vec ! pos)
                then (let vec' = vec_remove pos vec
                      in prune_pending t now
                           (if vec' = [] then fmdrop target pend else fmupd target vec' pend)
                           order' (count - 1) (expired + 1))
                else (pend, (target, bid) # order', count, expired))
           | None \<Rightarrow> prune_pending t now pend order' count expired)
      | None \<Rightarrow> prune_pending t now pend order' count expired)"

definition prune :: "instant \<Rightarrow> 'tx pending_pool \<Rightarrow> u64 \<times> 'tx pending_pool" where
  "prune now p =
     (let (c, corder, streamed) =
            prune_cache (ttl p) now (cache p) (cache_order p) (streamed_targets p);
          (pend, porder, count, expired) =
            prune_pending (ttl p) now (pending p) (pending_order p) (pending_count p) 0
      in (expired, p\<lparr>cache := c, cache_order := corder, streamed_targets := streamed,
                     pending := pend, pending_order := porder, pending_count := count\<rparr>))"

subsection \<open>Forgetting a transaction\<close>

text \<open>The scan of the parked bids in the order \<open>keys\<close>, up to the first vector that holds one.\<close>

fun forget_scan :: "txhash list \<Rightarrow> txhash \<Rightarrow> 'tx bid_map \<Rightarrow> usize \<Rightarrow> 'tx bid_map \<times> usize" where
  "forget_scan [] hash pend count = (pend, count)"
| "forget_scan (key # keys) hash pend count =
     (case fmlookup pend key of
        None \<Rightarrow> forget_scan keys hash pend count
      | Some vec \<Rightarrow>
          (case position (\<lambda>b. pb_hash b = hash) vec of
             Some pos \<Rightarrow> (fmupd key (vec_remove pos vec) pend, count - 1)
           | None \<Rightarrow> forget_scan keys hash pend count))"

definition forget :: "('tx bid_map \<Rightarrow> txhash list) \<Rightarrow> txhash \<Rightarrow> 'tx pending_pool \<Rightarrow> 'tx pending_pool" where
  "forget it hash p =
     (let c = fmdrop hash (cache p);
          streamed = streamed_targets p |-| {|hash|};
          (pend1, count1) =
            (case fmlookup (pending p) hash of
               Some vec \<Rightarrow> (fmdrop hash (pending p), pending_count p - of_nat (length vec))
             | None \<Rightarrow> (pending p, pending_count p));
          (pend2, count2) = forget_scan (it pend1) hash pend1 count1;
          pend3 = fmfilter (\<lambda>k. fmlookup pend2 k \<noteq> Some []) pend2
      in p\<lparr>cache := c, streamed_targets := streamed, pending := pend3, pending_count := count2\<rparr>)"

end
