(* ===== verification/Pool_Invariant.thy ===== *)
theory Pool_Invariant
  imports Pending_Pool
begin

section \<open>The representation invariant of the pairing pool\<close>

text \<open>
  The maps, the order queues, the counter and the set of streamed targets of a pool agree:
  every cached hash and every parked bid has an entry in its queue, the counter is the number of
  parked bids and never wraps, both collections respect their capacities, every streamed target
  is cached. All operations keep this, whatever transactions, hashes and instants they are given
  and in whatever order the map of parked bids is visited.
\<close>

subsection \<open>Parked bids, their queue and their counter\<close>

definition same_hash :: "txhash \<Rightarrow> 'tx pending_bid \<Rightarrow> bool" where
  "same_hash h b \<longleftrightarrow> pb_hash b = h"

definition parked_with :: "'tx bid_map \<Rightarrow> txhash \<Rightarrow> txhash \<Rightarrow> nat" where
  "parked_with pend t h = length (filter (same_hash h) (vec_of pend t))"

definition bids_ok :: "'tx bid_map \<Rightarrow> (txhash \<times> txhash) list \<Rightarrow> usize \<Rightarrow> bool" where
  "bids_ok pend ord cnt \<longleftrightarrow>
     unat cnt = hm_total pend
     \<and> (\<forall>t h. parked_with pend t h \<le> count_list ord (t, h))
     \<and> (\<forall>t. \<forall>b \<in> set (vec_of pend t). pb_target b = t)"

definition no_empty_vec :: "'tx bid_map \<Rightarrow> bool" where
  "no_empty_vec pend \<longleftrightarrow> (\<forall>t. fmlookup pend t \<noteq> Some [])"

lemma bids_okD:
  assumes "bids_ok pend ord cnt"
  shows "unat cnt = hm_total pend" "parked_with pend t h \<le> count_list ord (t, h)"
    "b \<in> set (vec_of pend t) \<Longrightarrow> pb_target b = t"
  using assms by (auto simp: bids_ok_def)

lemma no_empty_vecD: "no_empty_vec pend \<Longrightarrow> fmlookup pend t \<noteq> Some []"
  by (simp add: no_empty_vec_def)

lemma no_empty_vec_update:
  "no_empty_vec pend \<Longrightarrow> v \<noteq> [] \<Longrightarrow> no_empty_vec (fmupd t v pend)"
  "no_empty_vec pend \<Longrightarrow> no_empty_vec (fmdrop t pend)"
  "no_empty_vec pend \<Longrightarrow> no_empty_vec (set_vec t v pend)"
  by (simp_all add: no_empty_vec_def set_vec_def)

lemma parked_with_zero_iff: "(\<forall>h. parked_with pend t h = 0) \<longleftrightarrow> vec_of pend t = []"
  by (cases "vec_of pend t") (auto simp: parked_with_def same_hash_def)

text \<open>With an empty queue nothing is parked.\<close>

lemma bids_ok_Nil_total: "bids_ok pend [] cnt \<Longrightarrow> hm_total pend = 0"
  by (rule hm_total_empty) (simp add: bids_ok_def parked_with_zero_iff [symmetric])

text \<open>The two ways a queue entry is consumed: it is stale, or its bid is taken out.\<close>

lemma bids_ok_stale:
  assumes "bids_ok pend ((t, h) # ord) cnt" "parked_with pend t h = 0"
  shows "bids_ok pend ord cnt"
  using assms by (auto simp: bids_ok_def split: if_splits) (metis le_zero_eq not_less_eq_eq zero_le)+

lemma position_same_hash:
  "position (\<lambda>b. pb_hash b = h) v = position (same_hash h) v"
proof -
  have "(\<lambda>b. pb_hash b = h) = same_hash h"
    by (simp add: fun_eq_iff same_hash_def)
  then show ?thesis by (rule arg_cong)
qed

lemma parked_with_set_vec:
  assumes "position (same_hash h) (vec_of pend t) = Some i"
    and "\<And>j. vec_of pend' j = (if j = t then vec_remove i (vec_of pend t) else vec_of pend j)"
  shows "parked_with pend t h = Suc (parked_with pend' t h)"
    "(u, g) \<noteq> (t, h) \<Longrightarrow> parked_with pend' u g = parked_with pend u g"
    "hm_total pend = Suc (hm_total pend')"
proof -
  note rem = vec_remove_position [OF assms(1)]
  show "parked_with pend t h = Suc (parked_with pend' t h)"
    using length_filter_remove_first [OF assms(1)] by (simp add: parked_with_def assms(2) rem)
  show "parked_with pend' u g = parked_with pend u g" if "(u, g) \<noteq> (t, h)"
  proof (cases "u = t")
    case True
    with that have "filter (same_hash g) (remove_first (same_hash h) (vec_of pend t))
        = filter (same_hash g) (vec_of pend t)"
      by (intro remove_first_filter_other) (auto simp: same_hash_def)
    with True show ?thesis by (simp add: parked_with_def assms(2) rem)
  qed (simp add: parked_with_def assms(2))
  show "hm_total pend = Suc (hm_total pend')"
    using hm_total_update [OF assms(2)] position_remove_first [OF assms(1)] by (simp add: rem)
qed

lemma bids_ok_take:
  assumes ok: "bids_ok pend ord cnt"
    and pos: "position (same_hash h) (vec_of pend t) = Some i"
    and vec: "\<And>j. vec_of pend' j = (if j = t then vec_remove i (vec_of pend t) else vec_of pend j)"
  shows "bids_ok pend' ord (cnt - 1)"
    and "ord = (t, h) # ord' \<Longrightarrow> bids_ok pend' ord' (cnt - 1)"
proof -
  note p = parked_with_set_vec [OF pos vec]
  note rem = vec_remove_position [OF pos]
  have cnt: "unat (cnt - 1) = hm_total pend'"
    using bids_okD(1) [OF ok] p(3) by (simp add: unat_dec_word)
  have tgt: "\<forall>u. \<forall>b \<in> set (vec_of pend' u). pb_target b = u"
    using bids_okD(3) [OF ok] set_remove_first [of "same_hash h" "vec_of pend t"]
    by (auto simp: vec rem)
  have le: "parked_with pend' u g \<le> count_list ord (u, g)" for u g
    using bids_okD(2) [OF ok, of u g] p(1) p(2) [of u g] by (cases "(u, g) = (t, h)") auto
  show "bids_ok pend' ord (cnt - 1)"
    using cnt tgt le by (simp add: bids_ok_def)
  show "bids_ok pend' ord' (cnt - 1)" if "ord = (t, h) # ord'"
  proof -
    have "parked_with pend' u g \<le> count_list ord' (u, g)" for u g
      using bids_okD(2) [OF ok, of u g] p(1) p(2) [of u g] that
      by (cases "(u, g) = (t, h)") (auto split: if_splits)
    with cnt tgt show ?thesis by (simp add: bids_ok_def)
  qed
qed

text \<open>The update of the code after it took a bid out, and its effect on empty vectors.\<close>

lemma take_update:
  "(if vec_remove i v = [] then fmdrop t pend else fmupd t (vec_remove i v) pend)
     = set_vec t (vec_remove i v) pend"
  by (simp add: set_vec_def)

subsection \<open>The two loops over the queue of parked bids\<close>

lemma evict_pending_ok:
  assumes "bids_ok pend ord cnt" "no_empty_vec pend"
    and "evict_pending mx pend ord cnt ev = (pend', ord', cnt', ev')"
  shows "bids_ok pend' ord' cnt' \<and> no_empty_vec pend' \<and> unat cnt' \<le> unat mx
    \<and> ev' = ev + of_nat (hm_total pend - hm_total pend') \<and> hm_total pend' \<le> hm_total pend
    \<and> (\<forall>t. set (vec_of pend' t) \<subseteq> set (vec_of pend t))"
  using assms
proof (induction mx pend ord cnt ev rule: evict_pending.induct)
  case (1 mx pend cnt ev)
  then show ?case using bids_ok_Nil_total [of pend cnt] by (auto simp: bids_ok_def)
next
  case (2 mx pend t h ord cnt ev)
  consider (fits) "\<not> mx < cnt"
    | (stale) "mx < cnt" "position (same_hash h) (vec_of pend t) = None"
    | (take) i where "mx < cnt" "position (same_hash h) (vec_of pend t) = Some i"
    by fastforce
  then show ?case
  proof cases
    case fits
    with 2 show ?thesis by (auto simp: word_less_nat_alt)
  next
    case stale
    then have "parked_with pend t h = 0"
      by (simp add: position_None_iff parked_with_def)
    with "2.prems"(1) have "bids_ok pend ord cnt" by (rule bids_ok_stale)
    moreover have "evict_pending mx pend ord cnt ev = (pend', ord', cnt', ev')"
      using "2.prems"(3) stale
      by (auto simp: vec_of_def position_same_hash split: option.splits)
    ultimately show ?thesis
      using "2.IH"(1,2) "2.prems"(2) stale
      by (cases "fmlookup pend t") (auto simp: vec_of_def position_same_hash)
  next
    case (take i)
    then obtain v where v: "fmlookup pend t = Some v" "vec_of pend t = v"
      by (cases "fmlookup pend t") (auto simp: vec_of_def)
    let ?pend = "set_vec t (vec_remove i v) pend"
    have vec: "vec_of ?pend j = (if j = t then vec_remove i (vec_of pend t) else vec_of pend j)" for j
      by (simp add: v)
    note tot = parked_with_set_vec(3) [OF take(2) vec]
    have run: "evict_pending mx ?pend ord (cnt - 1) (ev + 1) = (pend', ord', cnt', ev')"
      using "2.prems"(3) take v by (simp add: position_same_hash take_update Let_def)
    have ih: "bids_ok pend' ord' cnt' \<and> no_empty_vec pend' \<and> unat cnt' \<le> unat mx
        \<and> ev' = ev + 1 + of_nat (hm_total ?pend - hm_total pend') \<and> hm_total pend' \<le> hm_total ?pend
        \<and> (\<forall>t. set (vec_of pend' t) \<subseteq> set (vec_of ?pend t))"
      using "2.IH"(3) [of v i "vec_remove i v"] take v run
        bids_ok_take(2) [OF "2.prems"(1) take(2) vec refl] no_empty_vec_update(3) [OF "2.prems"(2)]
      by (simp add: position_same_hash take_update del: vec_of_set_vec)
    moreover have "set (vec_of ?pend u) \<subseteq> set (vec_of pend u)" for u
      using set_remove_first [of "same_hash h" v] vec_remove_position [OF take(2)] v by simp
    moreover have "hm_total pend - hm_total pend' = Suc (hm_total ?pend - hm_total pend')"
      using ih tot by (auto simp: Suc_diff_le)
    ultimately show ?thesis
      using tot by (auto simp: algebra_simps)
  qed
qed

lemma prune_pending_ok:
  assumes "bids_ok pend ord cnt" "no_empty_vec pend"
    and "prune_pending d now pend ord cnt ex = (pend', ord', cnt', ex')"
  shows "bids_ok pend' ord' cnt' \<and> no_empty_vec pend'
    \<and> ex' = ex + of_nat (hm_total pend - hm_total pend') \<and> hm_total pend' \<le> hm_total pend
    \<and> (\<forall>t. set (vec_of pend' t) \<subseteq> set (vec_of pend t))"
  using assms
proof (induction d now pend ord cnt ex rule: prune_pending.induct)
  case (1 d now pend cnt ex)
  then show ?case by auto
next
  case (2 d now pend t h ord cnt ex)
  consider (stale) "position (same_hash h) (vec_of pend t) = None"
    | (young) v i where "fmlookup pend t = Some v" "position (same_hash h) v = Some i"
        "\<not> d \<le> now - pb_seen_at (v ! i)"
    | (take) v i where "fmlookup pend t = Some v" "position (same_hash h) v = Some i"
        "d \<le> now - pb_seen_at (v ! i)"
    by (cases "fmlookup pend t") (fastforce simp: vec_of_def)+
  then show ?case
  proof cases
    case stale
    then have "parked_with pend t h = 0"
      by (simp add: position_None_iff parked_with_def)
    with "2.prems"(1) have "bids_ok pend ord cnt" by (rule bids_ok_stale)
    moreover have "prune_pending d now pend ord cnt ex = (pend', ord', cnt', ex')"
      using "2.prems"(3) stale
      by (auto simp: vec_of_def position_same_hash split: option.splits)
    ultimately show ?thesis
      using "2.IH" "2.prems"(2) stale
      by (cases "fmlookup pend t") (auto simp: vec_of_def position_same_hash)
  next
    case young
    with 2 show ?thesis by (auto simp: position_same_hash)
  next
    case (take v i)
    have pos: "position (same_hash h) (vec_of pend t) = Some i"
      using take by (simp add: vec_of_lookup)
    let ?pend = "set_vec t (vec_remove i v) pend"
    have vec: "vec_of ?pend j = (if j = t then vec_remove i (vec_of pend t) else vec_of pend j)" for j
      using take by (simp add: vec_of_lookup)
    note tot = parked_with_set_vec(3) [OF pos vec]
    have run: "prune_pending d now ?pend ord (cnt - 1) (ex + 1) = (pend', ord', cnt', ex')"
      using "2.prems"(3) take by (simp add: position_same_hash take_update Let_def)
    have ih: "bids_ok pend' ord' cnt' \<and> no_empty_vec pend'
        \<and> ex' = ex + 1 + of_nat (hm_total ?pend - hm_total pend') \<and> hm_total pend' \<le> hm_total ?pend
        \<and> (\<forall>t. set (vec_of pend' t) \<subseteq> set (vec_of ?pend t))"
      using "2.IH"(3) [of v i "vec_remove i v"] take run
        bids_ok_take(2) [OF "2.prems"(1) pos vec refl] no_empty_vec_update(3) [OF "2.prems"(2)]
      by (simp add: position_same_hash take_update del: vec_of_set_vec)
    moreover have "set (vec_of ?pend u) \<subseteq> set (vec_of pend u)" for u
      using set_remove_first [of "same_hash h" v] vec_remove_position [OF take(2)] take(1)
      by (simp add: vec_of_lookup)
    moreover have "hm_total pend - hm_total pend' = Suc (hm_total ?pend - hm_total pend')"
      using ih tot by (auto simp: Suc_diff_le)
    ultimately show ?thesis
      using tot by (auto simp: algebra_simps)
  qed
qed

subsection \<open>The two loops over the queue of cached hashes\<close>

definition cache_ok :: "'tx tx_cache \<Rightarrow> txhash list \<Rightarrow> txhash fset \<Rightarrow> bool" where
  "cache_ok c ord streamed \<longleftrightarrow> fset (fmdom c) \<subseteq> set ord \<and> streamed |\<subseteq>| fmdom c"

lemma cache_ok_stale: "cache_ok c (k # ord) st \<Longrightarrow> fmlookup c k = None \<Longrightarrow> cache_ok c ord st"
  unfolding cache_ok_def by (metis queued_stale)

lemma cache_ok_drop: "cache_ok c (k # ord) st \<Longrightarrow> cache_ok (fmdrop k c) ord (st |-| {|k|})"
  unfolding cache_ok_def by auto

lemmas cache_ok_rules = cache_ok_stale cache_ok_drop

lemma evict_cache_ok:
  assumes "cache_ok c ord st" "evict_cache mx c ord st = (c', ord', st')"
  shows "cache_ok c' ord' st' \<and> hm_len c' \<le> unat mx \<and> fmdom c' |\<subseteq>| fmdom c
    \<and> (\<forall>k. k |\<in>| fmdom c' \<longrightarrow> fmlookup c' k = fmlookup c k)"
  using assms
proof (induction mx c ord st rule: evict_cache.induct)
  case (1 mx c st)
  then have "hm_len c = 0" by (auto simp: cache_ok_def hm_len_def fcard.rep_eq)
  with 1 show ?case by auto
next
  case (2 mx c old ord st)
  show ?case
  proof (cases "unat mx < hm_len c")
    case False
    with 2 show ?thesis by auto
  next
    case over: True
    show ?thesis
    proof (cases "fmlookup c old")
      case None
      then show ?thesis
        using "2.IH"(1) [OF over None cache_ok_stale [OF "2.prems"(1) None]] "2.prems"(2) over by simp
    next
      case (Some e)
      then show ?thesis
        using "2.IH"(2) [OF over Some cache_ok_drop [OF "2.prems"(1)]] "2.prems"(2) over by auto
    qed
  qed
qed

lemma prune_cache_ok:
  assumes "cache_ok c ord st" "prune_cache d now c ord st = (c', ord', st')"
  shows "cache_ok c' ord' st' \<and> fmdom c' |\<subseteq>| fmdom c
    \<and> (\<forall>k. k |\<in>| fmdom c' \<longrightarrow> fmlookup c' k = fmlookup c k)
    \<and> (ord' = [] \<or> fmlookup c' (hd ord') \<noteq> None)"
  using assms
proof (induction d now c ord st rule: prune_cache.induct)
  case (2 d now c front ord st)
  show ?case
  proof (cases "fmlookup c front")
    case None
    then show ?thesis
      using "2.IH"(1) [OF None cache_ok_stale [OF "2.prems"(1) None]] "2.prems"(2) by simp
  next
    case (Some e)
    show ?thesis
    proof (cases "d \<le> now - ct_seen_at e")
      case True
      then show ?thesis
        using "2.IH"(2) [OF Some True cache_ok_drop [OF "2.prems"(1)]] "2.prems"(2) Some by auto
    next
      case False
      with 2 Some show ?thesis by auto
    qed
  qed
qed auto

lemma hm_len_mono: "fmdom c' |\<subseteq>| fmdom c \<Longrightarrow> hm_len c' \<le> hm_len c"
  by (simp add: hm_len_def fcard_mono)

subsection \<open>The invariant\<close>

definition pool_inv :: "'tx pending_pool \<Rightarrow> bool" where
  "pool_inv p \<longleftrightarrow>
     cache_ok (cache p) (cache_order p) (streamed_targets p)
     \<and> hm_len (cache p) \<le> unat (max_cache_entries p) \<and> 0 < unat (max_cache_entries p)
     \<and> bids_ok (pending p) (pending_order p) (pending_count p) \<and> no_empty_vec (pending p)
     \<and> hm_total (pending p) \<le> unat (max_pending_entries p) \<and> 0 < unat (max_pending_entries p)
     \<and> Suc (unat (max_pending_entries p)) < 2 ^ 64"

lemma pool_inv_new: "Suc (unat mp) < 2 ^ 64 \<Longrightarrow> pool_inv (pool_new pol fb t mc mp)"
  by (simp add: pool_inv_def pool_new_def cache_ok_def bids_ok_def no_empty_vec_def parked_with_def
      unat_max_word less_max_iff_disj)

text \<open>The configuration of a pool, which no operation changes.\<close>

definition pool_config :: "'tx pending_pool \<Rightarrow> policy_config \<times> u256 \<times> duration \<times> usize \<times> usize" where
  "pool_config p = (policy p, fallback p, ttl p, max_cache_entries p, max_pending_entries p)"

lemma insert_cache_inv:
  assumes inv: "pool_inv p"
  shows "pool_inv (insert_cache h tx now p)"
    "pool_config (insert_cache h tx now p) = pool_config p"
    "pending (insert_cache h tx now p) = pending p"
    "pending_order (insert_cache h tx now p) = pending_order p"
    "pending_count (insert_cache h tx now p) = pending_count p"
    "fmdom (cache (insert_cache h tx now p)) |\<subseteq>| finsert h (fmdom (cache p))"
    "k |\<in>| fmdom (cache (insert_cache h tx now p)) \<Longrightarrow>
       fmlookup (cache (insert_cache h tx now p)) k =
         (if k = h then Some \<lparr>ct_tx = tx, ct_seen_at = now\<rparr> else fmlookup (cache p) k)"
proof -
  let ?c = "fmupd h \<lparr>ct_tx = tx, ct_seen_at = now\<rparr> (cache p)"
  let ?ord = "if fmlookup (cache p) h = None then cache_order p @ [h] else cache_order p"
  obtain c' ord' st' where
    ev: "evict_cache (max_cache_entries p) ?c ?ord (streamed_targets p) = (c', ord', st')"
    using prod_cases3 by blast
  have p': "insert_cache h tx now p = p\<lparr>cache := c', cache_order := ord', streamed_targets := st'\<rparr>"
    by (simp add: insert_cache_def ev)
  have "cache_ok ?c ?ord (streamed_targets p)"
    using inv by (auto simp: pool_inv_def cache_ok_def fmlookup_dom_iff)
  note ok = evict_cache_ok [OF this ev]
  show "pool_inv (insert_cache h tx now p)"
    using inv ok by (simp add: pool_inv_def p')
  show "fmdom (cache (insert_cache h tx now p)) |\<subseteq>| finsert h (fmdom (cache p))"
    using ok by (simp add: p')
  show "k |\<in>| fmdom (cache (insert_cache h tx now p)) \<Longrightarrow>
       fmlookup (cache (insert_cache h tx now p)) k =
         (if k = h then Some \<lparr>ct_tx = tx, ct_seen_at = now\<rparr> else fmlookup (cache p) k)"
    using ok by (auto simp: p')
qed (simp_all add: insert_cache_def pool_config_def split: prod.splits)

lemma push_pending_inv:
  assumes inv: "pool_inv p" and push: "push_pending b p = (ev, p')"
  shows "pool_inv p'" "pool_config p' = pool_config p" "cache p' = cache p"
    "streamed_targets p' = streamed_targets p"
    "set (vec_of (pending p') t) \<subseteq> set (vec_of (pending p) t) \<union> (if t = pb_target b then {b} else {})"
    "ev = of_nat (Suc (hm_total (pending p)) - hm_total (pending p'))"
    "hm_total (pending p') \<le> Suc (hm_total (pending p))"
proof -
  let ?pend = "fmupd (pb_target b) (vec_of (pending p) (pb_target b) @ [b]) (pending p)"
  let ?ord = "pending_order p @ [(pb_target b, pb_hash b)]"
  obtain pend' ord' cnt' where
    e: "evict_pending (max_pending_entries p) ?pend ?ord (pending_count p + 1) 0 = (pend', ord', cnt', ev)"
    and p': "p' = p\<lparr>pending := pend', pending_order := ord', pending_count := cnt'\<rparr>"
    using push by (auto simp: push_pending_def vec_of_def Let_def split: prod.splits option.splits)
  have ok: "bids_ok (pending p) (pending_order p) (pending_count p)" and ne: "no_empty_vec (pending p)"
    and lt: "hm_total (pending p) \<le> unat (max_pending_entries p)" "Suc (unat (max_pending_entries p)) < 2 ^ 64"
    using inv by (simp_all add: pool_inv_def)
  have tot: "hm_total ?pend = Suc (hm_total (pending p))"
    using hm_total_update [of ?pend "pb_target b" "vec_of (pending p) (pb_target b) @ [b]" "pending p"]
    by simp
  have "unat (pending_count p + 1) = hm_total ?pend"
    using bids_okD(1) [OF ok] lt tot by (subst unat_inc_word) auto
  moreover have "parked_with ?pend t h \<le> count_list ?ord (t, h)" for t h
    using bids_okD(2) [OF ok, of t h] by (auto simp: parked_with_def same_hash_def)
  ultimately have "bids_ok ?pend ?ord (pending_count p + 1)"
    using bids_okD(3) [OF ok] by (auto simp: bids_ok_def)
  note r = evict_pending_ok [OF this no_empty_vec_update(1) [OF ne] e]
  show "pool_inv p'"
    using inv r by (auto simp: pool_inv_def p' bids_ok_def)
  show "set (vec_of (pending p') t) \<subseteq> set (vec_of (pending p) t) \<union> (if t = pb_target b then {b} else {})"
    using r by (auto simp: p' split: if_splits)
  show "ev = of_nat (Suc (hm_total (pending p)) - hm_total (pending p'))"
    "hm_total (pending p') \<le> Suc (hm_total (pending p))"
    using r tot by (auto simp: p')
  show "pool_config p' = pool_config p" "cache p' = cache p" "streamed_targets p' = streamed_targets p"
    by (simp_all add: p' pool_config_def)
qed

subsection \<open>Observing, branch by branch\<close>

text \<open>The opportunity reinjection of a target, empty when it was streamed or is not cached.\<close>

definition opportunity :: "'tx pending_pool \<Rightarrow> txhash \<Rightarrow> 'tx reinjection list" where
  "opportunity p t =
     (if t |\<in>| streamed_targets p then []
      else (case fmlookup (cache p) t of
              Some c \<Rightarrow> [\<lparr>rj_hash = t, rj_tx = ct_tx c, rj_priority = encode_opportunity_priority t\<rparr>]
            | None \<Rightarrow> []))"

definition mark_streamed :: "txhash \<Rightarrow> 'tx pending_pool \<Rightarrow> 'tx pending_pool" where
  "mark_streamed t p =
     p\<lparr>streamed_targets := (if t |\<in>| fmdom (cache p) then finsert t (streamed_targets p)
                           else streamed_targets p)\<rparr>"

definition bid_reinjection :: "txhash \<Rightarrow> 'tx pending_bid \<Rightarrow> 'tx reinjection" where
  "bid_reinjection t b =
     \<lparr>rj_hash = pb_hash b, rj_tx = pb_tx b, rj_priority = encode_backrun_bid_priority t (pb_scalar b)\<rparr>"

definition to_gateway :: "'tx alloy \<Rightarrow> policy_config \<Rightarrow> 'tx \<Rightarrow> bool" where
  "to_gateway A pol tx \<longleftrightarrow> tx_to A tx = Some (gateway pol)"

lemma emit_eq:
  "emit_opportunity_once t (res, p) =
     (res\<lparr>reinjections := reinjections res @ opportunity p t\<rparr>, mark_streamed t p)"
proof (cases "fmlookup (cache p) t")
  case None
  then have "t |\<notin>| fmdom (cache p)" by (rule fmdom_notI)
  with None show ?thesis
    by (cases p; cases res) (simp add: emit_opportunity_once_def opportunity_def mark_streamed_def)
next
  case (Some c)
  then have "t |\<in>| fmdom (cache p)" by (simp add: fmlookup_dom_iff)
  with Some show ?thesis
    by (cases p; cases res)
       (auto simp: emit_opportunity_once_def opportunity_def mark_streamed_def finsert_absorb)
qed

lemma flush_eq:
  "flush_bids h bids (res, p) =
     (res\<lparr>reinjections := reinjections res @ map (bid_reinjection h) bids,
          pairs_matched := pairs_matched res + of_nat (length bids)\<rparr>,
      p\<lparr>pending_count := pending_count p - of_nat (length bids)\<rparr>)"
  by (induction bids arbitrary: res p) (simp_all add: bid_reinjection_def algebra_simps)

lemma mark_streamed_simps [simp]:
  "cache (mark_streamed t p) = cache p" "cache_order (mark_streamed t p) = cache_order p"
  "pending (mark_streamed t p) = pending p" "pending_order (mark_streamed t p) = pending_order p"
  "pending_count (mark_streamed t p) = pending_count p"
  "pool_config (mark_streamed t p) = pool_config p" "policy (mark_streamed t p) = policy p"
  by (simp_all add: mark_streamed_def pool_config_def)

lemma mark_streamed_inv: "pool_inv p \<Longrightarrow> pool_inv (mark_streamed t p)"
  by (auto simp: pool_inv_def cache_ok_def mark_streamed_def)

lemma insert_cache_policy [simp]:
  "policy (insert_cache h tx now p) = policy p" "fallback (insert_cache h tx now p) = fallback p"
  "pending (insert_cache h tx now p) = pending p"
  by (simp_all add: insert_cache_def split: prod.splits)

lemma opportunity_pending [simp]: "opportunity (p\<lparr>pending := x\<rparr>) t = opportunity p t"
  by (simp add: opportunity_def)

lemma mark_streamed_pending [simp]:
  "mark_streamed t (p\<lparr>pending := x\<rparr>) = (mark_streamed t p)\<lparr>pending := x\<rparr>"
  by (simp add: mark_streamed_def)

lemma is_gateway_iff:
  "(case tx_to A tx of Some to \<Rightarrow> is_allowlisted_gateway pol to | None \<Rightarrow> False)
     \<longleftrightarrow> to_gateway A pol tx"
  by (simp add: to_gateway_def is_allowlisted_gateway_def split: option.splits)

lemmas observe_unfold = observe_at_def Let_def is_gateway_iff

lemma observe_invalid:
  assumes "to_gateway A (policy p) tx" "decode_gateway_call A tx = None"
  shows "observe_at A h tx now p =
    (default_result\<lparr>skipped_invalid_gateway := True\<rparr>, insert_cache h tx now p)"
  using assms by (simp add: observe_unfold)

lemma observe_tob:
  assumes "to_gateway A (policy p) tx" "decode_gateway_call A tx = Some call" "is_tob call"
  shows "observe_at A h tx now p =
    (default_result\<lparr>reinjections :=
        [\<lparr>rj_hash = h, rj_tx = tx,
          rj_priority = (if compute_priority A tx (policy p) = 0 then fallback p
                         else encode_tob_priority (compute_priority A tx (policy p)))\<rparr>]\<rparr>,
     insert_cache h tx now p)"
  using assms by (simp add: observe_unfold default_result_def)

lemma observe_paired:
  assumes "to_gateway A (policy p) tx" "decode_gateway_call A tx = Some call" "\<not> is_tob call"
    and "p1 = insert_cache h tx now p" "target_tx_hash call |\<in>| fmdom (cache p1)"
  shows "observe_at A h tx now p =
    (default_result\<lparr>reinjections := opportunity p1 (target_tx_hash call) @
        [\<lparr>rj_hash = h, rj_tx = tx,
          rj_priority = encode_backrun_bid_priority (target_tx_hash call)
                          (compute_priority A tx (policy p))\<rparr>],
        pairs_matched := 1\<rparr>,
     mark_streamed (target_tx_hash call) p1)"
  using assms by (simp add: observe_unfold emit_eq default_result_def)

definition new_bid :: "'tx alloy \<Rightarrow> policy_config \<Rightarrow> txhash \<Rightarrow> 'tx \<Rightarrow> instant \<Rightarrow> gateway_call \<Rightarrow> 'tx pending_bid" where
  "new_bid A pol h tx now call =
     \<lparr>pb_hash = h, pb_tx = tx, pb_scalar = compute_priority A tx pol,
      pb_target = target_tx_hash call, pb_seen_at = now\<rparr>"

lemma observe_parked:
  assumes "to_gateway A (policy p) tx" "decode_gateway_call A tx = Some call" "\<not> is_tob call"
    and "p1 = insert_cache h tx now p" "target_tx_hash call |\<notin>| fmdom (cache p1)"
    and "push_pending (new_bid A (policy p) h tx now call) p1 = (ev, p2)"
  shows "observe_at A h tx now p =
    (default_result\<lparr>bids_evicted := ev, bids_pended := 1\<rparr>, p2)"
  using assms by (simp add: observe_unfold new_bid_def default_result_def)

lemma observe_target:
  assumes "\<not> to_gateway A (policy p) tx" "fmlookup (pending p) h = Some bids"
    and "p1 = insert_cache h tx now p"
  shows "observe_at A h tx now p =
    (default_result\<lparr>reinjections := opportunity p1 h @ map (bid_reinjection h) bids,
        pairs_matched := of_nat (length bids)\<rparr>,
     (mark_streamed h p1)\<lparr>pending := fmdrop h (pending p),
        pending_count := pending_count p1 - of_nat (length bids)\<rparr>)"
  using assms
  by (simp add: observe_unfold emit_eq flush_eq default_result_def)

lemma observe_vanilla:
  assumes "\<not> to_gateway A (policy p) tx" "fmlookup (pending p) h = None"
  shows "observe_at A h tx now p =
    (default_result\<lparr>skipped_non_gateway := True\<rparr>, insert_cache h tx now p)"
  using assms by (simp add: observe_unfold)

lemmas observe_branches =
  observe_invalid observe_tob observe_paired observe_parked observe_target observe_vanilla

text \<open>The six branches cover every call.\<close>

lemma observe_cases [consumes 0, case_names invalid tob paired parked target vanilla]:
  fixes A :: "'tx alloy"
  obtains
    "to_gateway A (policy p) tx" "decode_gateway_call A tx = None"
  | call where "to_gateway A (policy p) tx" "decode_gateway_call A tx = Some call" "is_tob call"
  | call where "to_gateway A (policy p) tx" "decode_gateway_call A tx = Some call" "\<not> is_tob call"
      "target_tx_hash call |\<in>| fmdom (cache (insert_cache h tx now p))"
  | call ev p2 where "to_gateway A (policy p) tx" "decode_gateway_call A tx = Some call" "\<not> is_tob call"
      "target_tx_hash call |\<notin>| fmdom (cache (insert_cache h tx now p))"
      "push_pending (new_bid A (policy p) h tx now call) (insert_cache h tx now p) = (ev, p2)"
  | bids where "\<not> to_gateway A (policy p) tx" "fmlookup (pending p) h = Some bids"
  | "\<not> to_gateway A (policy p) tx" "fmlookup (pending p) h = None"
  by (metis option.exhaust surj_pair)

end
