(* ===== verification/Pool_Operations.thy ===== *)
theory Pool_Operations
  imports Pool_Invariant
begin

section \<open>Every operation of the pool keeps its invariant\<close>

text \<open>
  Preservation of the representation invariant by \<open>observe_at\<close>, \<open>prune\<close> and \<open>forget\<close>, what
  each does to the sets of cached hashes and parked bids, the contract of \<open>expiring_store\<close> for
  the candidate cache, and the histories of a pool: the states that sequences of calls reach.
\<close>

subsection \<open>Observing\<close>

lemma bids_ok_drop_vec:
  assumes "bids_ok pend ord cnt"
  shows "bids_ok (fmdrop h pend) ord (cnt - of_nat (length (vec_of pend h)))"
proof -
  have tot: "hm_total (fmdrop h pend) + length (vec_of pend h) = hm_total pend"
    using hm_total_update [of "fmdrop h pend" h "[]" pend] by simp
  then have "unat (cnt - of_nat (length (vec_of pend h))) = hm_total (fmdrop h pend)"
    using bids_okD(1) [OF assms] by (subst unat_sub_of_nat) auto
  then show ?thesis
    using assms by (auto simp: bids_ok_def parked_with_def)
qed

lemma hm_total_fmdrop_le: "hm_total (fmdrop h pend) \<le> hm_total pend"
  using hm_total_update [of "fmdrop h pend" h "[]" pend] by simp

lemma observe_inv:
  assumes inv: "pool_inv p" and obs: "observe_at A h tx now p = (res, p')"
  shows "pool_inv p'" "pool_config p' = pool_config p"
proof -
  let ?p1 = "insert_cache h tx now p"
  note i = insert_cache_inv [OF inv, where h = h and tx = tx and now = now]
  have "pool_inv p' \<and> pool_config p' = pool_config p"
  proof (cases rule: observe_cases [where A = A and p = p and tx = tx and h = h and now = now])
    case invalid
    then show ?thesis using obs i by (simp add: observe_invalid)
  next
    case (tob call)
    then show ?thesis using obs i by (simp add: observe_tob)
  next
    case (paired call)
    then show ?thesis using obs i mark_streamed_inv [OF i(1)]
      by (auto simp: observe_paired [OF _ _ _ refl])
  next
    case (parked call ev p2)
    then show ?thesis
      using obs i(2) push_pending_inv(1,2) [OF i(1) parked(5)]
      by (simp add: observe_parked [OF _ _ _ refl])
  next
    case (target bids)
    have p': "p' = (mark_streamed h ?p1)\<lparr>pending := fmdrop h (pending p),
        pending_count := pending_count ?p1 - of_nat (length bids)\<rparr>"
      using obs by (simp add: observe_target [OF target refl])
    have len: "length bids = length (vec_of (pending p) h)"
      using target by (simp add: vec_of_lookup)
    have ms: "pool_inv (mark_streamed h ?p1)"
      by (rule mark_streamed_inv [OF i(1)])
    have "bids_ok (fmdrop h (pending p)) (pending_order ?p1) (pending_count ?p1 - of_nat (length bids))"
      using ms unfolding len pool_inv_def
      by (metis bids_ok_drop_vec i(3) mark_streamed_simps(3,4,5))
    then show ?thesis
      using ms i(2,3) hm_total_fmdrop_le [of h "pending p"]
      by (auto simp: p' pool_inv_def pool_config_def mark_streamed_def no_empty_vec_update)
  next
    case vanilla
    then show ?thesis using obs i by (simp add: observe_vanilla)
  qed
  then show "pool_inv p'" "pool_config p' = pool_config p" by auto
qed

lemma observe_cache:
  assumes inv: "pool_inv p" and obs: "observe_at A h tx now p = (res, p')"
  shows "cache p' = cache (insert_cache h tx now p)"
proof (cases rule: observe_cases [where A = A and p = p and tx = tx and h = h and now = now])
  case (parked call ev p2)
  then show ?thesis
    using obs push_pending_inv(3) [OF insert_cache_inv(1) [OF inv] parked(5)]
    by (simp add: observe_parked [OF _ _ _ refl])
qed (use obs in \<open>auto simp: observe_invalid observe_tob observe_paired [OF _ _ _ refl]
      observe_target [OF _ _ refl] observe_vanilla\<close>)

subsection \<open>Pruning\<close>

lemma prune_elim:
  assumes "prune now p = (ex, p')"
  obtains c cord st pend pord cnt
  where "prune_cache (ttl p) now (cache p) (cache_order p) (streamed_targets p) = (c, cord, st)"
    "prune_pending (ttl p) now (pending p) (pending_order p) (pending_count p) 0 = (pend, pord, cnt, ex)"
    "p' = p\<lparr>cache := c, cache_order := cord, streamed_targets := st,
           pending := pend, pending_order := pord, pending_count := cnt\<rparr>"
  using assms by (auto simp: prune_def split: prod.splits)

lemma prune_inv:
  assumes inv: "pool_inv p" and pr: "prune now p = (ex, p')"
  shows "pool_inv p'" "pool_config p' = pool_config p"
    "fmdom (cache p') |\<subseteq>| fmdom (cache p)"
    "k |\<in>| fmdom (cache p') \<Longrightarrow> fmlookup (cache p') k = fmlookup (cache p) k"
    "cache_order p' = [] \<or> fmlookup (cache p') (hd (cache_order p')) \<noteq> None"
    "set (vec_of (pending p') t) \<subseteq> set (vec_of (pending p) t)"
    "ex = of_nat (hm_total (pending p) - hm_total (pending p'))"
    "hm_total (pending p') \<le> hm_total (pending p)"
proof -
  obtain c cord st pend pord cnt where
    pc: "prune_cache (ttl p) now (cache p) (cache_order p) (streamed_targets p) = (c, cord, st)"
    and pp: "prune_pending (ttl p) now (pending p) (pending_order p) (pending_count p) 0 = (pend, pord, cnt, ex)"
    and p': "p' = p\<lparr>cache := c, cache_order := cord, streamed_targets := st,
           pending := pend, pending_order := pord, pending_count := cnt\<rparr>"
    using pr by (rule prune_elim)
  have c: "cache_ok (cache p) (cache_order p) (streamed_targets p)"
    and b: "bids_ok (pending p) (pending_order p) (pending_count p)" "no_empty_vec (pending p)"
    using inv by (simp_all add: pool_inv_def)
  note ok = prune_cache_ok [OF c pc] and bok = prune_pending_ok [OF b pp]
  show "pool_inv p'"
    using inv ok bok hm_len_mono [of c "cache p"] by (auto simp: pool_inv_def p')
  show "fmdom (cache p') |\<subseteq>| fmdom (cache p)"
    "k |\<in>| fmdom (cache p') \<Longrightarrow> fmlookup (cache p') k = fmlookup (cache p) k"
    "cache_order p' = [] \<or> fmlookup (cache p') (hd (cache_order p')) \<noteq> None"
    using ok by (auto simp: p')
  show "set (vec_of (pending p') t) \<subseteq> set (vec_of (pending p) t)"
    "ex = of_nat (hm_total (pending p) - hm_total (pending p'))"
    "hm_total (pending p') \<le> hm_total (pending p)"
    using bok by (auto simp: p')
  show "pool_config p' = pool_config p" by (simp add: p' pool_config_def)
qed

subsection \<open>Forgetting\<close>

lemma bids_ok_cong:
  assumes "\<And>k. vec_of m k = vec_of m' k"
  shows "bids_ok m ord c \<longleftrightarrow> bids_ok m' ord c"
  using hm_total_cong [OF assms] by (simp add: bids_ok_def parked_with_def assms)

lemma forget_scan_ok:
  assumes "bids_ok pend ord cnt" "forget_scan keys h pend cnt = (pend', cnt')"
  shows "bids_ok pend' ord cnt' \<and> hm_total pend' \<le> hm_total pend
    \<and> (\<forall>t. set (vec_of pend' t) \<subseteq> set (vec_of pend t))"
  using assms
proof (induction keys h pend cnt rule: forget_scan.induct)
  case (2 key keys h pend cnt)
  show ?case
  proof (cases "position (same_hash h) (vec_of pend key)")
    case None
    then show ?thesis
      using 2 by (auto simp: vec_of_def position_same_hash split: option.splits)
  next
    case (Some i)
    then obtain v where v: "fmlookup pend key = Some v" "vec_of pend key = v"
      by (cases "fmlookup pend key") (auto simp: vec_of_def)
    have r: "pend' = fmupd key (vec_remove i v) pend" "cnt' = cnt - 1"
      using 2(4) v Some by (auto simp: position_same_hash)
    have vec: "vec_of pend' j = (if j = key then vec_remove i (vec_of pend key) else vec_of pend j)" for j
      using v by (simp add: r)
    show ?thesis
      using bids_ok_take(1) [OF 2(3) Some vec] parked_with_set_vec(3) [OF Some vec]
        set_remove_first [of "same_hash h" v] vec_remove_position [OF Some] v
      by (simp add: r)
  qed
qed auto

lemma forget_elim:
  obtains pend cnt
  where "forget_scan (it (fmdrop h (pending p))) h (fmdrop h (pending p))
      (pending_count p - of_nat (length (vec_of (pending p) h))) = (pend, cnt)"
    "forget it h p = p\<lparr>cache := fmdrop h (cache p), streamed_targets := streamed_targets p |-| {|h|},
        pending := fmfilter (\<lambda>k. fmlookup pend k \<noteq> Some []) pend, pending_count := cnt\<rparr>"
proof -
  have drop: "fmlookup (pending p) h = None \<Longrightarrow> fmdrop h (pending p) = pending p"
    by (meson fmdom_notI fmdrop_idle)
  obtain pend cnt where scan: "forget_scan (it (fmdrop h (pending p))) h (fmdrop h (pending p))
      (pending_count p - of_nat (length (vec_of (pending p) h))) = (pend, cnt)"
    by fastforce
  moreover have "forget it h p = p\<lparr>cache := fmdrop h (cache p), streamed_targets := streamed_targets p |-| {|h|},
        pending := fmfilter (\<lambda>k. fmlookup pend k \<noteq> Some []) pend, pending_count := cnt\<rparr>"
    using scan drop by (cases "fmlookup (pending p) h") (simp_all add: forget_def vec_of_def)
  ultimately show thesis by (rule that)
qed

lemma forget_inv:
  assumes inv: "pool_inv p"
  shows "pool_inv (forget it h p)" "pool_config (forget it h p) = pool_config p"
    "cache (forget it h p) = fmdrop h (cache p)"
    "set (vec_of (pending (forget it h p)) t) \<subseteq> set (vec_of (pending p) t)"
    "vec_of (pending (forget it h p)) h = []"
    "cache_order (forget it h p) = cache_order p"
    "pending_order (forget it h p) = pending_order p"
    "hm_total (pending (forget it h p)) \<le> hm_total (pending p)"
proof -
  let ?n = "of_nat (length (vec_of (pending p) h))"
  obtain pend cnt where
    scan: "forget_scan (it (fmdrop h (pending p))) h (fmdrop h (pending p)) (pending_count p - ?n) = (pend, cnt)"
    and f: "forget it h p = p\<lparr>cache := fmdrop h (cache p), streamed_targets := streamed_targets p |-| {|h|},
        pending := fmfilter (\<lambda>k. fmlookup pend k \<noteq> Some []) pend, pending_count := cnt\<rparr>"
    by (rule forget_elim)
  let ?pend = "fmfilter (\<lambda>k. fmlookup pend k \<noteq> Some []) pend"
  have ok: "bids_ok (fmdrop h (pending p)) (pending_order p) (pending_count p - ?n)"
    using inv by (intro bids_ok_drop_vec) (simp add: pool_inv_def)
  note s = forget_scan_ok [OF ok scan]
  have "bids_ok ?pend (pending_order p) cnt"
    using s bids_ok_cong [OF vec_of_retain] by blast
  moreover have total: "hm_total ?pend \<le> hm_total (pending p)"
    using s hm_total_cong [OF vec_of_retain, of pend] hm_total_fmdrop_le [of h "pending p"] by simp
  moreover have "no_empty_vec ?pend"
    by (simp add: no_empty_vec_def)
  moreover have "hm_len (fmdrop h (cache p)) \<le> hm_len (cache p)"
    by (simp add: hm_len_fmdrop)
  ultimately show "pool_inv (forget it h p)"
    using inv by (auto simp: pool_inv_def f cache_ok_def)
  show "hm_total (pending (forget it h p)) \<le> hm_total (pending p)" using total by (simp add: f)
  have "set (vec_of pend t) \<subseteq> set (vec_of (fmdrop h (pending p)) t)"
    using s by blast
  then show "set (vec_of (pending (forget it h p)) t) \<subseteq> set (vec_of (pending p) t)"
    by (simp add: f vec_of_retain split: if_splits)
  have "set (vec_of pend h) \<subseteq> {}"
    using s by (metis list.set(1) vec_of_fmdrop)
  then show "vec_of (pending (forget it h p)) h = []"
    by (simp add: f vec_of_retain)
  show "pool_config (forget it h p) = pool_config p" "cache (forget it h p) = fmdrop h (cache p)"
    "cache_order (forget it h p) = cache_order p" "pending_order (forget it h p) = pending_order p"
    by (simp_all add: f pool_config_def)
qed

subsection \<open>The candidate cache as an expiring store\<close>

definition cache_keys :: "'tx pending_pool \<Rightarrow> txhash set" where
  "cache_keys p = fset (fmdom (cache p))"

definition observe_pool :: "'tx alloy \<Rightarrow> txhash \<Rightarrow> 'tx \<times> instant \<Rightarrow> 'tx pending_pool \<Rightarrow> 'tx pending_pool" where
  "observe_pool A h x p = snd (observe_at A h (fst x) (snd x) p)"

definition prune_pool :: "instant \<Rightarrow> 'tx pending_pool \<Rightarrow> 'tx pending_pool" where
  "prune_pool now p = snd (prune now p)"

lemma pool_config_cap: "pool_config p' = pool_config p \<Longrightarrow> max_cache_entries p' = max_cache_entries p"
  by (simp add: pool_config_def)

text \<open>Capacities do not depend on the invariant.\<close>

lemma observe_cap: "max_cache_entries (snd (observe_at A h tx now p)) = max_cache_entries p"
proof -
  have push: "max_cache_entries (snd (push_pending b q)) = max_cache_entries q" for b and q :: "'a pending_pool"
    by (simp add: push_pending_def Let_def split: prod.splits)
  have ins: "max_cache_entries (insert_cache h tx now p) = max_cache_entries p"
    by (simp add: insert_cache_def split: prod.splits)
  show ?thesis
  proof (cases rule: observe_cases [where A = A and p = p and tx = tx and h = h and now = now])
    case (parked call ev p2)
    then show ?thesis
      using push [of "new_bid A (policy p) h tx now call" "insert_cache h tx now p"]
      by (simp add: observe_parked [OF _ _ _ refl] ins)
  qed (simp_all add: observe_invalid observe_tob observe_paired [OF _ _ _ refl]
      observe_target [OF _ _ refl] observe_vanilla ins mark_streamed_def)
qed

lemma prune_cap: "max_cache_entries (snd (prune now p)) = max_cache_entries p"
  by (simp add: prune_def split: prod.splits)

lemma prune_cache_dom:
  "prune_cache d now c ord st = (c', ord', st') \<Longrightarrow> fset (fmdom c') \<subseteq> fset (fmdom c)"
  by (induction d now c ord st rule: prune_cache.induct) (auto split: option.splits if_splits)

lemma prune_keys: "cache_keys (snd (prune now p)) \<subseteq> cache_keys p"
  using prune_cache_dom by (fastforce simp: prune_def cache_keys_def split: prod.splits)

lemma forget_keys: "cache_keys (forget it h p) = cache_keys p - {h}"
  by (rule forget_elim [of it h p]) (simp add: cache_keys_def)

lemma observe_keys:
  assumes "pool_inv p"
  shows "cache_keys (snd (observe_at A h tx now p)) \<subseteq> insert h (cache_keys p)"
  using observe_cache [OF assms, of A h tx now] insert_cache_inv(6) [OF assms, of h tx now]
  by (cases "observe_at A h tx now p") (auto simp: cache_keys_def)

interpretation pool: expiring_store pool_inv cache_keys "\<lambda>p. unat (max_cache_entries p)"
  "observe_pool A" "forget it" prune_pool
  for A :: "'tx alloy" and it
proof unfold_locales
  fix p :: "'tx pending_pool" and h and x :: "'tx \<times> instant" and now
  show "unat (max_cache_entries (observe_pool A h x p)) = unat (max_cache_entries p)"
    by (simp add: observe_pool_def observe_cap)
  show "unat (max_cache_entries (prune_pool now p)) = unat (max_cache_entries p)"
    by (simp add: prune_pool_def prune_cap)
  show "cache_keys (prune_pool now p) \<subseteq> cache_keys p"
    by (simp add: prune_pool_def prune_keys)
  show "unat (max_cache_entries (forget it h p)) = unat (max_cache_entries p)"
    by (rule forget_elim [of it h p]) simp
  show "cache_keys (forget it h p) = cache_keys p - {h}"
    by (rule forget_keys)
  assume inv: "pool_inv p"
  show "pool_inv (observe_pool A h x p)"
    using observe_inv(1) [OF inv, of A h "fst x" "snd x"]
    by (cases "observe_at A h (fst x) (snd x) p") (simp add: observe_pool_def)
  show "cache_keys (observe_pool A h x p) \<subseteq> insert h (cache_keys p)"
    using observe_keys [OF inv] by (simp add: observe_pool_def)
  show "pool_inv (prune_pool now p)"
    using prune_inv(1) [OF inv, of now] by (cases "prune now p") (simp add: prune_pool_def)
  show "pool_inv (forget it h p)"
    by (rule forget_inv(1) [OF inv])
  show "finite (cache_keys p) \<and> card (cache_keys p) \<le> unat (max_cache_entries p)"
    using inv by (simp add: pool_inv_def cache_keys_def hm_len_def fcard.rep_eq)
qed

end
