(* ===== verification/Pool_Spec.thy ===== *)
theory Pool_Spec
  imports Pool_Operations
begin

section \<open>The parked bids against one queue\<close>

text \<open>
  The specification of the parked bids is a single list in the order in which they were parked:
  parking appends and evicts from the front, a target takes its bids out in that order, expiry
  drops the expired front, forgetting a hash deletes it as a bid and as a target. The map of
  vectors, the queue with its stale entries and the counter represent that list, and each
  operation of the pool implements the operation on the list, as long as no bid is parked again
  while its old entry is still queued.
\<close>

subsection \<open>The list and its representation\<close>

type_synonym 'tx parked = "'tx pending_bid list"

definition bid_key :: "'tx pending_bid \<Rightarrow> txhash \<times> txhash" where
  "bid_key b = (pb_target b, pb_hash b)"

definition spec_park :: "nat \<Rightarrow> 'tx pending_bid \<Rightarrow> 'tx parked \<Rightarrow> 'tx parked" where
  "spec_park n b q = drop (Suc (length q) - n) (q @ [b])"

definition spec_waiting :: "txhash \<Rightarrow> 'tx parked \<Rightarrow> 'tx parked" where
  "spec_waiting t q = filter (\<lambda>b. pb_target b = t) q"

definition spec_match :: "txhash \<Rightarrow> 'tx parked \<Rightarrow> 'tx parked" where
  "spec_match t q = filter (\<lambda>b. pb_target b \<noteq> t) q"

definition spec_expire :: "duration \<Rightarrow> instant \<Rightarrow> 'tx parked \<Rightarrow> 'tx parked" where
  "spec_expire d now q = dropWhile (\<lambda>b. d \<le> now - pb_seen_at b) q"

definition spec_forget :: "txhash \<Rightarrow> 'tx parked \<Rightarrow> 'tx parked" where
  "spec_forget h q = filter (\<lambda>b. pb_target b \<noteq> h \<and> pb_hash b \<noteq> h) q"

definition rep :: "'tx bid_map \<Rightarrow> (txhash \<times> txhash) list \<Rightarrow> usize \<Rightarrow> 'tx parked \<Rightarrow> bool" where
  "rep pend ord cnt q \<longleftrightarrow>
     (\<forall>t. vec_of pend t = spec_waiting t q)
     \<and> filter (\<lambda>k. k \<in> bid_key ` set q) ord = map bid_key q
     \<and> distinct ord \<and> unat cnt = length q"

definition represents :: "'tx pending_pool \<Rightarrow> 'tx parked \<Rightarrow> bool" where
  "represents p q \<longleftrightarrow> rep (pending p) (pending_order p) (pending_count p) q"

lemma represents_new: "represents (pool_new pol fb t mc mp) []"
  by (simp add: represents_def rep_def pool_new_def spec_waiting_def)

lemma rep_distinct:
  assumes "rep pend ord cnt q"
  shows "distinct (map bid_key q)"
proof -
  have "distinct ord" "map bid_key q = filter (\<lambda>k. k \<in> bid_key ` set q) ord"
    using assms by (simp_all add: rep_def)
  then show ?thesis by (simp only: distinct_filter)
qed

lemma rep_keys_queued:
  assumes "rep pend ord cnt q" "b \<in> set q"
  shows "bid_key b \<in> set ord"
proof -
  have "bid_key b \<in> set (map bid_key q)" using assms(2) by simp
  also have "map bid_key q = filter (\<lambda>k. k \<in> bid_key ` set q) ord"
    using assms(1) by (simp add: rep_def)
  finally show ?thesis by simp
qed

subsection \<open>Consuming the front of the queue\<close>

lemma rep_stale:
  assumes "rep pend (k # ord) cnt q" "k \<notin> bid_key ` set q"
  shows "rep pend ord cnt q"
  using assms by (simp add: rep_def)

lemma rep_front:
  assumes "rep pend (k # ord) cnt q" "k \<in> bid_key ` set q"
  obtains b q' where "q = b # q'" "bid_key b = k" "k \<notin> bid_key ` set q'"
proof (cases q)
  case (Cons b q')
  have "k # filter (\<lambda>k. k \<in> bid_key ` set q) ord = map bid_key q"
    using assms by (simp add: rep_def)
  then have "bid_key b = k" using Cons by simp
  moreover have "k \<notin> bid_key ` set q'"
    using rep_distinct [OF assms(1)] Cons \<open>bid_key b = k\<close> by auto
  ultimately show thesis using Cons that by blast
qed (use assms in auto)

lemma rep_pop:
  assumes "rep pend (k # ord) cnt (b # q)" "bid_key b = k"
    and vec: "\<And>t. vec_of pend' t = (if t = fst k then tl (vec_of pend t) else vec_of pend t)"
  shows "rep pend' ord (cnt - 1) q"
proof -
  have k: "k \<notin> bid_key ` set q" "k \<notin> set ord"
    using rep_distinct [OF assms(1)] assms by (auto simp: rep_def)
  have "filter (\<lambda>j. j \<in> bid_key ` set (b # q)) ord = filter (\<lambda>j. j \<in> bid_key ` set q) ord"
    using k assms(2) by (intro filter_cong) auto
  moreover have "filter (\<lambda>j. j \<in> bid_key ` set (b # q)) ord = map bid_key q"
    using assms(1,2) by (simp add: rep_def)
  moreover have "vec_of pend' t = spec_waiting t q" for t
    using assms(1,2) by (auto simp: rep_def vec spec_waiting_def bid_key_def)
  ultimately show ?thesis
    using assms(1) by (auto simp: rep_def unat_dec_word)
qed

text \<open>The bid at the front is the first of its vector, at position zero.\<close>

lemma rep_front_lookup:
  assumes "rep pend ord cnt (b # q)" "bid_key b = (t, h)"
  shows "fmlookup pend t = Some (b # spec_waiting t q)"
    "position (\<lambda>c. pb_hash c = h) (b # spec_waiting t q) = Some 0"
proof -
  have "vec_of pend t = b # spec_waiting t q"
    using assms by (auto simp: rep_def spec_waiting_def bid_key_def)
  then show "fmlookup pend t = Some (b # spec_waiting t q)"
    by (auto simp: vec_of_def split: option.splits)
  show "position (\<lambda>c. pb_hash c = h) (b # spec_waiting t q) = Some 0"
    using assms(2) by (simp add: bid_key_def)
qed

lemma rep_stale_lookup:
  assumes "rep pend ord cnt q" "(t, h) \<notin> bid_key ` set q" "fmlookup pend t = Some v"
  shows "position (\<lambda>c. pb_hash c = h) v = None"
proof -
  have "v = spec_waiting t q"
    using assms(1,3) by (metis rep_def vec_of_lookup)
  then show ?thesis
    using assms(2) by (auto simp: position_None_iff spec_waiting_def bid_key_def)
qed

lemma evict_pending_refines:
  assumes "rep pend ord cnt q" "evict_pending mx pend ord cnt ev = (pend', ord', cnt', ev')"
  shows "rep pend' ord' cnt' (drop (length q - unat mx) q)
    \<and> ev' = ev + of_nat (length q - unat mx)"
  using assms
proof (induction mx pend ord cnt ev arbitrary: q rule: evict_pending.induct)
  case (1 mx pend cnt ev)
  then have "q = []" by (simp add: rep_def)
  with 1 show ?case by simp
next
  case (2 mx pend t h ord cnt ev)
  have cnt: "unat cnt = length q" using "2.prems"(1) by (simp add: rep_def)
  show ?case
  proof (cases "mx < cnt")
    case False
    with 2 cnt show ?thesis by (auto simp: word_less_nat_alt)
  next
    case over: True
    show ?thesis
    proof (cases "(t, h) \<in> bid_key ` set q")
      case False
      note st = rep_stale [OF "2.prems"(1) False]
        and look = rep_stale_lookup [OF "2.prems"(1) False]
      show ?thesis
        using "2.IH"(1,2) st look "2.prems"(2) over by (cases "fmlookup pend t") auto
    next
      case True
      obtain b q' where q: "q = b # q'" "bid_key b = (t, h)" "(t, h) \<notin> bid_key ` set q'"
        using rep_front [OF "2.prems"(1) True] by blast
      note f = rep_front_lookup [OF "2.prems"(1) [unfolded q(1)] q(2)]
      let ?pend = "set_vec t (spec_waiting t q') pend"
      have vec: "vec_of ?pend u = (if u = fst (t, h) then tl (vec_of pend u) else vec_of pend u)" for u
        using vec_of_lookup [OF f(1)] by simp
      have r: "rep ?pend ord (cnt - 1) q'"
        by (rule rep_pop [OF "2.prems"(1) [unfolded q(1)] q(2) vec])
      have run: "evict_pending mx ?pend ord (cnt - 1) (ev + 1) = (pend', ord', cnt', ev')"
        using "2.prems"(2) over f by (simp add: Let_def set_vec_def)
      have ih: "rep pend' ord' cnt' (drop (length q' - unat mx) q')
          \<and> ev' = ev + 1 + of_nat (length q' - unat mx)"
        using "2.IH"(3) [OF over f refl, of q'] r run by (simp add: set_vec_def cong: if_cong)
      have "length q - unat mx = Suc (length q' - unat mx)"
        using over cnt q(1) by (simp add: word_less_nat_alt Suc_diff_le)
      with ih q(1) show ?thesis by (simp add: algebra_simps)
    qed
  qed
qed

lemma prune_pending_refines:
  assumes "rep pend ord cnt q" "prune_pending d now pend ord cnt ex = (pend', ord', cnt', ex')"
  shows "rep pend' ord' cnt' (spec_expire d now q)
    \<and> ex' = ex + of_nat (length q - length (spec_expire d now q))"
  using assms
proof (induction d now pend ord cnt ex arbitrary: q rule: prune_pending.induct)
  case (1 d now pend cnt ex)
  then have "q = []" by (simp add: rep_def)
  with 1 show ?case by (simp add: spec_expire_def)
next
  case (2 d now pend t h ord cnt ex)
  show ?case
  proof (cases "(t, h) \<in> bid_key ` set q")
    case False
    note st = rep_stale [OF "2.prems"(1) False]
      and look = rep_stale_lookup [OF "2.prems"(1) False]
    show ?thesis
      using "2.IH"(1,2) st look "2.prems"(2) by (cases "fmlookup pend t") auto
  next
    case True
    obtain b q' where q: "q = b # q'" "bid_key b = (t, h)" "(t, h) \<notin> bid_key ` set q'"
      using rep_front [OF "2.prems"(1) True] by blast
    note f = rep_front_lookup [OF "2.prems"(1) [unfolded q(1)] q(2)]
    show ?thesis
    proof (cases "d \<le> now - pb_seen_at b")
      case False
      with "2.prems" f q(1) show ?thesis by (auto simp: spec_expire_def)
    next
      case old: True
      let ?pend = "set_vec t (spec_waiting t q') pend"
      have vec: "vec_of ?pend u = (if u = fst (t, h) then tl (vec_of pend u) else vec_of pend u)" for u
        using vec_of_lookup [OF f(1)] by simp
      have r: "rep ?pend ord (cnt - 1) q'"
        by (rule rep_pop [OF "2.prems"(1) [unfolded q(1)] q(2) vec])
      have run: "prune_pending d now ?pend ord (cnt - 1) (ex + 1) = (pend', ord', cnt', ex')"
        using "2.prems"(2) old f by (simp add: Let_def set_vec_def)
      have ih: "rep pend' ord' cnt' (spec_expire d now q')
          \<and> ex' = ex + 1 + of_nat (length q' - length (spec_expire d now q'))"
        using "2.IH"(3) [OF f _ refl, of q'] r run old by (simp add: set_vec_def cong: if_cong)
      have "length (spec_expire d now q') \<le> length q'"
        by (simp add: spec_expire_def length_dropWhile_le)
      with ih q(1) old show ?thesis by (simp add: spec_expire_def Suc_diff_le algebra_simps)
    qed
  qed
qed

subsection \<open>Parking\<close>

lemma push_pending_refines:
  assumes r: "represents p q" and room: "Suc (length q) < 2 ^ 64"
    and fresh: "bid_key b \<notin> set (pending_order p)"
    and push: "push_pending b p = (ev, p')"
  shows "represents p' (spec_park (unat (max_pending_entries p)) b q)
    \<and> ev = of_nat (Suc (length q) - unat (max_pending_entries p))"
proof -
  let ?t = "pb_target b"
  let ?pend = "fmupd ?t (vec_of (pending p) ?t @ [b]) (pending p)"
  let ?ord = "pending_order p @ [bid_key b]"
  obtain pend' ord' cnt' where
    e: "evict_pending (max_pending_entries p) ?pend ?ord (pending_count p + 1) 0 = (pend', ord', cnt', ev)"
    and p': "p' = p\<lparr>pending := pend', pending_order := ord', pending_count := cnt'\<rparr>"
    using push
    by (auto simp: push_pending_def vec_of_def bid_key_def Let_def split: prod.splits option.splits)
  have rp: "rep (pending p) (pending_order p) (pending_count p) q"
    using r by (simp add: represents_def)
  have old: "bid_key b \<notin> bid_key ` set q"
    using fresh rep_keys_queued [OF rp] by auto
  have "filter (\<lambda>k. k \<in> bid_key ` set (q @ [b])) (pending_order p)
      = filter (\<lambda>k. k \<in> bid_key ` set q) (pending_order p)"
    using fresh by (intro filter_cong) auto
  moreover have "unat (pending_count p + 1) = Suc (length q)"
    using rp room by (subst unat_inc_word) (auto simp: rep_def)
  ultimately have "rep ?pend ?ord (pending_count p + 1) (q @ [b])"
    using rp fresh by (auto simp: rep_def spec_waiting_def)
  from evict_pending_refines [OF this e] show ?thesis
    by (simp add: represents_def p' spec_park_def)
qed

subsection \<open>Taking bids out anywhere in the list\<close>

lemma rep_filter_order:
  assumes "rep pend ord cnt q"
  shows "filter (\<lambda>k. k \<in> bid_key ` set (filter P q)) ord = map bid_key (filter P q)"
proof -
  have inj: "inj_on bid_key (set q)"
    using rep_distinct [OF assms] by (simp add: distinct_map)
  have "filter (\<lambda>k. k \<in> bid_key ` set (filter P q)) ord
      = filter (\<lambda>k. k \<in> bid_key ` set (filter P q)) (filter (\<lambda>k. k \<in> bid_key ` set q) ord)"
    by (simp only: filter_filter) (rule filter_cong, auto)
  also have "\<dots> = filter (\<lambda>k. k \<in> bid_key ` set (filter P q)) (map bid_key q)"
    using assms by (simp add: rep_def)
  also have "\<dots> = map bid_key (filter (\<lambda>b. bid_key b \<in> bid_key ` set (filter P q)) q)"
    by (simp add: filter_map o_def)
  also have "filter (\<lambda>b. bid_key b \<in> bid_key ` set (filter P q)) q = filter P q"
    using inj by (intro filter_cong) (auto dest: inj_onD)
  finally show ?thesis .
qed

lemma length_filter_split:
  "length (filter P q) + length (filter (\<lambda>b. \<not> P b) q) = length q"
  by (induction q) auto

lemma rep_match:
  assumes "rep pend ord cnt q"
  shows "rep (fmdrop t pend) ord (cnt - of_nat (length (spec_waiting t q))) (spec_match t q)"
proof -
  have len: "length (spec_waiting t q) + length (spec_match t q) = length q"
    unfolding spec_waiting_def spec_match_def by (rule length_filter_split)
  then have "unat (cnt - of_nat (length (spec_waiting t q))) = length (spec_match t q)"
    using assms by (subst unat_sub_of_nat) (auto simp: rep_def)
  moreover have "vec_of (fmdrop t pend) u = spec_waiting u (spec_match t q)" for u
    using assms by (auto simp: rep_def spec_waiting_def spec_match_def intro!: filter_cong)
  ultimately show ?thesis
    using assms rep_filter_order [OF assms, of "\<lambda>b. pb_target b \<noteq> t"]
    by (simp add: rep_def spec_match_def)
qed

lemma remove_first_distinct:
  "distinct (map pb_hash v) \<Longrightarrow> remove_first (same_hash h) v = filter (\<lambda>b. pb_hash b \<noteq> h) v"
proof (induction v)
  case (Cons a v)
  then have "pb_hash a = h \<Longrightarrow> filter (\<lambda>b. pb_hash b \<noteq> h) v = v"
    by (intro filter_True) (metis distinct.simps(2) image_eqI list.set_map list.simps(9))
  with Cons show ?case by (auto simp: same_hash_def)
qed simp

text \<open>Every hash is parked under one target only.\<close>

definition one_target :: "'tx parked \<Rightarrow> bool" where
  "one_target q \<longleftrightarrow> (\<forall>b \<in> set q. \<forall>c \<in> set q. pb_hash b = pb_hash c \<longrightarrow> pb_target b = pb_target c)"

lemma filter_eq_single: "distinct xs \<Longrightarrow> x \<in> set xs \<Longrightarrow> filter (\<lambda>y. y = x) xs = [x]"
  by (induction xs) (auto simp: filter_empty_conv)

lemma rep_take_hash:
  assumes r: "rep pend ord cnt q" and one: "one_target q"
    and b: "b \<in> set q" "pb_hash b = h"
    and vec: "\<And>u. vec_of pend' u = (if u = pb_target b then remove_first (same_hash h) (vec_of pend u)
                                    else vec_of pend u)"
  shows "rep pend' ord (cnt - 1) (filter (\<lambda>c. pb_hash c \<noteq> h) q)"
proof -
  have dist: "distinct (map bid_key q)" by (rule rep_distinct [OF r])
  have "distinct (map pb_hash (spec_waiting (pb_target b) q))"
    using dist by (auto simp: distinct_map spec_waiting_def bid_key_def inj_on_def)
  then have "remove_first (same_hash h) (spec_waiting (pb_target b) q)
      = filter (\<lambda>c. pb_hash c \<noteq> h) (spec_waiting (pb_target b) q)"
    by (rule remove_first_distinct)
  then have same: "vec_of pend' (pb_target b) = spec_waiting (pb_target b) (filter (\<lambda>c. pb_hash c \<noteq> h) q)"
    using r by (simp add: rep_def vec spec_waiting_def conj_commute)
  have other: "vec_of pend' u = spec_waiting u (filter (\<lambda>c. pb_hash c \<noteq> h) q)" if "u \<noteq> pb_target b" for u
  proof -
    have "pb_target c \<noteq> u \<or> pb_hash c \<noteq> h" if "c \<in> set q" for c
      using one b \<open>u \<noteq> pb_target b\<close> that unfolding one_target_def by metis
    then have "spec_waiting u (filter (\<lambda>c. pb_hash c \<noteq> h) q) = spec_waiting u q"
      unfolding spec_waiting_def filter_filter by (intro filter_cong) auto
    then show ?thesis using that r by (simp add: rep_def vec)
  qed
  have "filter (\<lambda>c. pb_hash c = h) q = [b]"
  proof -
    have "(pb_hash c = h) = (c = b)" if c: "c \<in> set q" for c
    proof
      assume "pb_hash c = h"
      then have "bid_key c = bid_key b"
        using one b c unfolding one_target_def bid_key_def by metis
      moreover have "inj_on bid_key (set q)"
        using dist by (simp add: distinct_map)
      ultimately show "c = b"
        using c b(1) by (simp only: inj_on_eq_iff)
    qed (use b(2) in simp)
    then have "filter (\<lambda>c. pb_hash c = h) q = filter (\<lambda>c. c = b) q"
      by (rule filter_cong [OF refl])
    also have "\<dots> = [b]"
      using dist b(1) by (intro filter_eq_single) (simp_all add: distinct_map)
    finally show ?thesis .
  qed
  then have "length q = Suc (length (filter (\<lambda>c. pb_hash c \<noteq> h) q))"
    using length_filter_split [of "\<lambda>c. pb_hash c = h" q] by simp
  then have "unat (cnt - 1) = length (filter (\<lambda>c. pb_hash c \<noteq> h) q)"
    using r by (simp add: rep_def unat_dec_word)
  then show ?thesis
    using r same other rep_filter_order [OF r, of "\<lambda>c. pb_hash c \<noteq> h"]
    unfolding rep_def by metis
qed

lemma forget_scan_refines:
  assumes "rep pend ord cnt q" "one_target q"
    and "\<forall>b \<in> set q. pb_hash b = h \<longrightarrow> pb_target b \<in> set keys"
    and "forget_scan keys h pend cnt = (pend', cnt')"
  shows "rep pend' ord cnt' (filter (\<lambda>b. pb_hash b \<noteq> h) q)"
  using assms
proof (induction keys h pend cnt rule: forget_scan.induct)
  case (1 h pend cnt)
  then have "filter (\<lambda>b. pb_hash b \<noteq> h) q = q" by (simp add: filter_id_conv)
  with 1 show ?case by simp
next
  case (2 key keys h pend cnt)
  have vec: "vec_of pend key = spec_waiting key q" using 2(3) by (simp add: rep_def)
  show ?case
  proof (cases "position (same_hash h) (vec_of pend key)")
    case None
    then have "\<forall>b \<in> set q. pb_hash b = h \<longrightarrow> pb_target b \<in> set keys"
      using 2(5) vec by (auto simp: position_None_iff spec_waiting_def same_hash_def)
    then show ?thesis
      using 2 None by (cases "fmlookup pend key") (auto simp: vec_of_def position_same_hash)
  next
    case (Some i)
    then obtain v where v: "fmlookup pend key = Some v" "vec_of pend key = v"
      by (cases "fmlookup pend key") (auto simp: vec_of_def)
    have out: "pend' = fmupd key (vec_remove i v) pend" "cnt' = cnt - 1"
      using 2(6) v Some by (auto simp: position_same_hash)
    have "v ! i \<in> set v" "pb_hash (v ! i) = h"
      using position_Some_bound [OF Some] v by (auto simp: same_hash_def)
    then have b: "v ! i \<in> set q" "pb_target (v ! i) = key" "pb_hash (v ! i) = h"
      using v vec by (auto simp: spec_waiting_def)
    show ?thesis
      unfolding out
      by (rule rep_take_hash [OF 2(3,4) b(1,3)]) (use vec_remove_position [OF Some] v b in auto)
  qed
qed

subsection \<open>The operations of the pool on the list\<close>

definition spec_observe :: "'tx alloy \<Rightarrow> policy_config \<Rightarrow> nat \<Rightarrow> txhash set \<Rightarrow> txhash \<Rightarrow> 'tx \<Rightarrow> instant \<Rightarrow>
    'tx parked \<Rightarrow> 'tx parked" where
  "spec_observe A pol n cached h tx now q =
     (if to_gateway A pol tx
      then (case decode_gateway_call A tx of
              None \<Rightarrow> q
            | Some call \<Rightarrow>
                if is_tob call \<or> target_tx_hash call \<in> cached then q
                else spec_park n (new_bid A pol h tx now call) q)
      else spec_match h q)"

lemma represents_frame:
  "pending p' = pending p \<Longrightarrow> pending_order p' = pending_order p \<Longrightarrow> pending_count p' = pending_count p \<Longrightarrow>
     represents p' q \<longleftrightarrow> represents p q"
  by (simp add: represents_def)

lemma represents_count:
  assumes "represents p q"
  shows "length q = unat (pending_count p)"
  using assms by (simp add: represents_def rep_def)

lemma represents_vec: "represents p q \<Longrightarrow> vec_of (pending p) t = spec_waiting t q"
  by (simp add: represents_def rep_def)

lemma represents_bounded: "pool_inv p \<Longrightarrow> represents p q \<Longrightarrow> Suc (length q) < 2 ^ 64"
  using bids_okD(1) [of "pending p" "pending_order p" "pending_count p"]
  by (simp add: represents_count pool_inv_def)

lemma spec_match_absent: "spec_waiting h q = [] \<Longrightarrow> spec_match h q = q"
  by (simp add: spec_waiting_def spec_match_def filter_empty_conv filter_id_conv)

lemma observe_refines:
  assumes inv: "pool_inv p" and r: "represents p q"
    and fresh: "\<And>t. (t, h) \<notin> set (pending_order p)"
    and obs: "observe_at A h tx now p = (res, p')"
  shows "represents p' (spec_observe A (policy p) (unat (max_pending_entries p)) (cache_keys p') h tx now q)"
proof -
  let ?p1 = "insert_cache h tx now p"
  note ins = insert_cache_inv [OF inv, where h = h and tx = tx and now = now]
  have r1: "represents ?p1 q"
    using r ins by (subst represents_frame [where p = p]) auto
  have c: "fset (fmdom (cache ?p1)) = cache_keys p'"
    using observe_cache [OF inv obs] by (simp add: cache_keys_def)
  show ?thesis
  proof (cases rule: observe_cases [where A = A and p = p and tx = tx and h = h and now = now])
    case invalid
    then show ?thesis using obs r1 by (simp add: observe_invalid spec_observe_def)
  next
    case (tob call)
    then show ?thesis using obs r1 by (simp add: observe_tob spec_observe_def)
  next
    case (paired call)
    then have "p' = mark_streamed (target_tx_hash call) ?p1"
      using obs by (simp add: observe_paired [OF _ _ _ refl])
    then have "represents p' q"
      using r1 by (subst represents_frame [where p = ?p1]) simp_all
    moreover have "target_tx_hash call \<in> cache_keys p'"
      using paired(4) c by auto
    ultimately show ?thesis using paired by (simp add: spec_observe_def)
  next
    case (parked call ev p2)
    have "p' = p2" using obs parked by (simp add: observe_parked [OF _ _ _ refl])
    moreover have "target_tx_hash call \<notin> cache_keys p'"
      using parked(4) c by auto
    moreover have "bid_key (new_bid A (policy p) h tx now call) \<notin> set (pending_order ?p1)"
      using fresh ins(4) by (simp add: bid_key_def new_bid_def)
    note push = push_pending_refines [OF r1 represents_bounded [OF ins(1) r1] this parked(5)]
    moreover have "max_pending_entries ?p1 = max_pending_entries p"
      using ins(2) by (simp add: pool_config_def)
    ultimately show ?thesis using parked by (simp add: spec_observe_def)
  next
    case (target bids)
    have "bids = spec_waiting h q"
      using represents_vec [OF r, of h] target by (simp add: vec_of_lookup)
    moreover have "rep (pending p) (pending_order ?p1) (pending_count ?p1) q"
      using r1 by (simp add: represents_def)
    ultimately have "represents p' (spec_match h q)"
      using obs rep_match [of "pending p" "pending_order ?p1" "pending_count ?p1" q h]
      by (auto simp: observe_target [OF target refl] represents_def)
    then show ?thesis using target by (simp add: spec_observe_def)
  next
    case vanilla
    then have "spec_waiting h q = []"
      using represents_vec [OF r, of h] by (simp add: vec_of_def)
    then show ?thesis
      using vanilla obs r1 by (simp add: observe_vanilla spec_observe_def spec_match_absent)
  qed
qed

lemma prune_refines:
  assumes r: "represents p q" and pr: "prune now p = (ex, p')"
  shows "represents p' (spec_expire (ttl p) now q)"
    "ex = of_nat (length q - length (spec_expire (ttl p) now q))"
proof -
  obtain c cord st pend pord cnt where
    pp: "prune_pending (ttl p) now (pending p) (pending_order p) (pending_count p) 0 = (pend, pord, cnt, ex)"
    and p': "p' = p\<lparr>cache := c, cache_order := cord, streamed_targets := st,
           pending := pend, pending_order := pord, pending_count := cnt\<rparr>"
    using pr by (rule prune_elim)
  have "rep (pending p) (pending_order p) (pending_count p) q"
    using r by (simp add: represents_def)
  from prune_pending_refines [OF this pp]
  show "represents p' (spec_expire (ttl p) now q)"
    "ex = of_nat (length q - length (spec_expire (ttl p) now q))"
    by (simp_all add: p' represents_def)
qed

lemma vec_of_dom: "b \<in> set (vec_of m k) \<Longrightarrow> k |\<in>| fmdom m"
  by (cases "fmlookup m k") (simp_all add: vec_of_def fmlookup_dom_iff)

lemma forget_refines:
  assumes r: "represents p q" and one: "one_target q" and it: "is_iteration it"
  shows "represents (forget it h p) (spec_forget h q)"
proof -
  let ?n = "of_nat (length (vec_of (pending p) h))"
  let ?q = "spec_match h q"
  obtain pend cnt where
    scan: "forget_scan (it (fmdrop h (pending p))) h (fmdrop h (pending p)) (pending_count p - ?n) = (pend, cnt)"
    and f: "forget it h p = p\<lparr>cache := fmdrop h (cache p), streamed_targets := streamed_targets p |-| {|h|},
        pending := fmfilter (\<lambda>k. fmlookup pend k \<noteq> Some []) pend, pending_count := cnt\<rparr>"
    by (rule forget_elim)
  have r1: "rep (fmdrop h (pending p)) (pending_order p) (pending_count p - ?n) ?q"
    using r rep_match [of "pending p" "pending_order p" "pending_count p" q h] represents_vec [OF r, of h]
    by (simp add: represents_def)
  have "one_target ?q"
    using one unfolding one_target_def spec_match_def set_filter by blast
  moreover have "pb_target b \<in> set (it (fmdrop h (pending p)))" if "b \<in> set ?q" for b
  proof -
    have "b \<in> set (vec_of (fmdrop h (pending p)) (pb_target b))"
      using that r1 by (simp add: rep_def spec_waiting_def)
    then have "pb_target b |\<in>| fmdom (fmdrop h (pending p))"
      by (rule vec_of_dom)
    then show ?thesis using it by (simp add: is_iteration_def)
  qed
  ultimately have "rep pend (pending_order p) cnt (filter (\<lambda>b. pb_hash b \<noteq> h) ?q)"
    using forget_scan_refines [OF r1 _ _ scan] by blast
  then have "rep pend (pending_order p) cnt (spec_forget h q)"
    by (simp add: spec_forget_def spec_match_def conj_commute)
  then show ?thesis
    by (simp add: f represents_def rep_def vec_of_retain)
qed

end
