(* ===== verification/Pool_History.thy ===== *)
theory Pool_History
  imports Pool_Spec
begin

section \<open>Histories of the pairing pool\<close>

text \<open>
  Sequences of calls on a pool, in any order: the invariant holds after each of them, the parked
  bids follow the list of \<open>Pool_Spec\<close> along every history in which each hash is observed once,
  and what the pool hands out is justified by what it was given.
\<close>

subsection \<open>Sequences of calls\<close>

datatype 'tx pool_call = Observe txhash 'tx instant | Prune instant | Forget txhash

fun pool_apply :: "'tx alloy \<Rightarrow> ('tx bid_map \<Rightarrow> txhash list) \<Rightarrow> 'tx pool_call \<Rightarrow> 'tx pending_pool \<Rightarrow> 'tx pending_pool" where
  "pool_apply A it (Observe h tx now) p = snd (observe_at A h tx now p)"
| "pool_apply A it (Prune now) p = snd (prune now p)"
| "pool_apply A it (Forget h) p = forget it h p"

definition pool_run :: "'tx alloy \<Rightarrow> ('tx bid_map \<Rightarrow> txhash list) \<Rightarrow> 'tx pool_call list \<Rightarrow> 'tx pending_pool \<Rightarrow> 'tx pending_pool" where
  "pool_run A it calls p = fold (pool_apply A it) calls p"

lemma pool_run_simps [simp]:
  "pool_run A it [] p = p"
  "pool_run A it (c # calls) p = pool_run A it calls (pool_apply A it c p)"
  "pool_run A it (cs @ ds) p = pool_run A it ds (pool_run A it cs p)"
  by (simp_all add: pool_run_def)

lemma pool_apply_inv:
  assumes "pool_inv p"
  shows "pool_inv (pool_apply A it c p) \<and> pool_config (pool_apply A it c p) = pool_config p"
proof (cases c)
  case (Observe h tx now)
  then show ?thesis
    using observe_inv [OF assms, of A h tx now] by (cases "observe_at A h tx now p") simp
next
  case (Prune now)
  then show ?thesis using prune_inv(1,2) [OF assms, of now] by (cases "prune now p") simp
next
  case (Forget h)
  then show ?thesis using forget_inv(1,2) [OF assms, of it h] by simp
qed

lemma pool_run_inv: "pool_inv p \<Longrightarrow> pool_inv (pool_run A it calls p) \<and> pool_config (pool_run A it calls p) = pool_config p"
proof (induction calls arbitrary: p)
  case (Cons c calls)
  then show ?case using pool_apply_inv [OF Cons.prems, of A it c] by simp
qed simp

text \<open>The parked list along a history: the candidate cache is the pool's own.\<close>

fun spec_call :: "'tx alloy \<Rightarrow> 'tx pool_call \<Rightarrow> 'tx pending_pool \<Rightarrow> txhash set \<Rightarrow> 'tx parked \<Rightarrow> 'tx parked" where
  "spec_call A (Observe h tx now) p cached q =
     spec_observe A (policy p) (unat (max_pending_entries p)) cached h tx now q"
| "spec_call A (Prune now) p cached q = spec_expire (ttl p) now q"
| "spec_call A (Forget h) p cached q = spec_forget h q"

fun spec_run :: "'tx alloy \<Rightarrow> ('tx bid_map \<Rightarrow> txhash list) \<Rightarrow> 'tx pool_call list \<Rightarrow> 'tx pending_pool \<Rightarrow> 'tx parked \<Rightarrow> 'tx parked" where
  "spec_run A it [] p q = q"
| "spec_run A it (c # calls) p q =
     (let p' = pool_apply A it c p in spec_run A it calls p' (spec_call A c p (cache_keys p') q))"

text \<open>Every observed hash is new.\<close>

fun observes_once :: "txhash set \<Rightarrow> 'tx pool_call list \<Rightarrow> bool" where
  "observes_once D [] \<longleftrightarrow> True"
| "observes_once D (Observe h tx now # calls) \<longleftrightarrow> h \<notin> D \<and> observes_once (insert h D) calls"
| "observes_once D (_ # calls) \<longleftrightarrow> observes_once D calls"

subsection \<open>The parked list along a history\<close>

lemma evict_pending_suffix:
  "evict_pending mx pend ord cnt ev = (pend', ord', cnt', ev') \<Longrightarrow> set ord' \<subseteq> set ord"
  by (induction mx pend ord cnt ev rule: evict_pending.induct)
     (fastforce simp: Let_def split: option.splits if_splits)+

lemma prune_pending_suffix:
  "prune_pending d now pend ord cnt ex = (pend', ord', cnt', ex') \<Longrightarrow> set ord' \<subseteq> set ord"
  by (induction d now pend ord cnt ex rule: prune_pending.induct)
     (fastforce simp: Let_def split: option.splits if_splits)+

lemma push_pending_order:
  assumes "push_pending b p = (ev, p')"
  shows "set (pending_order p') \<subseteq> insert (bid_key b) (set (pending_order p))"
proof -
  let ?bids = "case fmlookup (pending p) (pb_target b) of None \<Rightarrow> [] | Some v \<Rightarrow> v"
  obtain pend ord' cnt' where
    e: "evict_pending (max_pending_entries p) (fmupd (pb_target b) (?bids @ [b]) (pending p))
      (pending_order p @ [bid_key b]) (pending_count p + 1) 0 = (pend, ord', cnt', ev)"
    and p': "pending_order p' = ord'"
    using assms by (auto simp: push_pending_def bid_key_def Let_def split: prod.splits)
  show ?thesis using evict_pending_suffix [OF e] by (simp add: p')
qed

lemma observe_order:
  assumes inv: "pool_inv p" and obs: "observe_at A h tx now p = (res, p')"
  shows "set (pending_order p') \<subseteq> set (pending_order p) \<union> UNIV \<times> {h}"
proof -
  have ins: "pending_order (insert_cache h tx now p) = pending_order p"
    by (rule insert_cache_inv(4) [OF inv])
  show ?thesis
  proof (cases rule: observe_cases [where A = A and p = p and tx = tx and h = h and now = now])
    case (parked call ev p2)
    then show ?thesis
      using obs push_pending_order [OF parked(5)] ins
      by (auto simp: observe_parked [OF _ _ _ refl] bid_key_def new_bid_def)
  qed (use obs ins in \<open>auto simp: observe_invalid observe_tob observe_paired [OF _ _ _ refl]
        observe_target [OF _ _ refl] observe_vanilla\<close>)
qed

lemma prune_order: "set (pending_order (snd (prune now p))) \<subseteq> set (pending_order p)"
proof -
  obtain ex p' where pr: "prune now p = (ex, p')" by fastforce
  obtain c cord st pend pord cnt where
    pp: "prune_pending (ttl p) now (pending p) (pending_order p) (pending_count p) 0 = (pend, pord, cnt, ex)"
    and p': "p' = p\<lparr>cache := c, cache_order := cord, streamed_targets := st,
           pending := pend, pending_order := pord, pending_count := cnt\<rparr>"
    using pr by (rule prune_elim)
  show ?thesis using prune_pending_suffix [OF pp] by (simp add: pr p')
qed

text \<open>What holds of a pool and its list when the hashes of \<open>D\<close> have been observed.\<close>

definition tracked :: "txhash set \<Rightarrow> 'tx pending_pool \<Rightarrow> 'tx parked \<Rightarrow> bool" where
  "tracked D p q \<longleftrightarrow> pool_inv p \<and> represents p q \<and> snd ` set (pending_order p) \<subseteq> D
     \<and> distinct (map pb_hash q)"

lemma tracked_hashes: "tracked D p q \<Longrightarrow> pb_hash ` set q \<subseteq> D"
  using rep_keys_queued [of "pending p" "pending_order p" "pending_count p" q]
  by (fastforce simp: tracked_def represents_def bid_key_def)

lemma distinct_one_target:
  assumes "distinct (map pb_hash q)"
  shows "one_target q"
proof -
  have "inj_on pb_hash (set q)" using assms by (simp add: distinct_map)
  then show ?thesis unfolding one_target_def by (metis inj_onD)
qed

lemma distinct_map_drop: "distinct (map f xs) \<Longrightarrow> distinct (map f (drop n xs))"
  by (metis distinct_drop drop_map)

lemma spec_observe_hashes:
  assumes "distinct (map pb_hash q)" "h \<notin> pb_hash ` set q"
  shows "distinct (map pb_hash (spec_observe A pol n cached h tx now q))"
proof -
  have "distinct (map pb_hash (spec_park n (new_bid A pol h tx now call) q))" for call
    unfolding spec_park_def using assms by (intro distinct_map_drop) (simp add: new_bid_def)
  then show ?thesis
    using assms by (auto simp: spec_observe_def spec_match_def distinct_map_filter split: option.splits)
qed

lemma distinct_map_dropWhile: "distinct (map f xs) \<Longrightarrow> distinct (map f (dropWhile P xs))"
  by (metis distinct_map_drop dropWhile_eq_drop)

lemma tracked_observe:
  assumes t: "tracked D p q" and h: "h \<notin> D"
  shows "tracked (insert h D) (snd (observe_at A h tx now p))
    (spec_observe A (policy p) (unat (max_pending_entries p))
       (cache_keys (snd (observe_at A h tx now p))) h tx now q)"
proof -
  obtain res p' where obs: "observe_at A h tx now p = (res, p')" by fastforce
  have inv: "pool_inv p" and r: "represents p q" and D: "snd ` set (pending_order p) \<subseteq> D"
    and d: "distinct (map pb_hash q)"
    using t by (simp_all add: tracked_def)
  have fresh: "(t, h) \<notin> set (pending_order p)" for t using D h by force
  have "h \<notin> pb_hash ` set q" using tracked_hashes [OF t] h by auto
  note spec_observe_hashes [OF d this]
  moreover have "snd ` set (pending_order p') \<subseteq> insert h D"
    using observe_order [OF inv obs] D by force
  ultimately show ?thesis
    using observe_inv(1) [OF inv obs] observe_refines [OF inv r fresh obs] by (simp add: tracked_def obs)
qed

lemma tracked_prune:
  assumes t: "tracked D p q"
  shows "tracked D (snd (prune now p)) (spec_expire (ttl p) now q)"
proof -
  obtain ex p' where pr: "prune now p = (ex, p')" by fastforce
  have "snd ` set (pending_order p') \<subseteq> D"
    using prune_order [of now p] t by (force simp: tracked_def pr)
  then show ?thesis
    using t prune_inv(1) [OF _ pr] prune_refines(1) [OF _ pr]
    by (simp add: tracked_def pr spec_expire_def distinct_map_dropWhile)
qed

lemma tracked_forget:
  assumes "tracked D p q" "is_iteration it"
  shows "tracked D (forget it h p) (spec_forget h q)"
  using assms forget_inv(1,7) [of p it h] forget_refines [of p q it h] distinct_one_target [of q]
  by (simp add: tracked_def spec_forget_def distinct_map_filter)

lemma pool_run_tracked:
  assumes "tracked D p q" "observes_once D calls" "is_iteration it"
  shows "\<exists>D'. tracked D' (pool_run A it calls p) (spec_run A it calls p q)"
  using assms
proof (induction calls arbitrary: D p q)
  case Nil
  then show ?case by auto
next
  case (Cons c calls)
  show ?case
  proof (cases c)
    case (Observe h tx now)
    then show ?thesis
      using Cons.IH [OF tracked_observe [OF Cons.prems(1), of h A tx now] _ Cons.prems(3)] Cons.prems(2)
      by (simp add: Let_def)
  next
    case (Prune now)
    then show ?thesis
      using Cons.IH [OF tracked_prune [OF Cons.prems(1), of now] _ Cons.prems(3)] Cons.prems(2)
      by (simp add: Let_def)
  next
    case (Forget h)
    then show ?thesis
      using Cons.IH [OF tracked_forget [OF Cons.prems(1,3), of h] _ Cons.prems(3)] Cons.prems(2)
      by (simp add: Let_def)
  qed
qed

lemma tracked_new: "Suc (unat mp) < 2 ^ 64 \<Longrightarrow> tracked {} (pool_new pol fb t mc mp) []"
  by (simp add: tracked_def pool_inv_new represents_new) (simp add: pool_new_def)

end
