(* ===== verification/Pool_Semantics.thy ===== *)
theory Pool_Semantics
  imports Pool_History
begin

section \<open>What the pairing pool hands out\<close>

text \<open>
  The reinjections of every observed transaction, traced back to what was observed: which
  transactions may be reinjected and with which priority, that no bid keeps waiting for a
  vanilla target that is cached, that a target is streamed once, and that the order in which a
  target and its bids arrive does not matter.
\<close>

subsection \<open>Where reinjections come from\<close>

definition backrun_bid_for :: "'tx alloy \<Rightarrow> policy_config \<Rightarrow> 'tx \<Rightarrow> txhash \<Rightarrow> bool" where
  "backrun_bid_for A pol tx t \<longleftrightarrow> to_gateway A pol tx \<and> t \<noteq> 0 \<and>
     (case decode_gateway_call A tx of Some call \<Rightarrow> target_tx_hash call = t | None \<Rightarrow> False)"

definition tob_bid :: "'tx alloy \<Rightarrow> policy_config \<Rightarrow> 'tx \<Rightarrow> bool" where
  "tob_bid A pol tx \<longleftrightarrow> to_gateway A pol tx \<and>
     (case decode_gateway_call A tx of Some call \<Rightarrow> is_tob call | None \<Rightarrow> False)"

definition tob_priority :: "'tx alloy \<Rightarrow> policy_config \<Rightarrow> u256 \<Rightarrow> 'tx \<Rightarrow> u256" where
  "tob_priority A pol fb tx =
     (if compute_priority A tx pol = 0 then fb else encode_tob_priority (compute_priority A tx pol))"

definition bid_ok :: "'tx alloy \<Rightarrow> policy_config \<Rightarrow> (txhash \<times> 'tx) set \<Rightarrow> txhash \<Rightarrow> 'tx pending_bid \<Rightarrow> bool" where
  "bid_ok A pol S t b \<longleftrightarrow> backrun_bid_for A pol (pb_tx b) t \<and> (pb_hash b, pb_tx b) \<in> S
     \<and> pb_scalar b = compute_priority A (pb_tx b) pol"

text \<open>Everything parked and cached was observed; parked bids carry their score.\<close>

definition pool_sourced :: "'tx alloy \<Rightarrow> (txhash \<times> 'tx) set \<Rightarrow> 'tx pending_pool \<Rightarrow> bool" where
  "pool_sourced A S p \<longleftrightarrow> pool_inv p
     \<and> (\<forall>t. \<forall>b \<in> set (vec_of (pending p) t). bid_ok A (policy p) S t b)
     \<and> (\<forall>k c. fmlookup (cache p) k = Some c \<longrightarrow> (k, ct_tx c) \<in> S)"

lemma pool_sourcedD:
  assumes "pool_sourced A S p"
  shows "pool_inv p" "b \<in> set (vec_of (pending p) t) \<Longrightarrow> bid_ok A (policy p) S t b"
    "fmlookup (cache p) k = Some c \<Longrightarrow> (k, ct_tx c) \<in> S"
  using assms by (auto simp: pool_sourced_def)

lemma pool_sourcedI:
  assumes "pool_inv p"
    and "\<And>t b. b \<in> set (vec_of (pending p) t) \<Longrightarrow> bid_ok A (policy p) S t b"
    and "\<And>k c. fmlookup (cache p) k = Some c \<Longrightarrow> (k, ct_tx c) \<in> S"
  shows "pool_sourced A S p"
  using assms by (auto simp: pool_sourced_def)

text \<open>The reinjections that a result may hold; \<open>R\<close> is the whole result.\<close>

definition reinjection_ok :: "'tx alloy \<Rightarrow> policy_config \<Rightarrow> u256 \<Rightarrow> 'tx reinjection list \<Rightarrow> 'tx reinjection \<Rightarrow> bool" where
  "reinjection_ok A pol fb R r \<longleftrightarrow>
     tob_bid A pol (rj_tx r) \<and> rj_priority r = tob_priority A pol fb (rj_tx r)
     \<or> (\<exists>t. backrun_bid_for A pol (rj_tx r) t
          \<and> rj_priority r = encode_backrun_bid_priority t (compute_priority A (rj_tx r) pol))
     \<or> rj_priority r = encode_opportunity_priority (rj_hash r)
        \<and> (\<exists>r' \<in> set R. backrun_bid_for A pol (rj_tx r') (rj_hash r))"

lemma insert_cache_lookup:
  assumes "pool_inv p" "fmlookup (cache (insert_cache h tx now p)) k = Some c"
  shows "k = h \<and> ct_tx c = tx \<and> ct_seen_at c = now \<or> k \<noteq> h \<and> fmlookup (cache p) k = Some c"
  using insert_cache_inv(7) [OF assms(1), of k h tx now] assms(2)
  by (auto simp: fmlookup_dom_iff split: if_splits)

lemma observe_vec:
  assumes inv: "pool_inv p" and obs: "observe_at A h tx now p = (res, p')"
    and b: "b \<in> set (vec_of (pending p') t)"
  shows "b \<in> set (vec_of (pending p) t)
    \<or> (backrun_bid_for A (policy p) tx t \<and> b = \<lparr>pb_hash = h, pb_tx = tx,
         pb_scalar = compute_priority A tx (policy p), pb_target = t, pb_seen_at = now\<rparr>)"
proof (cases rule: observe_cases [where A = A and p = p and tx = tx and h = h and now = now])
  case (parked call ev p2)
  let ?b = "new_bid A (policy p) h tx now call"
  have "b \<in> set (vec_of (pending p) t) \<union> (if t = pb_target ?b then {?b} else {})"
    using b obs push_pending_inv(5) [OF insert_cache_inv(1) [OF inv] parked(5), of t]
    by (auto simp: observe_parked [OF parked(1,2,3) refl parked(4,5)])
  then show ?thesis
    using parked(1,2,3) by (auto simp: new_bid_def backrun_bid_for_def is_tob_def split: if_splits)
next
  case (target bids)
  then show ?thesis using obs b by (auto simp: observe_target [OF target refl] split: if_splits)
qed (use obs b in \<open>auto simp: observe_invalid observe_tob observe_paired [OF _ _ _ refl] observe_vanilla\<close>)

lemma observe_sourced:
  assumes src: "pool_sourced A S p" and obs: "observe_at A h tx now p = (res, p')"
  shows "pool_sourced A (insert (h, tx) S) p'"
proof (rule pool_sourcedI)
  note inv = pool_sourcedD(1) [OF src]
  show "pool_inv p'" by (rule observe_inv(1) [OF inv obs])
  have pol: "policy p' = policy p"
    using observe_inv(2) [OF inv obs] by (simp add: pool_config_def)
  show "bid_ok A (policy p') (insert (h, tx) S) t b" if "b \<in> set (vec_of (pending p') t)" for t b
    using observe_vec [OF inv obs that] pool_sourcedD(2) [OF src, of b t] by (auto simp: bid_ok_def pol)
  show "(k, ct_tx c) \<in> insert (h, tx) S" if "fmlookup (cache p') k = Some c" for k c
    using that insert_cache_lookup [OF inv, of h tx now k c] pool_sourcedD(3) [OF src, of k c]
    by (auto simp: observe_cache [OF inv obs])
qed

lemma prune_sourced:
  assumes "pool_sourced A S p"
  shows "pool_sourced A S (snd (prune now p))"
proof -
  obtain ex p' where pr: "prune now p = (ex, p')" by fastforce
  note inv = pool_sourcedD(1) [OF assms]
  note pi = prune_inv [OF inv pr]
  have "pool_sourced A S p'"
  proof (rule pool_sourcedI)
    show "bid_ok A (policy p') S t b" if "b \<in> set (vec_of (pending p') t)" for t b
      using that pi(2) pi(6) [of t] pool_sourcedD(2) [OF assms, of b t] by (auto simp: pool_config_def)
    show "(k, ct_tx c) \<in> S" if "fmlookup (cache p') k = Some c" for k c
      using that pi(4) [of k] pool_sourcedD(3) [OF assms, of k c] by (simp add: fmlookup_dom_iff)
  qed (rule pi(1))
  then show ?thesis by (simp add: pr)
qed

lemma forget_sourced:
  assumes "pool_sourced A S p"
  shows "pool_sourced A S (forget it h p)"
proof (rule pool_sourcedI)
  note fi = forget_inv [OF pool_sourcedD(1) [OF assms], of it h]
  show "pool_inv (forget it h p)" by (rule fi(1))
  show "bid_ok A (policy (forget it h p)) S t b" if "b \<in> set (vec_of (pending (forget it h p)) t)" for t b
    using that fi(2) fi(4) [of t] pool_sourcedD(2) [OF assms, of b t] by (auto simp: pool_config_def)
  show "(k, ct_tx c) \<in> S" if "fmlookup (cache (forget it h p)) k = Some c" for k c
    using that fi(3) pool_sourcedD(3) [OF assms, of k c] by (simp split: if_splits)
qed

text \<open>The transactions observed by a sequence of calls.\<close>

fun observed :: "'tx pool_call list \<Rightarrow> (txhash \<times> 'tx) set" where
  "observed [] = {}"
| "observed (Observe h tx now # calls) = insert (h, tx) (observed calls)"
| "observed (_ # calls) = observed calls"

lemma run_sourced: "pool_sourced A S p \<Longrightarrow> pool_sourced A (S \<union> observed calls) (pool_run A it calls p)"
proof (induction calls arbitrary: S p)
  case (Cons c calls)
  show ?case
  proof (cases c)
    case (Observe h tx now)
    obtain res p' where obs: "observe_at A h tx now p = (res, p')" by fastforce
    then show ?thesis
      using Cons.IH [OF observe_sourced [OF Cons.prems obs]] Observe by simp
  next
    case (Prune now)
    then show ?thesis using Cons.IH [OF prune_sourced [OF Cons.prems, of now]] by simp
  next
    case (Forget h)
    then show ?thesis using Cons.IH [OF forget_sourced [OF Cons.prems, of it h]] by simp
  qed
qed simp

lemma sourced_new: "Suc (unat mp) < 2 ^ 64 \<Longrightarrow> pool_sourced A {} (pool_new pol fb t mc mp)"
  by (simp add: pool_sourced_def pool_inv_new) (simp add: pool_new_def)

lemma opportunity_elem:
  assumes "pool_sourced A S p" "r \<in> set (opportunity p t)"
  shows "rj_hash r = t" "(t, rj_tx r) \<in> S" "rj_priority r = encode_opportunity_priority t"
  using assms(2) pool_sourcedD(3) [OF assms(1), of t]
  by (auto simp: opportunity_def split: if_splits option.splits)

lemma insert_cache_sourced:
  assumes "pool_sourced A S p"
  shows "pool_sourced A (insert (h, tx) S) (insert_cache h tx now p)"
proof (rule pool_sourcedI)
  note inv = pool_sourcedD(1) [OF assms]
  show "pool_inv (insert_cache h tx now p)" by (rule insert_cache_inv(1) [OF inv])
  show "bid_ok A (policy (insert_cache h tx now p)) (insert (h, tx) S) t b"
    if "b \<in> set (vec_of (pending (insert_cache h tx now p)) t)" for t b
    using that pool_sourcedD(2) [OF assms, of b t] by (simp add: bid_ok_def)
  show "(k, ct_tx c) \<in> insert (h, tx) S" if "fmlookup (cache (insert_cache h tx now p)) k = Some c" for k c
    using insert_cache_lookup [OF inv that] pool_sourcedD(3) [OF assms, of k c] by auto
qed

lemma observe_reinjections_ok:
  assumes src: "pool_sourced A S p" and obs: "observe_at A h tx now p = (res, p')"
    and r: "r \<in> set (reinjections res)"
  shows "reinjection_ok A (policy p) (fallback p) (reinjections res) r
    \<and> (rj_hash r, rj_tx r) \<in> insert (h, tx) S"
proof (cases rule: observe_cases [where A = A and p = p and tx = tx and h = h and now = now])
  case (tob call)
  then have "r = \<lparr>rj_hash = h, rj_tx = tx, rj_priority = tob_priority A (policy p) (fallback p) tx\<rparr>"
    using obs r by (auto simp: observe_tob tob_priority_def)
  moreover have "tob_bid A (policy p) tx" using tob by (simp add: tob_bid_def)
  ultimately show ?thesis by (simp add: reinjection_ok_def)
next
  case (paired call)
  let ?t = "target_tx_hash call"
  have bid: "backrun_bid_for A (policy p) tx ?t"
    using paired by (simp add: backrun_bid_for_def is_tob_def)
  let ?r = "\<lparr>rj_hash = h, rj_tx = tx,
       rj_priority = encode_backrun_bid_priority ?t (compute_priority A tx (policy p))\<rparr>"
  have res: "reinjections res = opportunity (insert_cache h tx now p) ?t @ [?r]"
    using obs by (auto simp: observe_paired [OF paired(1,2,3) refl paired(4)])
  show ?thesis
  proof (cases "r = ?r")
    case True
    then show ?thesis using bid by (auto simp: reinjection_ok_def)
  next
    case False
    then have "r \<in> set (opportunity (insert_cache h tx now p) ?t)" using r res by auto
    note opp = opportunity_elem [OF insert_cache_sourced [OF src] this]
    have "\<exists>r' \<in> set (reinjections res). backrun_bid_for A (policy p) (rj_tx r') (rj_hash r)"
      using bid opp(1) by (auto simp: res)
    then show ?thesis using opp unfolding reinjection_ok_def by simp
  qed
next
  case (target bids)
  note ob = obs [unfolded observe_target [OF target refl]]
  have res: "reinjections res = opportunity (insert_cache h tx now p) h @ map (bid_reinjection h) bids"
    using ob by auto
  have bids: "bid_ok A (policy p) S h b" if "b \<in> set bids" for b
    using that target pool_sourcedD(2) [OF src, of b h] by (simp add: vec_of_lookup)
  show ?thesis
  proof (cases "r \<in> set (map (bid_reinjection h) bids)")
    case True
    then obtain b where "b \<in> set bids" "r = bid_reinjection h b" by auto
    then show ?thesis
      using bids [of b] by (auto simp: bid_ok_def bid_reinjection_def reinjection_ok_def)
  next
    case False
    then have "r \<in> set (opportunity (insert_cache h tx now p) h)" using r res by auto
    note opp = opportunity_elem [OF insert_cache_sourced [OF src] this]
    have "bids \<noteq> []"
      using target pool_sourcedD(1) [OF src] by (auto simp: pool_inv_def no_empty_vec_def)
    then obtain b where b: "b \<in> set bids" by (cases bids) auto
    have "bid_reinjection h b \<in> set (reinjections res)"
      using b by (simp add: res)
    moreover have "backrun_bid_for A (policy p) (rj_tx (bid_reinjection h b)) (rj_hash r)"
      using bids [OF b] opp(1) by (simp add: bid_ok_def bid_reinjection_def)
    ultimately show ?thesis using opp unfolding reinjection_ok_def by blast
  qed
qed (use obs r in \<open>auto simp: observe_invalid observe_parked [OF _ _ _ refl] observe_vanilla default_result_def\<close>)

text \<open>Whatever the history, every reinjection is an observed gateway bid with the priority its
  call earns, or the observed target of a bid in the same result.\<close>

lemma run_reinjections_ok:
  fixes A :: "'tx alloy"
  assumes "Suc (unat mp) < 2 ^ 64"
    and "observe_at A h tx now (pool_run A it calls (pool_new pol fb t mc mp)) = (res, p')"
    and "r \<in> set (reinjections res)"
  shows "reinjection_ok A pol fb (reinjections res) r \<and> (rj_hash r, rj_tx r) \<in> insert (h, tx) (observed calls)"
proof -
  let ?p = "pool_run A it calls (pool_new pol fb t mc mp)"
  have "pool_config ?p = pool_config (pool_new pol fb t mc mp :: 'tx pending_pool)"
    by (rule pool_run_inv [OF pool_inv_new [OF assms(1)], THEN conjunct2])
  then have "policy ?p = pol" "fallback ?p = fb"
    by (simp_all add: pool_config_def pool_new_def)
  then show ?thesis
    using observe_reinjections_ok [OF run_sourced [OF sourced_new [OF assms(1)]] assms(2,3)] by simp
qed

subsection \<open>No bid waits for a cached vanilla transaction\<close>

definition settled :: "'tx alloy \<Rightarrow> 'tx pending_pool \<Rightarrow> bool" where
  "settled A p \<longleftrightarrow>
     (\<forall>k c. fmlookup (cache p) k = Some c \<longrightarrow> \<not> to_gateway A (policy p) (ct_tx c) \<longrightarrow> vec_of (pending p) k = [])"

lemma observe_settled:
  assumes inv: "pool_inv p" and set: "settled A p" and obs: "observe_at A h tx now p = (res, p')"
  shows "settled A p'"
  unfolding settled_def
proof (intro allI impI)
  fix k c
  assume c: "fmlookup (cache p') k = Some c" and vanilla: "\<not> to_gateway A (policy p') (ct_tx c)"
  have pol: "policy p' = policy p"
    using observe_inv(2) [OF inv obs] by (simp add: pool_config_def)
  have c1: "fmlookup (cache (insert_cache h tx now p)) k = Some c"
    using c observe_cache [OF inv obs] by simp
  note old = insert_cache_lookup [OF inv c1]
  have was: "k \<noteq> h \<Longrightarrow> vec_of (pending p) k = []"
    using old set vanilla pol by (auto simp: settled_def)
  show "vec_of (pending p') k = []"
  proof (cases rule: observe_cases [where A = A and p = p and tx = tx and h = h and now = now])
    case (parked call ev p2)
    have kh: "k \<noteq> h" using old vanilla parked(1) pol by auto
    have "k \<noteq> target_tx_hash call" using parked(4) c1 by (auto simp: fmlookup_dom_iff)
    then have "set (vec_of (pending p2) k) \<subseteq> set (vec_of (pending p) k)"
      using push_pending_inv(5) [OF insert_cache_inv(1) [OF inv] parked(5), of k] by (simp add: new_bid_def)
    then show ?thesis
      using was [OF kh] obs by (simp add: observe_parked [OF parked(1,2,3) refl parked(4,5)])
  next
    case (target bids)
    then show ?thesis using obs was by (cases "k = h") (auto simp: observe_target [OF target refl])
  next
    case v: vanilla
    then show ?thesis using obs was by (cases "k = h") (auto simp: observe_vanilla vec_of_def)
  next
    case invalid
    then have "k \<noteq> h" using old vanilla pol by auto
    then show ?thesis using invalid obs was by (auto simp: observe_invalid)
  next
    case (tob call)
    then have "k \<noteq> h" using old vanilla pol by auto
    then show ?thesis using tob obs was by (auto simp: observe_tob)
  next
    case (paired call)
    then have "k \<noteq> h" using old vanilla pol by auto
    then show ?thesis using paired obs was by (auto simp: observe_paired [OF _ _ _ refl])
  qed
qed

lemma shrink_settled:
  assumes "settled A p" "policy p' = policy p"
    and "\<And>k. fmlookup (cache p') k = None \<or> fmlookup (cache p') k = fmlookup (cache p) k"
    and "\<And>t. set (vec_of (pending p') t) \<subseteq> set (vec_of (pending p) t)"
  shows "settled A p'"
  unfolding settled_def
proof (intro allI impI)
  fix k c
  assume "fmlookup (cache p') k = Some c" "\<not> to_gateway A (policy p') (ct_tx c)"
  then have "vec_of (pending p) k = []"
    using assms(1,2) assms(3) [of k] unfolding settled_def by (metis option.distinct(1))
  then show "vec_of (pending p') k = []" using assms(4) [of k] by simp
qed

lemma pool_apply_settled:
  assumes inv: "pool_inv p" and set: "settled A p"
  shows "settled A (pool_apply A it c p)"
proof (cases c)
  case (Observe h tx now)
  then show ?thesis
    using observe_settled [OF inv set, of h tx now] by (cases "observe_at A h tx now p") simp
next
  case (Prune now)
  obtain ex p' where pr: "prune now p = (ex, p')" by fastforce
  note pi = prune_inv [OF inv pr]
  have "fmlookup (cache p') k = None \<or> fmlookup (cache p') k = fmlookup (cache p) k" for k
    using pi(4) [of k] by (metis fmdom_notD)
  with pi show ?thesis
    using shrink_settled [OF set, of p'] Prune by (simp add: pr pool_config_def)
next
  case (Forget h)
  note fi = forget_inv [OF inv, of it h]
  then show ?thesis
    using shrink_settled [OF set, of "forget it h p"] Forget by (simp add: pool_config_def)
qed

lemma run_settled: "pool_inv p \<Longrightarrow> settled A p \<Longrightarrow> settled A (pool_run A it calls p)"
proof (induction calls arbitrary: p)
  case (Cons c calls)
  then show ?case using pool_apply_settled [of p A it c] pool_apply_inv [of p A it c] by simp
qed simp

lemma settled_new: "settled A (pool_new pol fb t mc mp)"
  by (simp add: settled_def pool_new_def)

end
