(* ===== verification/Priority_Slots.thy ===== *)
theory Priority_Slots
  imports Policy "HOL-Library.Product_Lexorder"
begin

section \<open>The intended block order, and the encoders as an order embedding\<close>

text \<open>
  The specification of the 256-bit layout of \<^verbatim>\<open>src/policy.rs\<close>: a priority names a slot of
  the block, and slots have a linear order of their own, written down without any bit of the
  encoding. Top-of-block slots come last (highest); below them the backrun groups, one after
  the other; in a group the bids by their value and above them the target.
\<close>

unbundle bit_operations_syntax

subsection \<open>Slots and their order\<close>

type_synonym group_key = "126 word"

datatype slot =
    TobSlot u128
  | TargetSlot group_key
  | BidSlot group_key u128

text \<open>Compared lexicographically: top of block, group, target before its bids, value.\<close>

fun slot_rank :: "slot \<Rightarrow> bool \<times> group_key \<times> bool \<times> u128" where
  "slot_rank (TobSlot v) = (True, 0, False, v)"
| "slot_rank (TargetSlot g) = (False, g, True, 0)"
| "slot_rank (BidSlot g v) = (False, g, False, v)"

lemma slot_rank_inject: "slot_rank s = slot_rank t \<longleftrightarrow> s = t"
  by (cases s; cases t) auto

instantiation slot :: linorder
begin

definition less_eq_slot :: "slot \<Rightarrow> slot \<Rightarrow> bool" where
  "s \<le> t \<longleftrightarrow> slot_rank s \<le> slot_rank t"

definition less_slot :: "slot \<Rightarrow> slot \<Rightarrow> bool" where
  "s < t \<longleftrightarrow> slot_rank s < slot_rank t"

instance
  by standard (auto simp: less_eq_slot_def less_slot_def less_le slot_rank_inject)

end

lemma slot_less_simps [simp]:
  "TobSlot v < TobSlot w \<longleftrightarrow> v < w"
  "\<not> TobSlot v < TargetSlot h"
  "\<not> TobSlot v < BidSlot h w"
  "TargetSlot g < TobSlot w"
  "TargetSlot g < TargetSlot h \<longleftrightarrow> g < h"
  "TargetSlot g < BidSlot h w \<longleftrightarrow> g < h"
  "BidSlot g v < TobSlot w"
  "BidSlot g v < TargetSlot h \<longleftrightarrow> g \<le> h"
  "BidSlot g v < BidSlot h w \<longleftrightarrow> g < h \<or> g = h \<and> v < w"
  by (auto simp: less_slot_def less_prod_def)

lemma slot_between_bid_and_target:
  "BidSlot g v < s \<Longrightarrow> s < TargetSlot g \<Longrightarrow> \<exists>w. s = BidSlot g w \<and> v < w"
  by (cases s) auto

subsection \<open>Requests: the arguments of the three encoders\<close>

datatype request =
    TobRequest u256
  | TargetRequest txhash
  | BidRequest txhash u256

fun encode_request :: "request \<Rightarrow> u256" where
  "encode_request (TobRequest s) = encode_tob_priority s"
| "encode_request (TargetRequest t) = encode_opportunity_priority t"
| "encode_request (BidRequest t s) = encode_backrun_bid_priority t s"

definition group_of :: "txhash \<Rightarrow> group_key" where
  "group_of t = ucast (backrun_id t)"

fun slot_of_request :: "request \<Rightarrow> slot" where
  "slot_of_request (TobRequest s) = TobSlot (ucast s)"
| "slot_of_request (TargetRequest t) = TargetSlot (group_of t)"
| "slot_of_request (BidRequest t s) = BidSlot (group_of t) (ucast s)"

text \<open>What a reader of the wire field gets back from it.\<close>

definition decode_slot :: "u256 \<Rightarrow> slot" where
  "decode_slot p =
     (if bit p TOB_MARKER_BIT then TobSlot (ucast p)
      else if bit p OPPORTUNITY_MARKER_BIT then TargetSlot (ucast (drop_bit GROUP_KEY_SHIFT p))
      else BidSlot (ucast (drop_bit GROUP_KEY_SHIFT p)) (ucast p))"

subsection \<open>Numeric values\<close>

lemma unat_group_of: "unat (group_of t) = unat (backrun_id t)"
proof -
  have "take_bit 126 (unat (backrun_id t)) = unat (backrun_id t)"
    by (rule take_bit_nat_eq_self [OF backrun_id_bound])
  then show ?thesis
    by (simp add: group_of_def unsigned_ucast_eq)
qed

lemma group_of_eq_iff: "group_of t = group_of u \<longleftrightarrow> backrun_id t = backrun_id u"
  by (metis unat_group_of unsigned_word_eqI)

lemma unat_low_word: "unat (ucast s :: u128) = unat (s :: u256) mod 2 ^ 128"
  by (simp only: unsigned_ucast_eq) (simp add: take_bit_eq_mod)

fun slot_value :: "slot \<Rightarrow> nat" where
  "slot_value (TobSlot v) = 2 ^ 255 + unat v"
| "slot_value (TargetSlot g) = unat g * 2 ^ 129 + 2 ^ 128"
| "slot_value (BidSlot g v) = unat g * 2 ^ 129 + unat v"

lemma unat_encode_request: "unat (encode_request r) = slot_value (slot_of_request r)"
  by (cases r) (simp_all add: unat_encoding unat_group_of unat_low_word del: power_numeral)

lemma group_key_bound: "unat (g :: group_key) < 2 ^ 126"
  by (rule order_less_le_trans [OF unsigned_less]) simp

text \<open>The layout is positional: a smaller group leaves no room for overlap.\<close>

lemma group_gap:
  fixes g h :: nat
  assumes "g < h"
  shows "g * 2 ^ 129 + 2 ^ 129 \<le> h * 2 ^ 129"
proof -
  have "Suc g * 2 ^ 129 \<le> h * 2 ^ 129"
    using assms by (intro mult_le_mono1) simp
  then show ?thesis by simp
qed

lemma group_top: "unat (g :: group_key) * 2 ^ 129 + 2 ^ 129 \<le> 2 ^ 255"
  using group_gap [OF group_key_bound [of g]] by simp

lemma slot_value_mono: "s < t \<Longrightarrow> slot_value s < slot_value t"
proof (cases s; cases t)
  fix g v h w
  assume s: "s = BidSlot g v" and t: "t = BidSlot h w" and "s < t"
  then consider "g < h" | "g = h" "v < w" by auto
  then show ?thesis
  proof cases
    case 1
    then show ?thesis
      using group_gap [of "unat g" "unat h"] unat_less_128 [of v] s t
      by (simp add: word_less_nat_alt)
  qed (use s t in \<open>simp add: word_less_nat_alt\<close>)
next
  fix g h v
  assume s: "s = TargetSlot g" and t: "t = BidSlot h v" and "s < t"
  then show ?thesis
    using group_gap [of "unat g" "unat h"] by (simp add: word_less_nat_alt)
next
  fix g v h
  assume s: "s = BidSlot g v" and t: "t = TargetSlot h" and "s < t"
  then have "g = h \<or> g < h" by auto
  then show ?thesis
    using group_gap [of "unat g" "unat h"] unat_less_128 [of v] s t
    by (auto simp: word_less_nat_alt)
next
  fix g w
  assume "s = TargetSlot g" "t = TobSlot w"
  then show ?thesis using group_top [of g] by simp
next
  fix g v w
  assume "s = BidSlot g v" "t = TobSlot w"
  then show ?thesis using group_top [of g] unat_less_128 [of v] by simp
qed (auto simp: word_less_nat_alt)

lemma slot_value_less_iff: "slot_value s < slot_value t \<longleftrightarrow> s < t"
  by (metis linorder_neqE order_less_asym slot_value_mono)

subsection \<open>The contract of an encoder of slots\<close>

text \<open>
  What the pairing relies on: an encoder of requests that compares as their slots do. The lemmas
  below are the guarantees of the layout, proved from that contract alone.
\<close>

locale slot_encoding =
  fixes slot :: "'r \<Rightarrow> slot" and enc :: "'r \<Rightarrow> u256"
  assumes enc_less: "enc r < enc r' \<longleftrightarrow> slot r < slot r'"
begin

lemma enc_eq_iff: "enc r = enc r' \<longleftrightarrow> slot r = slot r'"
  using enc_less [of r r'] enc_less [of r' r] by (metis linorder_neqE order_less_irrefl)

lemma bid_behind_target:
  assumes "slot b = BidSlot g v" "slot t = TargetSlot g" "enc b < enc x" "enc x < enc t"
  shows "\<exists>w. slot x = BidSlot g w \<and> v < w"
  using assms slot_between_bid_and_target [of g v "slot x"] by (simp add: enc_less)

lemma target_above_bids: "slot b = BidSlot g v \<Longrightarrow> slot t = TargetSlot g \<Longrightarrow> enc b < enc t"
  by (simp add: enc_less)

lemma tob_above: "slot r = TobSlot v \<Longrightarrow> slot x = TargetSlot g \<or> slot x = BidSlot g w \<Longrightarrow> enc x < enc r"
  by (auto simp: enc_less)

end

interpretation slots: slot_encoding slot_of_request encode_request
  by unfold_locales (simp add: word_less_nat_alt unat_encode_request slot_value_less_iff)

subsection \<open>Reading a priority back\<close>

lemma bit_low_128_mask: "bit low_128_mask n \<longleftrightarrow> n < 128"
  by (auto simp: low_128_mask_eq bit_mask_iff)

text \<open>The markers stay folded: simplification would evaluate the shifted bit.\<close>

lemma marker_positions:
  "128 \<le> TOB_MARKER_BIT" "TOB_MARKER_BIT < 256"
  "128 \<le> OPPORTUNITY_MARKER_BIT" "OPPORTUNITY_MARKER_BIT < GROUP_KEY_SHIFT"
  "OPPORTUNITY_MARKER_BIT < 256"
  "GROUP_KEY_SHIFT + BACKRUN_ID_BITS \<le> TOB_MARKER_BIT"
  "128 \<le> GROUP_KEY_SHIFT" "GROUP_KEY_SHIFT \<le> 256"
  "TOB_MARKER_BIT - GROUP_KEY_SHIFT = 126" "GROUP_KEY_SHIFT + 126 \<le> TOB_MARKER_BIT"
  by (simp_all add: priority_constants)

lemma bit_backrun_id_high: "126 \<le> n \<Longrightarrow> \<not> bit (backrun_id t) n"
  by (auto simp: backrun_id_def BACKRUN_ID_BITS_def bit_simps dest: bit_imp_le_length)

lemma decode_tob: "decode_slot (encode_tob_priority s) = TobSlot (ucast s)"
proof -
  have "ucast (encode_tob_priority s) = (ucast s :: u128)"
    by (rule bit_word_eqI)
       (use marker_positions in \<open>auto simp: encode_tob_priority_def bit_simps bit_low_128_mask\<close>)
  moreover have "bit (encode_tob_priority s) TOB_MARKER_BIT"
    using marker_positions by (simp add: encode_tob_priority_def bit_simps)
  ultimately show ?thesis
    by (simp add: decode_slot_def)
qed

lemma bit_group_field:
  "bit (push_bit GROUP_KEY_SHIFT (backrun_id t)) n \<longleftrightarrow>
     GROUP_KEY_SHIFT \<le> n \<and> bit (backrun_id t) (n - GROUP_KEY_SHIFT)"
proof -
  have "bit (backrun_id t) (n - GROUP_KEY_SHIFT) \<Longrightarrow> n < 256"
    using bit_backrun_id_high [of "n - GROUP_KEY_SHIFT" t] marker_positions by linarith
  then show ?thesis
    by (auto simp: bit_simps)
qed

lemma decode_opportunity:
  "decode_slot (encode_opportunity_priority t) = TargetSlot (group_of t)"
proof -
  let ?p = "encode_opportunity_priority t"
  have "\<not> bit ?p TOB_MARKER_BIT"
    using marker_positions bit_backrun_id_high [of 126 t]
    by (simp add: encode_opportunity_priority_def bit_or_iff bit_group_field)
       (simp add: bit_simps)
  moreover have "bit ?p OPPORTUNITY_MARKER_BIT"
    using marker_positions by (simp add: encode_opportunity_priority_def bit_simps)
  moreover have "ucast (drop_bit GROUP_KEY_SHIFT ?p) = group_of t"
    by (rule bit_word_eqI)
       (use marker_positions in \<open>auto simp: encode_opportunity_priority_def group_of_def
          bit_ucast_iff bit_drop_bit_eq bit_or_iff bit_group_field bit_exp_iff\<close>)
  ultimately show ?thesis
    by (simp add: decode_slot_def)
qed

lemma decode_bid:
  "decode_slot (encode_backrun_bid_priority t s) = BidSlot (group_of t) (ucast s)"
proof -
  let ?p = "encode_backrun_bid_priority t s"
  have "\<not> bit ?p TOB_MARKER_BIT" "\<not> bit ?p OPPORTUNITY_MARKER_BIT"
    using marker_positions bit_backrun_id_high [of 126 t]
    by (simp_all add: encode_backrun_bid_priority_def bit_or_iff bit_and_iff bit_group_field
        bit_low_128_mask)
  moreover have "ucast (drop_bit GROUP_KEY_SHIFT ?p) = group_of t"
    by (rule bit_word_eqI)
       (use marker_positions in \<open>auto simp: encode_backrun_bid_priority_def group_of_def
          bit_ucast_iff bit_drop_bit_eq bit_or_iff bit_and_iff bit_group_field bit_low_128_mask\<close>)
  moreover have "ucast ?p = (ucast s :: u128)"
    by (rule bit_word_eqI)
       (use marker_positions in \<open>auto simp: encode_backrun_bid_priority_def
          bit_ucast_iff bit_or_iff bit_and_iff bit_group_field bit_low_128_mask\<close>)
  ultimately show ?thesis
    by (simp add: decode_slot_def)
qed

lemmas decode_encoders = decode_tob decode_opportunity decode_bid

end
