(* ===== verification/Pool_Pairing.thy ===== *)
theory Pool_Pairing
  imports Pool_Semantics Priority_Slots
begin

section \<open>Pairing bids with their target\<close>

text \<open>
  Behaviour of the pairing along several calls: while there is room, a target and its bids are
  handed out the same way wherever the target arrives among the bids; a target is handed out
  once while it stays cached; a transaction observed right after a prune is cached; the counters
  that the pool reports account for every bid; expiry leaves nothing expired behind when the
  clock does not run backwards.
\<close>

subsection \<open>Operations with room to spare\<close>

lemma insert_cache_room:
  assumes "fmlookup (cache p) h \<noteq> None \<or> hm_len (cache p) < unat (max_cache_entries p)"
    and "hm_len (cache p) \<le> unat (max_cache_entries p)"
  shows "cache (insert_cache h tx now p) = fmupd h \<lparr>ct_tx = tx, ct_seen_at = now\<rparr> (cache p)"
    "streamed_targets (insert_cache h tx now p) = streamed_targets p"
proof -
  let ?c = "fmupd h \<lparr>ct_tx = tx, ct_seen_at = now\<rparr> (cache p)"
  have "hm_len ?c \<le> unat (max_cache_entries p)"
    using assms by (auto simp: hm_len_fmupd)
  then have "evict_cache (max_cache_entries p) ?c ord st = (?c, ord, st)" for ord st
    by (cases ord) auto
  then show "cache (insert_cache h tx now p) = ?c"
    "streamed_targets (insert_cache h tx now p) = streamed_targets p"
    by (simp_all add: insert_cache_def)
qed

lemma push_pending_room:
  fixes p :: "'tx pending_pool"
  assumes "pool_inv p" "unat (pending_count p) < unat (max_pending_entries p)"
  shows "push_pending b p = (0, p\<lparr>pending := fmupd (pb_target b) (vec_of (pending p) (pb_target b) @ [b]) (pending p),
      pending_order := pending_order p @ [(pb_target b, pb_hash b)], pending_count := pending_count p + 1\<rparr>)"
proof -
  have "unat (pending_count p + 1) = Suc (unat (pending_count p))"
    using assms by (intro unat_inc_word) (auto simp: pool_inv_def)
  then have "\<not> max_pending_entries p < pending_count p + 1"
    using assms(2) by (simp add: word_less_nat_alt)
  then have "evict_pending (max_pending_entries p) pend ord (pending_count p + 1) 0
      = (pend, ord, pending_count p + 1, 0)" for pend :: "'tx bid_map" and ord
    by (cases ord) auto
  then show ?thesis
    by (simp add: push_pending_def vec_of_def Let_def split: option.splits)
qed

subsection \<open>The reinjections along a history\<close>

fun pool_outputs :: "'tx alloy \<Rightarrow> ('tx bid_map \<Rightarrow> txhash list) \<Rightarrow> 'tx pool_call list \<Rightarrow> 'tx pending_pool \<Rightarrow>
    'tx reinjection list" where
  "pool_outputs A it [] p = []"
| "pool_outputs A it (c # calls) p =
     (case c of Observe h tx now \<Rightarrow> reinjections (fst (observe_at A h tx now p)) | _ \<Rightarrow> [])
     @ pool_outputs A it calls (pool_apply A it c p)"

lemma pool_outputs_append:
  "pool_outputs A it (cs @ ds) p = pool_outputs A it cs p @ pool_outputs A it ds (pool_run A it cs p)"
  by (induction cs arbitrary: p) auto

type_synonym 'tx arrival = "txhash \<times> 'tx \<times> instant"

definition arrive :: "'tx arrival list \<Rightarrow> 'tx pool_call list" where
  "arrive as = map (\<lambda>(h, tx, now). Observe h tx now) as"

lemma arrive_simps [simp]:
  "arrive [] = []" "arrive ((h, tx, now) # as) = Observe h tx now # arrive as"
  "arrive (as @ bs) = arrive as @ arrive bs"
  by (simp_all add: arrive_def)

definition opportunity_of :: "txhash \<Rightarrow> 'tx \<Rightarrow> 'tx reinjection" where
  "opportunity_of t tx = \<lparr>rj_hash = t, rj_tx = tx, rj_priority = encode_opportunity_priority t\<rparr>"

definition bid_of :: "'tx alloy \<Rightarrow> policy_config \<Rightarrow> txhash \<Rightarrow> 'tx arrival \<Rightarrow> 'tx reinjection" where
  "bid_of A pol t = (\<lambda>(h, tx, now). \<lparr>rj_hash = h, rj_tx = tx,
     rj_priority = encode_backrun_bid_priority t (compute_priority A tx pol)\<rparr>)"

definition parked_of :: "'tx alloy \<Rightarrow> policy_config \<Rightarrow> txhash \<Rightarrow> 'tx arrival \<Rightarrow> 'tx pending_bid" where
  "parked_of A pol t = (\<lambda>(h, tx, now). \<lparr>pb_hash = h, pb_tx = tx,
     pb_scalar = compute_priority A tx pol, pb_target = t, pb_seen_at = now\<rparr>)"

lemma bid_reinjection_parked: "bid_reinjection t (parked_of A pol t a) = bid_of A pol t a"
  by (cases a) (simp add: bid_reinjection_def parked_of_def bid_of_def)

definition bids_for :: "'tx alloy \<Rightarrow> policy_config \<Rightarrow> txhash \<Rightarrow> 'tx arrival list \<Rightarrow> bool" where
  "bids_for A pol t as \<longleftrightarrow> (\<forall>(h, tx, now) \<in> set as. backrun_bid_for A pol tx t \<and> h \<noteq> t)"

lemma backrun_bid_for_decode:
  assumes "backrun_bid_for A pol tx t"
  obtains call where "to_gateway A pol tx" "decode_gateway_call A tx = Some call" "\<not> is_tob call"
    "target_tx_hash call = t"
  using assms by (auto simp: backrun_bid_for_def is_tob_def split: option.splits)

text \<open>One bid, before and after its target is cached.\<close>

lemma observe_bid_early:
  assumes inv: "pool_inv p" and bid: "backrun_bid_for A (policy p) tx t" "h \<noteq> t"
    and t: "t |\<notin>| fmdom (cache p)" and room: "unat (pending_count p) < unat (max_pending_entries p)"
  obtains p' where "observe_at A h tx now p = (default_result\<lparr>bids_pended := 1\<rparr>, p')"
    "pool_inv p'" "pool_config p' = pool_config p" "t |\<notin>| fmdom (cache p')"
    "hm_len (cache p') \<le> Suc (hm_len (cache p))"
    "unat (pending_count p') = Suc (unat (pending_count p))"
    "vec_of (pending p') t = vec_of (pending p) t @ [parked_of A (policy p) t (h, tx, now)]"
proof -
  obtain call where call: "to_gateway A (policy p) tx" "decode_gateway_call A tx = Some call"
    "\<not> is_tob call" "target_tx_hash call = t"
    using bid(1) by (rule backrun_bid_for_decode)
  let ?p1 = "insert_cache h tx now p"
  note ins = insert_cache_inv [OF inv, where h = h and tx = tx and now = now]
  have t1: "t |\<notin>| fmdom (cache ?p1)"
    using ins(6) t bid(2) by auto
  let ?b = "new_bid A (policy p) h tx now call"
  have b: "?b = parked_of A (policy p) t (h, tx, now)"
    using call(4) by (simp add: new_bid_def parked_of_def)
  have mx: "max_pending_entries ?p1 = max_pending_entries p"
    using ins(2) by (simp add: pool_config_def)
  have "unat (pending_count ?p1) < unat (max_pending_entries ?p1)"
    using room by (simp only: ins(5) mx)
  note push = push_pending_room [OF ins(1) this, of ?b]
  obtain p' where p': "push_pending ?b ?p1 = (0, p')"
    "p' = ?p1\<lparr>pending := fmupd (pb_target ?b) (vec_of (pending ?p1) (pb_target ?b) @ [?b]) (pending ?p1),
      pending_order := pending_order ?p1 @ [(pb_target ?b, pb_hash ?b)], pending_count := pending_count ?p1 + 1\<rparr>"
    using push by simp
  have tgt: "pb_target ?b = t" using call(4) by (simp add: new_bid_def)
  have obs: "observe_at A h tx now p = (default_result\<lparr>bids_pended := 1\<rparr>, p')"
    using observe_parked [OF call(1,2,3) refl _ p'(1)] t1 call(4) by (simp add: default_result_def)
  show thesis
  proof (rule that [OF obs])
    show "pool_inv p'" "pool_config p' = pool_config p" by (rule observe_inv [OF inv obs])+
    show "t |\<notin>| fmdom (cache p')" using t1 by (simp add: p'(2))
    have "hm_len (cache ?p1) \<le> fcard (finsert h (fmdom (cache p)))"
      unfolding hm_len_def by (rule fcard_mono [OF ins(6)])
    also have "\<dots> \<le> Suc (hm_len (cache p))"
      by (simp add: hm_len_def fcard_finsert_if)
    finally show "hm_len (cache p') \<le> Suc (hm_len (cache p))" by (simp add: p'(2))
    have "unat (pending_count p + 1) = Suc (unat (pending_count p))"
      using inv room by (intro unat_inc_word) (auto simp: pool_inv_def)
    then show "unat (pending_count p') = Suc (unat (pending_count p))"
      by (simp add: p'(2) ins(5))
    show "vec_of (pending p') t = vec_of (pending p) t @ [parked_of A (policy p) t (h, tx, now)]"
      by (simp add: p'(2) tgt b parked_of_def)
  qed
qed

lemma observe_bid_late:
  assumes inv: "pool_inv p" and bid: "backrun_bid_for A (policy p) tx t" "h \<noteq> t"
    and t: "fmlookup (cache p) t = Some c" and room: "hm_len (cache p) < unat (max_cache_entries p)"
  obtains p' where "observe_at A h tx now p =
      (default_result\<lparr>reinjections := (if t |\<in>| streamed_targets p then [] else [opportunity_of t (ct_tx c)])
          @ [bid_of A (policy p) t (h, tx, now)], pairs_matched := 1\<rparr>, p')"
    "pool_inv p'" "pool_config p' = pool_config p" "fmlookup (cache p') t = Some c"
    "hm_len (cache p') \<le> Suc (hm_len (cache p))" "t |\<in>| streamed_targets p'"
proof -
  obtain call where call: "to_gateway A (policy p) tx" "decode_gateway_call A tx = Some call"
    "\<not> is_tob call" "target_tx_hash call = t"
    using bid(1) by (rule backrun_bid_for_decode)
  let ?p1 = "insert_cache h tx now p"
  have c1: "cache ?p1 = fmupd h \<lparr>ct_tx = tx, ct_seen_at = now\<rparr> (cache p)"
    and s1: "streamed_targets ?p1 = streamed_targets p"
    using insert_cache_room [of p h tx now] room by auto
  have t1: "fmlookup (cache ?p1) t = Some c" using t bid(2) by (simp add: c1)
  then have dom: "target_tx_hash call |\<in>| fmdom (cache ?p1)" by (simp add: call(4) fmlookup_dom_iff)
  have opp: "opportunity ?p1 t = (if t |\<in>| streamed_targets p then [] else [opportunity_of t (ct_tx c)])"
    using t1 by (simp add: opportunity_def opportunity_of_def s1)
  note obs = observe_paired [OF call(1,2,3) refl dom]
  show thesis
  proof (rule that)
    show "observe_at A h tx now p =
      (default_result\<lparr>reinjections := (if t |\<in>| streamed_targets p then [] else [opportunity_of t (ct_tx c)])
          @ [bid_of A (policy p) t (h, tx, now)], pairs_matched := 1\<rparr>, mark_streamed t ?p1)"
      using obs opp by (simp add: call(4) bid_of_def)
    show "pool_inv (mark_streamed t ?p1)"
      by (rule mark_streamed_inv [OF insert_cache_inv(1) [OF inv]])
    show "pool_config (mark_streamed t ?p1) = pool_config p"
      by (simp add: insert_cache_inv(2) [OF inv])
    show "fmlookup (cache (mark_streamed t ?p1)) t = Some c" using t1 by simp
    show "hm_len (cache (mark_streamed t ?p1)) \<le> Suc (hm_len (cache p))" by (simp add: c1 hm_len_fmupd)
    show "t |\<in>| streamed_targets (mark_streamed t ?p1)"
      using dom by (simp add: mark_streamed_def call(4))
  qed
qed

subsection \<open>The order of arrival does not matter\<close>

lemma bids_for_Cons [simp]:
  "bids_for A pol t ((h, tx, now) # as) \<longleftrightarrow> backrun_bid_for A pol tx t \<and> h \<noteq> t \<and> bids_for A pol t as"
  by (auto simp: bids_for_def)

lemma bids_for_append [simp]:
  "bids_for A pol t (as @ bs) \<longleftrightarrow> bids_for A pol t as \<and> bids_for A pol t bs"
  by (simp add: bids_for_def ball_Un)

text \<open>Bids that arrive before their target are parked, in order, without output.\<close>

lemma early_phase:
  assumes "pool_inv p" "bids_for A (policy p) t as" "t |\<notin>| fmdom (cache p)"
    and "unat (pending_count p) + length as \<le> unat (max_pending_entries p)"
  shows "pool_outputs A it (arrive as) p = []"
    "pool_inv (pool_run A it (arrive as) p)"
    "pool_config (pool_run A it (arrive as) p) = pool_config p"
    "t |\<notin>| fmdom (cache (pool_run A it (arrive as) p))"
    "hm_len (cache (pool_run A it (arrive as) p)) \<le> hm_len (cache p) + length as"
    "vec_of (pending (pool_run A it (arrive as) p)) t
       = vec_of (pending p) t @ map (parked_of A (policy p) t) as"
proof -
  have "pool_outputs A it (arrive as) p = [] \<and> pool_inv (pool_run A it (arrive as) p)
    \<and> pool_config (pool_run A it (arrive as) p) = pool_config p
    \<and> t |\<notin>| fmdom (cache (pool_run A it (arrive as) p))
    \<and> hm_len (cache (pool_run A it (arrive as) p)) \<le> hm_len (cache p) + length as
    \<and> vec_of (pending (pool_run A it (arrive as) p)) t
       = vec_of (pending p) t @ map (parked_of A (policy p) t) as"
    using assms
  proof (induction as arbitrary: p)
    case Nil
    then show ?case by simp
  next
    case (Cons a as)
    obtain h tx now where a: "a = (h, tx, now)" by (cases a)
    have bid: "backrun_bid_for A (policy p) tx t" "h \<noteq> t" and rest: "bids_for A (policy p) t as"
      using Cons.prems(2) by (simp_all add: a)
    have room: "unat (pending_count p) < unat (max_pending_entries p)"
      using Cons.prems(4) by simp
    obtain p' where obs: "observe_at A h tx now p = (default_result\<lparr>bids_pended := 1\<rparr>, p')"
      and p': "pool_inv p'" "pool_config p' = pool_config p" "t |\<notin>| fmdom (cache p')"
        "hm_len (cache p') \<le> Suc (hm_len (cache p))"
        "unat (pending_count p') = Suc (unat (pending_count p))"
        "vec_of (pending p') t = vec_of (pending p) t @ [parked_of A (policy p) t (h, tx, now)]"
      by (rule observe_bid_early [OF Cons.prems(1) bid Cons.prems(3) room])
    have same: "policy p' = policy p" "max_pending_entries p' = max_pending_entries p"
      using p'(2) by (simp_all add: pool_config_def)
    have "bids_for A (policy p') t as" "unat (pending_count p') + length as \<le> unat (max_pending_entries p')"
      using rest Cons.prems(4) p'(5) same by simp_all
    note ih = Cons.IH [OF p'(1) this(1) p'(3) this(2)]
    show ?case
      using ih obs p'(2,4,6) same by (simp add: a default_result_def)
  qed
  then show "pool_outputs A it (arrive as) p = []" "pool_inv (pool_run A it (arrive as) p)"
    "pool_config (pool_run A it (arrive as) p) = pool_config p"
    "t |\<notin>| fmdom (cache (pool_run A it (arrive as) p))"
    "hm_len (cache (pool_run A it (arrive as) p)) \<le> hm_len (cache p) + length as"
    "vec_of (pending (pool_run A it (arrive as) p)) t
       = vec_of (pending p) t @ map (parked_of A (policy p) t) as"
    by blast+
qed

text \<open>Bids that arrive after it go out at once, the first one behind the target.\<close>

lemma late_phase:
  assumes "pool_inv p" "bids_for A (policy p) t as" "fmlookup (cache p) t = Some c"
    and "hm_len (cache p) + length as \<le> unat (max_cache_entries p)"
  shows "pool_outputs A it (arrive as) p =
    (if as = [] \<or> t |\<in>| streamed_targets p then [] else [opportunity_of t (ct_tx c)])
      @ map (bid_of A (policy p) t) as"
  using assms
proof (induction as arbitrary: p)
  case Nil
  then show ?case by simp
next
  case (Cons a as)
  obtain h tx now where a: "a = (h, tx, now)" by (cases a)
  have bid: "backrun_bid_for A (policy p) tx t" "h \<noteq> t" and rest: "bids_for A (policy p) t as"
    using Cons.prems(2) by (simp_all add: a)
  have room: "hm_len (cache p) < unat (max_cache_entries p)"
    using Cons.prems(4) by simp
  obtain p' where obs: "observe_at A h tx now p =
      (default_result\<lparr>reinjections := (if t |\<in>| streamed_targets p then [] else [opportunity_of t (ct_tx c)])
          @ [bid_of A (policy p) t (h, tx, now)], pairs_matched := 1\<rparr>, p')"
    and p': "pool_inv p'" "pool_config p' = pool_config p" "fmlookup (cache p') t = Some c"
      "hm_len (cache p') \<le> Suc (hm_len (cache p))" "t |\<in>| streamed_targets p'"
    by (rule observe_bid_late [OF Cons.prems(1) bid Cons.prems(3) room])
  have same: "policy p' = policy p" "max_cache_entries p' = max_cache_entries p"
    using p'(2) by (simp_all add: pool_config_def)
  have "bids_for A (policy p') t as" "hm_len (cache p') + length as \<le> unat (max_cache_entries p')"
    using rest Cons.prems(4) p'(4) same by simp_all
  note ih = Cons.IH [OF p'(1) this(1) p'(3) this(2)]
  show ?case using ih obs p'(5) same by (simp add: a)
qed

lemma arrival_order:
  assumes inv: "pool_inv p" and bids: "bids_for A (policy p) t (early @ late)" "early @ late \<noteq> []"
    and target: "\<not> to_gateway A (policy p) tx"
    and fresh: "t |\<notin>| fmdom (cache p)" "vec_of (pending p) t = []"
    and cache_room: "hm_len (cache p) + length (early @ late) < unat (max_cache_entries p)"
    and pending_room: "unat (pending_count p) + length (early @ late) \<le> unat (max_pending_entries p)"
  shows "pool_outputs A it (arrive early @ [Observe t tx now] @ arrive late) p
    = opportunity_of t tx # map (bid_of A (policy p) t) (early @ late)"
proof -
  let ?p1 = "pool_run A it (arrive early) p"
  have e: "pool_outputs A it (arrive early) p = []" "pool_inv ?p1" "pool_config ?p1 = pool_config p"
    "t |\<notin>| fmdom (cache ?p1)" "hm_len (cache ?p1) \<le> hm_len (cache p) + length early"
    "vec_of (pending ?p1) t = map (parked_of A (policy p) t) early"
    using early_phase [OF inv, of A t early it] bids(1) fresh pending_room by simp_all
  have pol: "policy ?p1 = policy p" "max_cache_entries ?p1 = max_cache_entries p"
    using e(3) by (simp_all add: pool_config_def)
  obtain res p2 where obs: "observe_at A t tx now ?p1 = (res, p2)" by fastforce
  note inv2 = observe_inv [OF e(2) obs]
  have room: "hm_len (cache ?p1) + length late < unat (max_cache_entries ?p1)"
    using cache_room e(5) pol by simp
  have c1: "cache (insert_cache t tx now ?p1) = fmupd t \<lparr>ct_tx = tx, ct_seen_at = now\<rparr> (cache ?p1)"
    "streamed_targets (insert_cache t tx now ?p1) = streamed_targets ?p1"
    using room by (auto intro!: insert_cache_room)
  then have c2: "fmlookup (cache p2) t = Some \<lparr>ct_tx = tx, ct_seen_at = now\<rparr>"
    by (simp add: observe_cache [OF e(2) obs])
  have len2: "hm_len (cache p2) + length late \<le> unat (max_cache_entries p2)"
    using room inv2(2) c1 by (simp add: observe_cache [OF e(2) obs] hm_len_fmupd pool_config_def)
  have pol2: "policy p2 = policy p" using inv2(2) pol by (simp add: pool_config_def)
  have unstreamed: "t |\<notin>| streamed_targets ?p1"
    using e(2,4) by (auto simp: pool_inv_def cache_ok_def)
  have late: "pool_outputs A it (arrive late) p2 =
      (if late = [] \<or> t |\<in>| streamed_targets p2 then [] else [opportunity_of t tx])
        @ map (bid_of A (policy p) t) late"
    using late_phase [OF inv2(1) _ c2 len2, of A it] bids(1) by (simp add: pol2)
  have now: "reinjections res = (if early = [] then [] else opportunity_of t tx # map (bid_of A (policy p) t) early)
      \<and> (t |\<in>| streamed_targets p2 \<longleftrightarrow> early \<noteq> [])"
  proof (cases "early = []")
    case True
    then have "fmlookup (pending ?p1) t = None"
      using e(2,6) no_empty_vecD [of "pending ?p1" t]
      by (cases "fmlookup (pending ?p1) t") (auto simp: vec_of_def pool_inv_def)
    note ob = observe_vanilla [OF target [folded pol(1)] this, where now = now]
    have "reinjections res = []" "streamed_targets p2 = streamed_targets ?p1"
      using ob obs c1(2) by (simp_all add: default_result_def)
    then show ?thesis using True unstreamed by simp
  next
    case False
    then have "fmlookup (pending ?p1) t = Some (map (parked_of A (policy p) t) early)"
      using e(6) by (cases "fmlookup (pending ?p1) t") (simp_all add: vec_of_def)
    note ob = observe_target [OF target [folded pol(1)] this refl, where now = now]
    have opp: "opportunity (insert_cache t tx now ?p1) t = [opportunity_of t tx]"
      using unstreamed by (simp add: opportunity_def opportunity_of_def c1)
    have "reinjections res = opportunity_of t tx # map (bid_of A (policy p) t) early"
      using ob obs opp by (simp add: bid_reinjection_parked)
    moreover have "t |\<in>| streamed_targets p2"
      using ob obs c1 by (auto simp: mark_streamed_def)
    ultimately show ?thesis using False by simp
  qed
  show ?thesis
    using e(1) now late obs bids(2) by (simp add: pool_outputs_append)
qed

subsection \<open>A transaction observed right after a prune is cached\<close>

text \<open>
  Eviction pops the order queue: a stale entry of the new hash at its front would throw the new
  transaction out. After a prune the front of the queue is cached, so this cannot happen.
\<close>

lemma evict_cache_head:
  assumes "old \<noteq> h" "fmlookup c old \<noteq> None" "hm_len c \<le> Suc (unat mx)" "fmlookup c h = Some e"
    and "evict_cache mx c (old # ord) st = (c', ord', st')"
  shows "fmlookup c' h = Some e"
proof (cases "unat mx < hm_len c")
  case True
  have "hm_len (fmdrop old c) \<le> unat mx"
    using assms(2,3) by (auto simp: hm_len_fmdrop)
  then have "evict_cache mx (fmdrop old c) ord (st |-| {|old|}) = (fmdrop old c, ord, st |-| {|old|})"
    by (cases ord) auto
  then show ?thesis using assms True by auto
qed (use assms in auto)

text \<open>The loops over the cached hashes drop a streamed mark only with its entry.\<close>

lemma evict_cache_streams:
  "evict_cache mx c ord st = (c', ord', st') \<Longrightarrow>
     fset (fmdom c') \<subseteq> fset (fmdom c) \<and> fset st' \<subseteq> fset st \<and> fset st \<inter> fset (fmdom c') \<subseteq> fset st'"
  by (induction mx c ord st rule: evict_cache.induct) (auto split: if_splits option.splits)

lemma prune_cache_streams:
  "prune_cache d now c ord st = (c', ord', st') \<Longrightarrow>
     fset (fmdom c') \<subseteq> fset (fmdom c) \<and> fset st \<inter> fset (fmdom c') \<subseteq> fset st'"
  by (induction d now c ord st rule: prune_cache.induct) (auto split: if_splits option.splits)

lemma insert_cache_streams:
  "fset (streamed_targets (insert_cache h tx now p)) \<subseteq> fset (streamed_targets p)"
  "fset (streamed_targets p) \<inter> fset (fmdom (cache (insert_cache h tx now p)))
     \<subseteq> fset (streamed_targets (insert_cache h tx now p))"
proof -
  let ?c = "fmupd h \<lparr>ct_tx = tx, ct_seen_at = now\<rparr> (cache p)"
  let ?ord = "if fmlookup (cache p) h = None then cache_order p @ [h] else cache_order p"
  obtain c' ord' st' where
    ev: "evict_cache (max_cache_entries p) ?c ?ord (streamed_targets p) = (c', ord', st')"
    using prod_cases3 by blast
  have "insert_cache h tx now p = p\<lparr>cache := c', cache_order := ord', streamed_targets := st'\<rparr>"
    by (simp add: insert_cache_def ev)
  then show "fset (streamed_targets (insert_cache h tx now p)) \<subseteq> fset (streamed_targets p)"
    "fset (streamed_targets p) \<inter> fset (fmdom (cache (insert_cache h tx now p)))
     \<subseteq> fset (streamed_targets (insert_cache h tx now p))"
    using evict_cache_streams [OF ev] by simp_all
qed

lemma fresh_insert_kept:
  assumes inv: "pool_inv p" and front: "cache_order p = [] \<or> fmlookup (cache p) (hd (cache_order p)) \<noteq> None"
  shows "fmlookup (cache (insert_cache h tx now p)) h = Some \<lparr>ct_tx = tx, ct_seen_at = now\<rparr>"
proof (cases "fmlookup (cache p) h \<noteq> None \<or> hm_len (cache p) < unat (max_cache_entries p)")
  case True
  then show ?thesis using inv by (subst insert_cache_room) (auto simp: pool_inv_def)
next
  case False
  let ?e = "\<lparr>ct_tx = tx, ct_seen_at = now\<rparr>"
  let ?c = "fmupd h ?e (cache p)"
  have h: "fmlookup (cache p) h = None" and full: "hm_len (cache p) = unat (max_cache_entries p)"
    using False inv by (auto simp: pool_inv_def)
  have "cache_order p \<noteq> []"
  proof
    assume "cache_order p = []"
    then have "fmdom (cache p) = {||}"
      using inv by (auto simp: pool_inv_def cache_ok_def)
    then have "hm_len (cache p) = 0" by (simp add: hm_len_def)
    then show False using full inv by (simp add: pool_inv_def)
  qed
  then obtain old ord where ord: "cache_order p = old # ord" by (cases "cache_order p") auto
  have old: "fmlookup (cache p) old \<noteq> None" using front ord by simp
  then have "old \<noteq> h" using h by auto
  obtain c' ord' st' where ev: "evict_cache (max_cache_entries p) ?c (old # ord @ [h]) (streamed_targets p) = (c', ord', st')"
    using prod_cases3 by blast
  have "fmlookup c' h = Some ?e"
    using \<open>old \<noteq> h\<close> old full h by (intro evict_cache_head [OF _ _ _ _ ev]) (auto simp: hm_len_fmupd)
  then show ?thesis by (simp add: insert_cache_def h ord ev del: evict_cache.simps)
qed

lemma fresh_after_prune:
  assumes "pool_inv p" "prune now p = (ex, p')"
  shows "fmlookup (cache (insert_cache h tx now' p')) h = Some \<lparr>ct_tx = tx, ct_seen_at = now'\<rparr>"
  using fresh_insert_kept [OF prune_inv(1,5) [OF assms]] .

text \<open>So the bids that waited for it always go out behind it.\<close>

lemma target_flush:
  assumes inv: "pool_inv p" and pr: "prune now p = (ex, p')"
    and target: "\<not> to_gateway A (policy p) tx" "fmlookup (pending p') h = Some bids"
    and fresh: "h |\<notin>| fmdom (cache p')"
  shows "fst (observe_at A h tx now' p') =
    default_result\<lparr>reinjections := opportunity_of h tx # map (bid_reinjection h) bids,
      pairs_matched := of_nat (length bids)\<rparr>"
proof -
  let ?p1 = "insert_cache h tx now' p'"
  have pol: "policy p' = policy p"
    using prune_inv(2) [OF inv pr] by (simp add: pool_config_def)
  have "h |\<notin>| streamed_targets p'"
    using prune_inv(1) [OF inv pr] fresh by (auto simp: pool_inv_def cache_ok_def)
  moreover note insert_cache_streams(1) [of h tx now' p']
  ultimately have "h |\<notin>| streamed_targets ?p1" by auto
  then have "opportunity ?p1 h = [opportunity_of h tx]"
    using fresh_after_prune [OF inv pr, of h tx now'] by (simp add: opportunity_def opportunity_of_def)
  then show ?thesis
    using observe_target [OF _ target(2) refl] target(1) pol by simp
qed

subsection \<open>A target goes out once while it stays cached\<close>

lemma insert_cache_streamed:
  assumes "t |\<in>| streamed_targets p" "t |\<in>| fmdom (cache (insert_cache h tx now p))"
  shows "t |\<in>| streamed_targets (insert_cache h tx now p)"
  using assms insert_cache_streams(2) [of p h tx now] by auto

lemma observe_streamed:
  assumes inv: "pool_inv p" and obs: "observe_at A h tx now p = (res, p')"
    and t: "t |\<in>| streamed_targets p" "t |\<in>| fmdom (cache p')"
  shows "t |\<in>| streamed_targets p'"
    "opportunity (insert_cache h tx now p) t = []"
proof -
  have s: "t |\<in>| streamed_targets (insert_cache h tx now p)"
    using insert_cache_streamed [OF t(1), of h tx now] t(2) by (simp add: observe_cache [OF inv obs])
  then show "opportunity (insert_cache h tx now p) t = []" by (simp add: opportunity_def)
  show "t |\<in>| streamed_targets p'"
  proof (cases rule: observe_cases [where A = A and p = p and tx = tx and h = h and now = now])
    case (parked call ev p2)
    then show ?thesis
      using obs s push_pending_inv(4) [OF insert_cache_inv(1) [OF inv] parked(5)]
      by (simp add: observe_parked [OF parked(1,2,3) refl parked(4,5)])
  qed (use obs s in \<open>auto simp: observe_invalid observe_tob observe_paired [OF _ _ _ refl]
        observe_target [OF _ _ refl] observe_vanilla mark_streamed_def\<close>)
qed

lemma prune_streamed:
  assumes "t |\<in>| streamed_targets p" "t |\<in>| fmdom (cache (snd (prune now p)))"
  shows "t |\<in>| streamed_targets (snd (prune now p))"
proof -
  obtain ex p' where pr: "prune now p = (ex, p')" by fastforce
  obtain c cord st pend pord cnt where
    pc: "prune_cache (ttl p) now (cache p) (cache_order p) (streamed_targets p) = (c, cord, st)"
    and p': "p' = p\<lparr>cache := c, cache_order := cord, streamed_targets := st,
           pending := pend, pending_order := pord, pending_count := cnt\<rparr>"
    using pr by (rule prune_elim)
  show ?thesis using assms prune_cache_streams [OF pc] by (auto simp: pr p')
qed

text \<open>Along a history after which \<open>t\<close> is cached at every step, its opportunity is in at most one
  of the results.\<close>

fun cached_throughout :: "'tx alloy \<Rightarrow> ('tx bid_map \<Rightarrow> txhash list) \<Rightarrow> txhash \<Rightarrow> 'tx pool_call list \<Rightarrow>
    'tx pending_pool \<Rightarrow> bool" where
  "cached_throughout A it t [] p \<longleftrightarrow> True"
| "cached_throughout A it t (c # calls) p \<longleftrightarrow>
     t |\<in>| fmdom (cache (pool_apply A it c p)) \<and> cached_throughout A it t calls (pool_apply A it c p)"

definition is_opportunity :: "txhash \<Rightarrow> 'tx reinjection \<Rightarrow> bool" where
  "is_opportunity t r \<longleftrightarrow> rj_hash r = t \<and> rj_priority r = encode_opportunity_priority t"

lemma opportunity_has_marker:
  "encode_tob_priority s \<noteq> encode_opportunity_priority t"
  "encode_backrun_bid_priority u s \<noteq> encode_opportunity_priority t"
  using decode_opportunity [of t] decode_tob [of s] decode_bid [of u s] by (metis slot.distinct)+

lemma opportunity_not_small: "unat x < 2 ^ 128 \<Longrightarrow> x \<noteq> encode_opportunity_priority t"
  by (auto simp: unat_encoding)

text \<open>The opportunities for \<open>t\<close> in one result are those of \<open>emit_opportunity_once\<close>.\<close>

lemma observe_opportunities:
  assumes inv: "pool_inv p" and fb: "unat (fallback p) < 2 ^ 128"
    and obs: "observe_at A h tx now p = (res, p')"
  shows "length (filter (is_opportunity t) (reinjections res)) \<le> 1"
    "filter (is_opportunity t) (reinjections res) \<noteq> [] \<Longrightarrow> t |\<in>| streamed_targets p'"
    "opportunity (insert_cache h tx now p) t = [] \<Longrightarrow> filter (is_opportunity t) (reinjections res) = []"
proof -
  let ?p1 = "insert_cache h tx now p"
  have bids: "filter (is_opportunity t) (map (bid_reinjection u) bs) = []" for u bs
    by (auto simp: filter_empty_conv is_opportunity_def bid_reinjection_def opportunity_has_marker)
  have opp: "filter (is_opportunity t) (opportunity ?p1 u) = (if u = t then opportunity ?p1 t else [])" for u
    by (auto simp: opportunity_def is_opportunity_def split: option.splits)
  have one: "length (opportunity ?p1 t) \<le> 1"
    by (simp add: opportunity_def split: option.splits)
  have mark: "opportunity ?p1 t \<noteq> [] \<Longrightarrow> t |\<in>| streamed_targets (mark_streamed t ?p1)"
    by (auto simp: opportunity_def mark_streamed_def fmlookup_dom_iff split: option.splits if_splits)
  have "length (filter (is_opportunity t) (reinjections res)) \<le> 1
    \<and> (filter (is_opportunity t) (reinjections res) \<noteq> [] \<longrightarrow> t |\<in>| streamed_targets p')
    \<and> (opportunity ?p1 t = [] \<longrightarrow> filter (is_opportunity t) (reinjections res) = [])"
  proof (cases rule: observe_cases [where A = A and p = p and tx = tx and h = h and now = now])
    case (tob call)
    let ?prio = "if compute_priority A tx (policy p) = 0 then fallback p
      else encode_tob_priority (compute_priority A tx (policy p))"
    have "reinjections res = [\<lparr>rj_hash = h, rj_tx = tx, rj_priority = ?prio\<rparr>]"
      using obs tob by (auto simp: observe_tob)
    moreover have "?prio \<noteq> encode_opportunity_priority t"
      using opportunity_not_small [OF fb] by (auto simp: opportunity_has_marker)
    ultimately have "filter (is_opportunity t) (reinjections res) = []"
      by (simp only: is_opportunity_def filter.simps pending_bid.simps reinjection.simps) simp
    then show ?thesis by simp
  next
    case (paired call)
    then show ?thesis
      using obs opp [of "target_tx_hash call"] one mark
      by (cases "target_tx_hash call = t")
         (auto simp: observe_paired [OF paired(1,2,3) refl paired(4)] is_opportunity_def opportunity_has_marker)
  next
    case (target waiting)
    have ob: "reinjections res = opportunity ?p1 h @ map (bid_reinjection h) waiting"
      "streamed_targets p' = streamed_targets (mark_streamed h ?p1)"
      using obs observe_target [OF target refl, where now = now] by (auto simp del: map_eq_conv)
    have "filter (is_opportunity t) (reinjections res) = (if h = t then opportunity ?p1 t else [])"
      unfolding ob filter_append opp bids by simp
    then show ?thesis using one mark ob(2) by (cases "h = t") auto
  qed (use obs in \<open>auto simp: observe_invalid observe_parked [OF _ _ _ refl] observe_vanilla default_result_def\<close>)
  then show "length (filter (is_opportunity t) (reinjections res)) \<le> 1"
    "filter (is_opportunity t) (reinjections res) \<noteq> [] \<Longrightarrow> t |\<in>| streamed_targets p'"
    "opportunity ?p1 t = [] \<Longrightarrow> filter (is_opportunity t) (reinjections res) = []"
    by blast+
qed

lemma pool_apply_streamed:
  assumes "pool_inv p" "t |\<in>| streamed_targets p" "t |\<in>| fmdom (cache (pool_apply A it c p))"
  shows "t |\<in>| streamed_targets (pool_apply A it c p)"
proof (cases c)
  case (Observe h tx now)
  then show ?thesis
    using assms observe_streamed(1) [OF assms(1), of A h tx now]
    by (cases "observe_at A h tx now p") simp
next
  case (Prune now)
  then show ?thesis using assms prune_streamed [of t p now] by simp
next
  case (Forget h)
  then show ?thesis
    using assms by (cases rule: forget_elim [of it h p]) (auto split: if_splits)
qed

lemma streamed_silent:
  assumes "pool_inv p" "unat (fallback p) < 2 ^ 128" "t |\<in>| streamed_targets p" "cached_throughout A it t calls p"
  shows "filter (is_opportunity t) (pool_outputs A it calls p) = []"
  using assms
proof (induction calls arbitrary: p)
  case (Cons c calls)
  let ?p' = "pool_apply A it c p"
  have inv: "pool_inv ?p'" "fallback ?p' = fallback p"
    using pool_apply_inv [OF Cons.prems(1), of A it c] by (simp_all add: pool_config_def)
  have "t |\<in>| streamed_targets ?p'"
    using pool_apply_streamed [OF Cons.prems(1,3)] Cons.prems(4) by simp
  then have rest: "filter (is_opportunity t) (pool_outputs A it calls ?p') = []"
    using Cons.IH [OF inv(1)] inv(2) Cons.prems by simp
  show ?case
  proof (cases c)
    case (Observe h tx now)
    obtain res p' where obs: "observe_at A h tx now p = (res, p')" by fastforce
    have "opportunity (insert_cache h tx now p) t = []"
      using observe_streamed(2) [OF Cons.prems(1) obs Cons.prems(3)] Cons.prems(4) by (simp add: Observe obs)
    then show ?thesis
      using observe_opportunities(3) [OF Cons.prems(1,2) obs] rest by (simp add: Observe obs)
  qed (use rest in simp_all)
qed simp

lemma streamed_once:
  assumes "pool_inv p" "unat (fallback p) < 2 ^ 128" "cached_throughout A it t calls p"
  shows "length (filter (is_opportunity t) (pool_outputs A it calls p)) \<le> 1"
  using assms
proof (induction calls arbitrary: p)
  case (Cons c calls)
  let ?p' = "pool_apply A it c p"
  have inv: "pool_inv ?p'" "fallback ?p' = fallback p"
    using pool_apply_inv [OF Cons.prems(1), of A it c] by (simp_all add: pool_config_def)
  have rest: "length (filter (is_opportunity t) (pool_outputs A it calls ?p')) \<le> 1"
    using Cons.IH [OF inv(1)] inv(2) Cons.prems by simp
  show ?case
  proof (cases c)
    case (Observe h tx now)
    obtain res p' where obs: "observe_at A h tx now p = (res, p')" by fastforce
    note o = observe_opportunities [OF Cons.prems(1,2) obs, of t]
    show ?thesis
    proof (cases "filter (is_opportunity t) (reinjections res) = []")
      case True
      then show ?thesis using rest by (simp add: Observe obs)
    next
      case False
      then have "t |\<in>| streamed_targets ?p'" using o(2) by (simp add: Observe obs)
      then have "filter (is_opportunity t) (pool_outputs A it calls ?p') = []"
        using inv Cons.prems by (intro streamed_silent) auto
      then show ?thesis using o(1) by (simp add: Observe obs)
    qed
  qed (use rest in simp_all)
qed simp

subsection \<open>The counters account for every parked bid\<close>

lemma unat_of_nat_total: "pool_inv p \<Longrightarrow> n \<le> Suc (hm_total (pending p)) \<Longrightarrow> unat (of_nat n :: u64) = n"
  by (rule unat_of_nat_bounded) (auto simp: pool_inv_def)

lemma observe_accounting:
  assumes inv: "pool_inv p" and obs: "observe_at A h tx now p = (res, p')"
  shows "to_gateway A (policy p) tx \<Longrightarrow>
      unat (pending_len p') + unat (bids_evicted res) = unat (pending_len p) + unat (bids_pended res)"
    "\<not> to_gateway A (policy p) tx \<Longrightarrow>
      unat (pending_len p') + unat (pairs_matched res) = unat (pending_len p)
      \<and> bids_evicted res = 0 \<and> bids_pended res = 0"
proof -
  have cnt: "unat (pending_count p) = hm_total (pending p)"
    using inv by (simp add: pool_inv_def bids_ok_def)
  note inv' = observe_inv(1) [OF inv obs]
  have cnt': "unat (pending_count p') = hm_total (pending p')"
    using inv' by (simp add: pool_inv_def bids_ok_def)
  show "unat (pending_len p') + unat (bids_evicted res) = unat (pending_len p) + unat (bids_pended res)"
    if "to_gateway A (policy p) tx"
  proof (cases rule: observe_cases [where A = A and p = p and tx = tx and h = h and now = now])
    case (parked call ev p2)
    let ?p1 = "insert_cache h tx now p"
    have eq: "p' = p2" "bids_evicted res = ev" "bids_pended res = 1"
      using obs observe_parked [OF parked(1,2,3) refl parked(4,5)] by auto
    note push = push_pending_inv(6,7) [OF insert_cache_inv(1) [OF inv] parked(5)]
    have "unat ev = Suc (hm_total (pending p)) - hm_total (pending p2)"
      using push(1) unat_of_nat_total [OF inv] by simp
    then show ?thesis
      using push(2) cnt cnt' by (simp add: eq pending_len_def)
  qed (use that obs insert_cache_inv(5) [OF inv, of h tx now] in
      \<open>auto simp: observe_invalid observe_tob observe_paired [OF _ _ _ refl] pending_len_def default_result_def\<close>)
  show "unat (pending_len p') + unat (pairs_matched res) = unat (pending_len p)
      \<and> bids_evicted res = 0 \<and> bids_pended res = 0"
    if vanilla: "\<not> to_gateway A (policy p) tx"
  proof (cases "fmlookup (pending p) h")
    case None
    then show ?thesis
      using obs vanilla insert_cache_inv(5) [OF inv, of h tx now]
      by (auto simp: observe_vanilla pending_len_def default_result_def)
  next
    case (Some bids)
    have len: "length bids \<le> hm_total (pending p)"
      using vec_of_le_total [of "pending p" h] Some by (simp add: vec_of_lookup)
    have eq: "pending_count p' = pending_count p - of_nat (length bids)"
      "pairs_matched res = of_nat (length bids)" "bids_evicted res = 0" "bids_pended res = 0"
      using obs observe_target [OF vanilla Some refl, where now = now] insert_cache_inv(5) [OF inv, of h tx now]
      by (auto simp: default_result_def)
    have "unat (pending_count p') = unat (pending_count p) - length bids"
      unfolding eq using len cnt by (intro unat_sub_of_nat) simp
    moreover have "unat (pairs_matched res) = length bids"
      unfolding eq using len by (intro unat_of_nat_total [OF inv]) simp
    ultimately show ?thesis using len cnt eq by (simp add: pending_len_def)
  qed
qed

lemma prune_accounting:
  assumes inv: "pool_inv p" and pr: "prune now p = (ex, p')"
  shows "unat (pending_len p') + unat ex = unat (pending_len p)"
proof -
  note pi = prune_inv [OF inv pr]
  have "unat (pending_count p) = hm_total (pending p)" "unat (pending_count p') = hm_total (pending p')"
    using inv pi(1) by (simp_all add: pool_inv_def bids_ok_def)
  moreover have "unat ex = hm_total (pending p) - hm_total (pending p')"
    unfolding pi(7) by (rule unat_of_nat_total [OF inv]) simp
  ultimately show ?thesis using pi(8) by (simp add: pending_len_def)
qed

end
