(* ===== verification/Pool_Expiry.thy ===== *)
theory Pool_Expiry
  imports Pool_Pairing
begin

section \<open>Expiry\<close>

text \<open>
  What a prune takes and what it keeps. It never takes a parked bid or a cached transaction younger
  than the time to live, whatever the pool; along a history of hashes observed once it takes every
  parked bid that is as old.
\<close>

subsection \<open>What is young stays\<close>

definition young :: "duration \<Rightarrow> instant \<Rightarrow> 'tx pending_bid \<Rightarrow> bool" where
  "young d now = (\<lambda>b. now - pb_seen_at b < d)"

lemma filter_vec_remove:
  "i < length v \<Longrightarrow> \<not> Q (v ! i) \<Longrightarrow> filter Q (vec_remove i v) = filter Q v"
proof (induction v arbitrary: i)
  case (Cons x v)
  then show ?case by (cases i) auto
qed simp

lemma prune_pending_young:
  assumes "prune_pending d now pend ord cnt ex = (pend', ord', cnt', ex')"
  shows "filter (young d now) (vec_of pend' k) = filter (young d now) (vec_of pend k)
    \<and> length (vec_of pend' k) \<le> length (vec_of pend k)"
  using assms
proof (induction d now pend ord cnt ex rule: prune_pending.induct)
  case (2 d now pend t h ord cnt ex)
  consider (stale) "position (same_hash h) (vec_of pend t) = None"
    | (keep) v i where "fmlookup pend t = Some v" "position (same_hash h) v = Some i"
        "\<not> d \<le> now - pb_seen_at (v ! i)"
    | (take) v i where "fmlookup pend t = Some v" "position (same_hash h) v = Some i"
        "d \<le> now - pb_seen_at (v ! i)"
    by (cases "fmlookup pend t") (fastforce simp: vec_of_def)+
  then show ?case
  proof cases
    case stale
    then show ?thesis
      using 2 by (cases "fmlookup pend t") (auto simp: vec_of_def position_same_hash)
  next
    case keep
    with 2 show ?thesis by (auto simp: position_same_hash)
  next
    case (take v i)
    let ?pend = "set_vec t (vec_remove i v) pend"
    have i: "i < length v" "\<not> young d now (v ! i)"
      using take(2,3) position_Some_bound by (auto simp: young_def)
    have run: "prune_pending d now ?pend ord (cnt - 1) (ex + 1) = (pend', ord', cnt', ex')"
      using "2.prems" take by (simp add: position_same_hash take_update Let_def)
    have "filter (young d now) (vec_of pend' k) = filter (young d now) (vec_of ?pend k)
        \<and> length (vec_of pend' k) \<le> length (vec_of ?pend k)"
      using "2.IH"(3) [of v i "vec_remove i v"] take run by (simp add: position_same_hash take_update)
    moreover have "filter (young d now) (vec_of ?pend k) = filter (young d now) (vec_of pend k)"
      using filter_vec_remove [OF i(1), of "young d now"] i(2) take(1) by (simp add: vec_of_lookup)
    moreover have "length (vec_of ?pend k) \<le> length (vec_of pend k)"
      using take(1) by (auto simp: vec_of_lookup vec_remove_def)
    ultimately show ?thesis by simp
  qed
qed auto

lemma prune_cache_young:
  assumes "prune_cache d now c ord st = (c', ord', st')" "fmlookup c k = Some e" "now - ct_seen_at e < d"
  shows "fmlookup c' k = Some e"
  using assms
proof (induction d now c ord st rule: prune_cache.induct)
  case (2 d now c front ord st)
  show ?case
  proof (cases "fmlookup c front")
    case None
    then show ?thesis using "2.IH"(1) [OF None] "2.prems" by simp
  next
    case (Some f)
    show ?thesis
    proof (cases "d \<le> now - ct_seen_at f")
      case True
      then have "front \<noteq> k" using Some "2.prems"(2,3) by auto
      then show ?thesis using "2.IH"(2) [OF Some True] "2.prems" Some True by simp
    next
      case False
      then show ?thesis using "2.prems" Some by simp
    qed
  qed
qed simp

lemma prune_young:
  assumes "prune now p = (ex, p')"
  shows "filter (young (ttl p) now) (vec_of (pending p') k) = filter (young (ttl p) now) (vec_of (pending p) k)"
    "length (vec_of (pending p') k) \<le> length (vec_of (pending p) k)"
    "fmlookup (cache p) k = Some c \<Longrightarrow> now - ct_seen_at c < ttl p \<Longrightarrow> fmlookup (cache p') k = Some c"
proof -
  obtain c' cord st pend pord cnt where
    pc: "prune_cache (ttl p) now (cache p) (cache_order p) (streamed_targets p) = (c', cord, st)"
    and pp: "prune_pending (ttl p) now (pending p) (pending_order p) (pending_count p) 0 = (pend, pord, cnt, ex)"
    and p': "p' = p\<lparr>cache := c', cache_order := cord, streamed_targets := st,
           pending := pend, pending_order := pord, pending_count := cnt\<rparr>"
    using assms by (rule prune_elim)
  show "filter (young (ttl p) now) (vec_of (pending p') k) = filter (young (ttl p) now) (vec_of (pending p) k)"
    "length (vec_of (pending p') k) \<le> length (vec_of (pending p) k)"
    using prune_pending_young [OF pp, of k] by (simp_all add: p')
  show "fmlookup (cache p) k = Some c \<Longrightarrow> now - ct_seen_at c < ttl p \<Longrightarrow> fmlookup (cache p') k = Some c"
    using prune_cache_young [OF pc] by (simp add: p')
qed

lemma prune_cache_streamed_subset:
  "prune_cache d now c ord st = (c', ord', st') \<Longrightarrow> fset st' \<subseteq> fset st"
  by (induction d now c ord st rule: prune_cache.induct) (auto split: if_splits option.splits)

lemma prune_streamed_subset:
  assumes "prune now p = (ex, p')"
  shows "fset (streamed_targets p') \<subseteq> fset (streamed_targets p)"
proof -
  obtain c cord st pend pord cnt where
    pc: "prune_cache (ttl p) now (cache p) (cache_order p) (streamed_targets p) = (c, cord, st)"
    and p': "p' = p\<lparr>cache := c, cache_order := cord, streamed_targets := st,
           pending := pend, pending_order := pord, pending_count := cnt\<rparr>"
    using assms by (rule prune_elim)
  show ?thesis using prune_cache_streamed_subset [OF pc] by (simp add: p')
qed

lemma prune_keeps_young:
  assumes "prune now p = (ex, p')" "\<forall>b \<in> set (vec_of (pending p) k). young (ttl p) now b"
  shows "vec_of (pending p') k = vec_of (pending p) k"
proof -
  let ?v = "vec_of (pending p) k" and ?v' = "vec_of (pending p') k"
  have "filter (young (ttl p) now) ?v' = ?v"
    using prune_young(1) [OF assms(1), of k] assms(2) by simp
  moreover have "length (filter (young (ttl p) now) ?v') \<le> length ?v'" by (rule length_filter_le)
  ultimately show ?thesis
    using prune_young(2) [OF assms(1), of k] by (metis filter_id_conv length_filter_less linorder_not_le nat_less_le)
qed

subsection \<open>Along a history, exactly the expired bids go\<close>

text \<open>The instants of a sequence of calls do not decrease, from \<open>m\<close> on.\<close>

fun clock_ok :: "instant \<Rightarrow> 'tx pool_call list \<Rightarrow> bool" where
  "clock_ok m [] \<longleftrightarrow> True"
| "clock_ok m (Observe h tx now # calls) \<longleftrightarrow> m \<le> now \<and> clock_ok now calls"
| "clock_ok m (Prune now # calls) \<longleftrightarrow> m \<le> now \<and> clock_ok now calls"
| "clock_ok m (Forget h # calls) \<longleftrightarrow> clock_ok m calls"

definition parked_in_order :: "instant \<Rightarrow> 'tx parked \<Rightarrow> bool" where
  "parked_in_order m q \<longleftrightarrow> sorted (map pb_seen_at q) \<and> (\<forall>b \<in> set q. pb_seen_at b \<le> m)"

lemma parked_in_order_filter: "parked_in_order m q \<Longrightarrow> parked_in_order m (filter P q)"
  by (simp add: parked_in_order_def sorted_filter)

lemma parked_in_order_suffix: "parked_in_order m (q @ r) \<Longrightarrow> parked_in_order m r"
  by (simp add: parked_in_order_def sorted_append)

lemma parked_in_order_drop: "parked_in_order m q \<Longrightarrow> parked_in_order m (drop n q)"
  by (metis append_take_drop_id parked_in_order_suffix)

lemma parked_in_order_dropWhile: "parked_in_order m q \<Longrightarrow> parked_in_order m (dropWhile P q)"
  by (metis dropWhile_eq_drop parked_in_order_drop)

lemma parked_in_order_later: "parked_in_order m q \<Longrightarrow> m \<le> n \<Longrightarrow> parked_in_order n q"
  by (auto simp: parked_in_order_def)

lemma parked_in_order_snoc:
  "parked_in_order m q \<Longrightarrow> m \<le> pb_seen_at b \<Longrightarrow> parked_in_order (pb_seen_at b) (q @ [b])"
  by (auto simp: parked_in_order_def sorted_append)

lemma spec_observe_in_order:
  assumes "parked_in_order m q" "m \<le> now"
  shows "parked_in_order now (spec_observe A pol n cached h tx now q)"
proof -
  have "parked_in_order now (q @ [new_bid A pol h tx now call])" for call
    using parked_in_order_snoc [OF assms(1), of "new_bid A pol h tx now call"] assms(2)
    by (simp add: new_bid_def)
  then have "parked_in_order now (spec_park n (new_bid A pol h tx now call) q)" for call
    unfolding spec_park_def by (rule parked_in_order_drop)
  then show ?thesis
    using parked_in_order_later [OF assms]
    by (simp add: spec_observe_def spec_match_def parked_in_order_filter split: option.split)
qed

lemma spec_run_in_order:
  "parked_in_order m q \<Longrightarrow> clock_ok m calls \<Longrightarrow> \<exists>m'. parked_in_order m' (spec_run A it calls p q)"
proof (induction calls arbitrary: m p q)
  case (Cons c calls)
  show ?case
  proof (cases c)
    case (Observe h tx now)
    then show ?thesis
      using Cons.IH [OF spec_observe_in_order [OF Cons.prems(1), of now]] Cons.prems(2)
      by (simp add: Let_def)
  next
    case (Prune now)
    then show ?thesis
      using Cons.IH [OF parked_in_order_dropWhile [OF parked_in_order_later [OF Cons.prems(1), of now]]]
        Cons.prems(2) by (simp add: Let_def spec_expire_def)
  next
    case (Forget h)
    then show ?thesis
      using Cons.IH [OF parked_in_order_filter [OF Cons.prems(1)]] Cons.prems(2)
      by (simp add: Let_def spec_forget_def)
  qed
qed auto

text \<open>On a list in the order of its instants, dropping the expired front drops all that expired.\<close>

lemma spec_expire_all:
  assumes "parked_in_order m q"
  shows "spec_expire d now q = filter (\<lambda>b. now - pb_seen_at b < d) q"
  using assms
proof (induction q)
  case Nil
  then show ?case by (simp add: spec_expire_def)
next
  case (Cons b q)
  have tail: "parked_in_order m q"
    using Cons.prems by (auto simp: parked_in_order_def)
  show ?case
  proof (cases "d \<le> now - pb_seen_at b")
    case True
    then show ?thesis using Cons.IH [OF tail] by (simp add: spec_expire_def)
  next
    case False
    then have "now - pb_seen_at c < d" if "c \<in> set q" for c
      using that Cons.prems by (fastforce simp: parked_in_order_def)
    then have "filter (\<lambda>b. now - pb_seen_at b < d) q = q" by (simp add: filter_id_conv)
    then show ?thesis using False by (simp add: spec_expire_def)
  qed
qed

lemma prune_exact:
  fixes A :: "'tx alloy"
  assumes mp: "Suc (unat mp) < 2 ^ 64" and once: "observes_once {} calls" and clock: "clock_ok 0 calls"
    and it: "is_iteration it" and p: "p = pool_run A it calls (pool_new pol fb t mc mp)"
    and pr: "prune now p = (ex, p')"
  shows "vec_of (pending p') u = filter (young t now) (vec_of (pending p) u)"
proof -
  let ?new = "pool_new pol fb t mc mp" 
  let ?q = "spec_run A it calls ?new []"
  obtain D where "tracked D p ?q"
    using pool_run_tracked [OF tracked_new [OF mp] once it] unfolding p by blast
  then have r: "represents p ?q" by (simp add: tracked_def)
  have "pool_config p = pool_config (?new :: 'tx pending_pool)"
    unfolding p by (rule pool_run_inv [OF pool_inv_new [OF mp], THEN conjunct2])
  then have ttl: "ttl p = t" by (simp add: pool_config_def pool_new_def)
  obtain m where "parked_in_order m ?q"
    using spec_run_in_order [OF _ clock, of "[]" A it ?new] by (auto simp: parked_in_order_def)
  then have "represents p' (filter (young t now) ?q)"
    using prune_refines(1) [OF r pr] unfolding young_def by (simp add: ttl spec_expire_all)
  from represents_vec [OF this] represents_vec [OF r] show ?thesis
    by (simp add: spec_waiting_def) (metis filter_filter conj_commute)
qed

end
