(* ===== verification/Sent_Cache.thy ===== *)
theory Sent_Cache
  imports Bounded_Store
begin

section \<open>The reinjection-dedup cache\<close>

text \<open>
  \<open>SentCache\<close> of \<^verbatim>\<open>src/txpool_ipc.rs\<close>: the hashes already reinjected, with their
  priorities, in insertion order. \<open>remove\<close> leaves the order queue alone; stale entries are
  compacted when the queue exceeds twice the capacity. Below the operations: the contract of
  \<open>bounded_store\<close>, the abstract bounded queue they implement when no hash returns after a
  removal, and what happens when one does.
\<close>

record sent_cache =
  priorities :: "(txhash, u256) fmap"
  sent_order :: "txhash list"
  max_entries :: usize

definition sent_new :: "usize \<Rightarrow> sent_cache" where
  "sent_new n = \<lparr>priorities = fmempty, sent_order = [], max_entries = max n 1\<rparr>"

definition sent_contains :: "sent_cache \<Rightarrow> txhash \<Rightarrow> bool" where
  "sent_contains s hash \<longleftrightarrow> hash |\<in>| fmdom (priorities s)"

definition sent_len :: "sent_cache \<Rightarrow> nat" where
  "sent_len s = hm_len (priorities s)"

text \<open>The eviction loop: the map, the order queue and the count of evicted entries.\<close>

fun sent_evict :: "usize \<Rightarrow> (txhash, u256) fmap \<Rightarrow> txhash list \<Rightarrow> u64 \<Rightarrow>
    (txhash, u256) fmap \<times> txhash list \<times> u64" where
  "sent_evict mx prio [] evicted = (prio, [], evicted)"
| "sent_evict mx prio (oldest # order') evicted =
     (if unat mx < hm_len prio
      then (case fmlookup prio oldest of
              None \<Rightarrow> sent_evict mx prio order' evicted
            | Some _ \<Rightarrow> sent_evict mx (fmdrop oldest prio) order' (evicted + 1))
      else (prio, oldest # order', evicted))"

definition sent_insert :: "txhash \<Rightarrow> u256 \<Rightarrow> sent_cache \<Rightarrow> u64 \<times> sent_cache" where
  "sent_insert hash priority s =
     (let prio = fmupd hash priority (priorities s);
          order1 = (if fmlookup (priorities s) hash = None
                    then sent_order s @ [hash] else sent_order s);
          order2 = (if unat (saturating_mul (max_entries s) 2) < length order1
                    then filter (\<lambda>candidate. candidate |\<in>| fmdom prio) order1 else order1);
          (prio', order3, evicted) = sent_evict (max_entries s) prio order2 0
      in (evicted, s\<lparr>priorities := prio', sent_order := order3\<rparr>))"

definition sent_remove :: "txhash \<Rightarrow> sent_cache \<Rightarrow> sent_cache" where
  "sent_remove hash s = s\<lparr>priorities := fmdrop hash (priorities s)\<rparr>"

subsection \<open>The eviction loop\<close>

lemma sent_evict_bound:
  "fset (fmdom prio) \<subseteq> set ks \<Longrightarrow> hm_len (fst (sent_evict mx prio ks ev)) \<le> unat mx"
proof (induction mx prio ks ev rule: sent_evict.induct)
  case (1 mx prio ev)
  then have "hm_len prio = 0" by (simp add: hm_len_def fcard.rep_eq)
  then show ?case by simp
next
  case (2 mx prio oldest ks ev)
  then show ?case
    using queued_rules [OF "2.prems"] by (auto split: option.splits)
qed

lemma sent_evict_queued:
  "fset (fmdom prio) \<subseteq> set ks \<Longrightarrow> sent_evict mx prio ks ev = (prio', ks', ev') \<Longrightarrow>
     fset (fmdom prio') \<subseteq> set ks'"
proof (induction mx prio ks ev rule: sent_evict.induct)
  case (2 mx prio oldest ks ev)
  then show ?case
    using queued_rules [OF "2.prems"(1)] by (auto split: option.splits if_splits)
qed auto

lemma sent_evict_lookup:
  "sent_evict mx prio ks ev = (prio', ks', ev') \<Longrightarrow> k |\<in>| fmdom prio' \<Longrightarrow>
     k |\<in>| fmdom prio \<and> fmlookup prio' k = fmlookup prio k"
  by (induction mx prio ks ev rule: sent_evict.induct)
     (auto split: option.splits if_splits)

lemma sent_evict_suffix:
  "sent_evict mx prio ks ev = (prio', ks', ev') \<Longrightarrow> \<exists>js. ks = js @ ks'"
  by (induction mx prio ks ev rule: sent_evict.induct)
     (auto split: option.splits if_splits)

lemma sent_evict_noop: "hm_len prio \<le> unat mx \<Longrightarrow> ks \<noteq> [] \<Longrightarrow>
    sent_evict mx prio ks ev = (prio, ks, ev)"
  by (cases ks) auto

lemma sent_evict_noop_map: "hm_len prio \<le> unat mx \<Longrightarrow>
    sent_evict mx prio ks ev = (prio, ks, ev)"
  by (cases ks) auto

text \<open>On a duplicate-free queue the loop drops exactly the oldest live entries.\<close>

lemma sent_evict_live:
  assumes "distinct ks" "fset (fmdom prio) \<subseteq> set ks"
    and "sent_evict mx prio ks ev = (prio', ks', ev')"
  shows "live prio' ks' = drop (hm_len prio - unat mx) (live prio ks)
    \<and> ev' = ev + of_nat (hm_len prio - unat mx)"
  using assms
proof (induction mx prio ks ev rule: sent_evict.induct)
  case (1 mx prio ev)
  then have "hm_len prio = 0" by (simp add: hm_len_def fcard.rep_eq)
  with 1 show ?case by simp
next
  case (2 mx prio oldest ks ev)
  show ?case
  proof (cases "unat mx < hm_len prio")
    case False
    with 2 show ?thesis by (auto simp: live_def)
  next
    case over: True
    show ?thesis
    proof (cases "fmlookup prio oldest")
      case None
      then have "oldest |\<notin>| fmdom prio" by (rule fmdom_notI)
      with 2 over None queued_stale [OF "2.prems"(2) None] show ?thesis by auto
    next
      case (Some v)
      let ?prio = "fmdrop oldest prio"
      have dom: "oldest |\<in>| fmdom prio" using Some by (simp add: fmlookup_dom_iff)
      have rest: "live ?prio ks = live prio ks"
        using "2.prems"(1) by (simp add: live_fmdrop live_absent)
      have ih: "live prio' ks' = drop (hm_len ?prio - unat mx) (live ?prio ks)
          \<and> ev' = ev + 1 + of_nat (hm_len ?prio - unat mx)"
        using "2.prems" over Some by (intro "2.IH"(2)) auto
      have n: "hm_len prio - unat mx = Suc (hm_len ?prio - unat mx)"
        using over Some hm_len_pos [OF Some] by (simp add: hm_len_fmdrop)
      show ?thesis
        using ih dom by (simp add: n rest)
    qed
  qed
qed

lemma sent_evict_origin:
  assumes "distinct ks" "set ks \<subseteq> fset (fmdom prio) \<union> D"
    and "sent_evict mx prio ks ev = (prio', ks', ev')"
  shows "set ks' \<subseteq> fset (fmdom prio') \<union> D"
  using assms
proof (induction mx prio ks ev rule: sent_evict.induct)
  case (2 mx prio oldest ks ev)
  then show ?case by (fastforce split: if_splits option.splits)
qed auto

subsection \<open>Invariant and contract\<close>

definition sent_inv :: "sent_cache \<Rightarrow> bool" where
  "sent_inv s \<longleftrightarrow> fset (fmdom (priorities s)) \<subseteq> set (sent_order s)
     \<and> hm_len (priorities s) \<le> unat (max_entries s) \<and> 0 < unat (max_entries s)"

definition sent_keys :: "sent_cache \<Rightarrow> txhash set" where
  "sent_keys s = fset (fmdom (priorities s))"

lemma sent_contains_keys: "sent_contains s h \<longleftrightarrow> h \<in> sent_keys s"
  by (simp add: sent_contains_def sent_keys_def)

lemma sent_inv_new: "sent_inv (sent_new n)"
  by (simp add: sent_inv_def sent_new_def unat_max_word)

lemma sent_keys_new [simp]: "sent_keys (sent_new n) = {}"
  by (simp add: sent_keys_def sent_new_def)

text \<open>The queue that the eviction loop of \<open>insert\<close> starts from.\<close>

definition insert_queue :: "txhash \<Rightarrow> sent_cache \<Rightarrow> txhash list" where
  "insert_queue h s =
     (let order1 = (if fmlookup (priorities s) h = None then sent_order s @ [h] else sent_order s)
      in if unat (saturating_mul (max_entries s) 2) < length order1
         then live (fmupd h 0 (priorities s)) order1 else order1)"

lemma sent_insert_elim:
  assumes "sent_insert h p s = (ev, s')"
  obtains prio' ks'
  where "sent_evict (max_entries s) (fmupd h p (priorities s)) (insert_queue h s) 0 = (prio', ks', ev)"
    "s' = s\<lparr>priorities := prio', sent_order := ks'\<rparr>"
  using assms by (auto simp: sent_insert_def insert_queue_def live_def Let_def split: prod.splits if_splits)

lemma insert_queue_covers:
  "fset (fmdom (priorities s)) \<subseteq> set (sent_order s) \<Longrightarrow>
     fset (fmdom (fmupd h p (priorities s))) \<subseteq> set (insert_queue h s)"
  by (auto simp: insert_queue_def live_def Let_def fmlookup_dom_iff)

lemma sent_insert_inv:
  assumes "sent_inv s" "sent_insert h p s = (ev, s')"
  shows "sent_inv s'" "max_entries s' = max_entries s"
    "sent_keys s' \<subseteq> insert h (sent_keys s)"
proof -
  obtain prio' ks' where
    ev: "sent_evict (max_entries s) (fmupd h p (priorities s)) (insert_queue h s) 0 = (prio', ks', ev)"
    and s': "s' = s\<lparr>priorities := prio', sent_order := ks'\<rparr>"
    using assms(2) by (rule sent_insert_elim)
  have cover: "fset (fmdom (fmupd h p (priorities s))) \<subseteq> set (insert_queue h s)"
    using assms(1) by (intro insert_queue_covers) (simp add: sent_inv_def)
  have "hm_len prio' \<le> unat (max_entries s)"
    using sent_evict_bound [OF cover, of "max_entries s" 0] ev by simp
  then show "sent_inv s'"
    using assms(1) sent_evict_queued [OF cover ev] by (simp add: sent_inv_def s')
  show "max_entries s' = max_entries s" by (simp add: s')
  show "sent_keys s' \<subseteq> insert h (sent_keys s)"
    using sent_evict_lookup [OF ev] by (auto simp: sent_keys_def s')
qed

lemma sent_remove_props [simp]:
  "sent_inv s \<Longrightarrow> sent_inv (sent_remove h s)"
  "max_entries (sent_remove h s) = max_entries s"
  "sent_keys (sent_remove h s) = sent_keys s - {h}"
  by (auto simp: sent_inv_def sent_remove_def sent_keys_def hm_len_fmdrop)

interpretation sent: bounded_store sent_inv sent_keys "\<lambda>s. unat (max_entries s)"
  "\<lambda>h p s. snd (sent_insert h p s)" sent_remove
proof unfold_locales
  fix s h p
  show "unat (max_entries (snd (sent_insert h p s))) = unat (max_entries s)"
    by (simp add: sent_insert_def Let_def split: prod.splits)
  assume "sent_inv s"
  then show "sent_inv (snd (sent_insert h p s))"
    "sent_keys (snd (sent_insert h p s)) \<subseteq> insert h (sent_keys s)"
    using sent_insert_inv [of s h p] by (metis prod.collapse)+
next
  fix s
  assume "sent_inv s"
  then show "finite (sent_keys s) \<and> card (sent_keys s) \<le> unat (max_entries s)"
    by (simp add: sent_inv_def sent_keys_def hm_len_def fcard.rep_eq)
qed auto

end
