(* ===== verification/Sent_Cache_Spec.thy ===== *)
theory Sent_Cache_Spec
  imports Sent_Cache
begin

section \<open>The dedup cache against a bounded queue\<close>

text \<open>
  The specification of the dedup cache is a bounded queue of hashes with their priorities:
  a new hash goes to the end, the oldest leave when the capacity is exceeded, removal deletes.
  The cache implements it over every sequence of operations in which no hash is inserted again
  after its removal. Removal leaves a stale entry in the order queue, and a hash that returns
  meets it: the last section shows what the cache does then.
\<close>

subsection \<open>The bounded queue\<close>

type_synonym fifo = "(txhash \<times> u256) list"

definition fifo_insert :: "nat \<Rightarrow> txhash \<Rightarrow> u256 \<Rightarrow> fifo \<Rightarrow> fifo" where
  "fifo_insert n h p q =
     (if h \<in> fst ` set q then map (\<lambda>(k, v). if k = h then (k, p) else (k, v)) q
      else drop (Suc (length q) - n) (q @ [(h, p)]))"

definition fifo_remove :: "txhash \<Rightarrow> fifo \<Rightarrow> fifo" where
  "fifo_remove h q = filter (\<lambda>(k, v). k \<noteq> h) q"

definition sent_abs :: "sent_cache \<Rightarrow> fifo" where
  "sent_abs s = map (\<lambda>k. (k, the (fmlookup (priorities s) k))) (live (priorities s) (sent_order s))"

text \<open>
  The queue holds no hash twice, and a hash in it is either live or was removed (is in \<open>D\<close>).
\<close>

definition sent_clean :: "txhash set \<Rightarrow> sent_cache \<Rightarrow> bool" where
  "sent_clean D s \<longleftrightarrow> sent_inv s \<and> distinct (sent_order s)
     \<and> set (sent_order s) \<subseteq> sent_keys s \<union> D"

lemma sent_clean_new: "sent_clean D (sent_new n)"
  by (simp add: sent_clean_def sent_inv_new) (simp add: sent_new_def)

lemma sent_abs_new [simp]: "sent_abs (sent_new n) = []"
  by (simp add: sent_abs_def sent_new_def)

lemma sent_abs_keys: "sent_inv s \<Longrightarrow> fst ` set (sent_abs s) = sent_keys s"
  by (auto simp: sent_abs_def sent_inv_def sent_keys_def live_def image_image)

lemma sent_abs_remove: "sent_abs (sent_remove h s) = fifo_remove h (sent_abs s)"
  by (simp add: sent_abs_def sent_remove_def fifo_remove_def live_fmdrop filter_map o_def
      case_prod_beta cong: map_cong)

lemma sent_clean_remove: "sent_clean D s \<Longrightarrow> sent_clean (insert h D) (sent_remove h s)"
  by (auto simp: sent_clean_def) (auto simp: sent_remove_def)

subsection \<open>Insertion\<close>

lemma insert_queue_clean:
  assumes "sent_clean D s" "h \<in> sent_keys s \<or> h \<notin> D"
  shows "distinct (insert_queue h s)"
    "set (insert_queue h s) \<subseteq> fset (fmdom (fmupd h p (priorities s))) \<union> D"
    "live (fmupd h p (priorities s)) (insert_queue h s)
       = (if h \<in> sent_keys s then live (priorities s) (sent_order s)
          else live (priorities s) (sent_order s) @ [h])"
proof -
  let ?m = "fmupd h p (priorities s)"
  have inv: "distinct (sent_order s)" "set (sent_order s) \<subseteq> sent_keys s \<union> D"
    using assms(1) by (auto simp: sent_clean_def)
  define order1 where "order1 = (if fmlookup (priorities s) h = None then sent_order s @ [h] else sent_order s)"
  have fresh: "h \<notin> sent_keys s \<Longrightarrow> h \<notin> set (sent_order s)"
    using assms(2) inv(2) by auto
  have none: "fmlookup (priorities s) h = None \<longleftrightarrow> h \<notin> sent_keys s"
    by (auto simp: sent_keys_def fmlookup_dom_iff)
  have d1: "distinct order1"
    using inv(1) fresh none by (auto simp: order1_def)
  have s1: "set order1 \<subseteq> fset (fmdom ?m) \<union> D"
    using inv(2) by (auto simp: order1_def sent_keys_def)
  have dom: "live (fmupd h 0 (priorities s)) = live ?m"
    by (auto simp: live_def fun_eq_iff)
  have q: "insert_queue h s = order1 \<or> insert_queue h s = live ?m order1"
    by (auto simp: insert_queue_def order1_def dom Let_def)
  show "distinct (insert_queue h s)"
    using q d1 by (auto simp: live_def)
  show "set (insert_queue h s) \<subseteq> fset (fmdom ?m) \<union> D"
    using q s1 by (auto simp: live_def)
  have "live ?m (insert_queue h s) = live ?m order1"
    using q by (auto simp: live_def)
  also have "\<dots> = (if h \<in> sent_keys s then live (priorities s) (sent_order s)
          else live (priorities s) (sent_order s) @ [h])"
    using none fresh
    by (auto simp: order1_def live_fmupd_old live_fmupd_new sent_keys_def)
  finally show "live ?m (insert_queue h s)
       = (if h \<in> sent_keys s then live (priorities s) (sent_order s)
          else live (priorities s) (sent_order s) @ [h])" .
qed

lemma length_live_clean: "sent_clean D s \<Longrightarrow> length (live (priorities s) (sent_order s)) = hm_len (priorities s)"
  by (simp add: sent_clean_def sent_inv_def length_live)

text \<open>One insertion implements one insertion of the bounded queue.\<close>

lemma sent_insert_refines:
  assumes clean: "sent_clean D s" and ret: "h \<in> sent_keys s \<or> h \<notin> D"
    and ins: "sent_insert h p s = (ev, s')"
  shows "sent_clean D s'"
    "sent_abs s' = fifo_insert (unat (max_entries s)) h p (sent_abs s)"
    "ev = of_nat (length (sent_abs s) + (if h \<in> sent_keys s then 0 else 1) - unat (max_entries s))"
proof -
  let ?m = "fmupd h p (priorities s)" and ?q = "insert_queue h s"
  let ?live = "live (priorities s) (sent_order s)"
  obtain prio' ks' where
    ev: "sent_evict (max_entries s) ?m ?q 0 = (prio', ks', ev)"
    and s': "s' = s\<lparr>priorities := prio', sent_order := ks'\<rparr>"
    using ins by (rule sent_insert_elim)
  have inv: "sent_inv s" using clean by (simp add: sent_clean_def)
  note q = insert_queue_clean [OF clean ret]
  have cover: "fset (fmdom ?m) \<subseteq> set ?q"
    using inv by (intro insert_queue_covers) (simp add: sent_inv_def)
  have suffix: "distinct ks'"
    using sent_evict_suffix [OF ev] q(1) by auto
  show clean': "sent_clean D s'"
    using sent_evict_origin [OF q(1,2) ev] suffix sent_insert_inv(1) [OF inv ins]
    by (simp add: sent_clean_def s' sent_keys_def)
  have n: "length ?live = hm_len (priorities s)"
    by (rule length_live_clean [OF clean])
  have mem: "fmlookup (priorities s) h = None \<longleftrightarrow> h \<notin> sent_keys s"
    by (auto simp: sent_keys_def fmlookup_dom_iff)
  have lv: "live prio' ks' = drop (hm_len ?m - unat (max_entries s)) (live ?m ?q)"
    and evc: "ev = of_nat (hm_len ?m - unat (max_entries s))"
    using sent_evict_live [OF q(1) cover ev] by auto
  show "ev = of_nat (length (sent_abs s) + (if h \<in> sent_keys s then 0 else 1) - unat (max_entries s))"
    using n mem by (simp add: evc hm_len_fmupd sent_abs_def)
  have look: "map (\<lambda>k. (k, the (fmlookup prio' k))) (live prio' ks')
      = map (\<lambda>k. (k, the (fmlookup ?m k))) (live prio' ks')"
    using sent_evict_lookup [OF ev] by (intro map_cong) (auto simp: live_def)
  have "sent_abs s' = map (\<lambda>k. (k, the (fmlookup ?m k))) (live prio' ks')"
    using look by (simp add: sent_abs_def s')
  also have "\<dots> = drop (hm_len ?m - unat (max_entries s))
      (map (\<lambda>k. (k, the (fmlookup ?m k))) (live ?m ?q))"
    by (simp add: lv drop_map)
  also have "\<dots> = fifo_insert (unat (max_entries s)) h p (sent_abs s)"
  proof (cases "h \<in> sent_keys s")
    case True
    then have "hm_len ?m - unat (max_entries s) = 0"
      using inv mem by (auto simp: hm_len_fmupd sent_inv_def)
    then show ?thesis
      using True sent_abs_keys [OF inv]
      by (auto simp: fifo_insert_def sent_abs_def q(3) intro!: map_cong)
  next
    case False
    then have "h \<notin> set ?live" by (auto simp: live_def sent_keys_def)
    then have "map (\<lambda>k. (k, the (fmlookup ?m k))) ?live = sent_abs s"
      by (auto simp: sent_abs_def intro!: map_cong)
    moreover have "hm_len ?m = Suc (length (sent_abs s))"
      using False mem n by (simp add: hm_len_fmupd sent_abs_def)
    ultimately show ?thesis
      using False sent_abs_keys [OF inv] by (simp add: fifo_insert_def q(3))
  qed
  finally show "sent_abs s' = fifo_insert (unat (max_entries s)) h p (sent_abs s)" .
qed

text \<open>On a clean cache the order queue stays within twice the capacity.\<close>

lemma double_capacity: "0 < unat m \<Longrightarrow> unat m \<le> unat (saturating_mul m 2)"
  for m :: usize
  using unat_less_64 [of m] by (simp add: unat_saturating_mul)

lemma sent_insert_order_bound:
  assumes clean: "sent_clean D s" and ret: "h \<in> sent_keys s \<or> h \<notin> D"
    and ins: "sent_insert h p s = (ev, s')"
  shows "length (sent_order s') \<le> unat (saturating_mul (max_entries s) 2)"
proof -
  let ?m = "fmupd h p (priorities s)" and ?q = "insert_queue h s"
  let ?cap = "unat (saturating_mul (max_entries s) 2)"
  obtain prio' ks' where
    ev: "sent_evict (max_entries s) ?m ?q 0 = (prio', ks', ev)"
    and s': "s' = s\<lparr>priorities := prio', sent_order := ks'\<rparr>"
    using ins by (rule sent_insert_elim)
  note q = insert_queue_clean [OF clean ret]
  have inv: "sent_inv s" using clean by (simp add: sent_clean_def)
  have sub: "length ks' \<le> length ?q"
    using sent_evict_suffix [OF ev] by auto
  show ?thesis
  proof (cases "length ?q \<le> ?cap")
    case True
    then show ?thesis using sub by (simp add: s')
  next
    case False
    then have "set ?q \<subseteq> fset (fmdom ?m) \<union> {}"
      by (auto simp: insert_queue_def Let_def live_def split: if_splits)
    then have "set ks' \<subseteq> fset (fmdom prio')"
      using sent_evict_origin [OF q(1) _ ev, of "{}"] by simp
    then have "live prio' ks' = ks'"
      by (auto simp: live_def filter_id_conv subset_iff)
    moreover have "fset (fmdom ?m) \<subseteq> set ?q"
      using inv by (intro insert_queue_covers) (simp add: sent_inv_def)
    note cover = this
    moreover have "distinct ks'"
      using sent_evict_suffix [OF ev] q(1) by auto
    ultimately have "length ks' = hm_len prio'"
      using length_live [OF sent_evict_queued [OF cover ev]] by simp
    also have "\<dots> \<le> unat (max_entries s)"
      using sent_evict_bound [OF cover, of "max_entries s" 0] ev by simp
    also have "\<dots> \<le> ?cap"
      using inv by (intro double_capacity) (simp add: sent_inv_def)
    finally show ?thesis by (simp add: s')
  qed
qed

subsection \<open>Sequences of operations\<close>

type_synonym sent_op = "(txhash, u256) store_op"

definition sent_run :: "sent_op list \<Rightarrow> sent_cache \<Rightarrow> sent_cache" where
  "sent_run = run_ops (\<lambda>h p s. snd (sent_insert h p s)) sent_remove"

definition fifo_run :: "nat \<Rightarrow> sent_op list \<Rightarrow> fifo \<Rightarrow> fifo" where
  "fifo_run n = run_ops (fifo_insert n) fifo_remove"

text \<open>No hash is inserted after it was removed.\<close>

fun no_return :: "'k set \<Rightarrow> ('k, 'v) store_op list \<Rightarrow> bool" where
  "no_return D [] \<longleftrightarrow> True"
| "no_return D (Ins k v # ops) \<longleftrightarrow> k \<notin> D \<and> no_return D ops"
| "no_return D (Del k # ops) \<longleftrightarrow> no_return (insert k D) ops"

lemma sent_run_refines:
  "sent_clean D s \<Longrightarrow> no_return D ops \<Longrightarrow>
     sent_abs (sent_run ops s) = fifo_run (unat (max_entries s)) ops (sent_abs s)
     \<and> (\<exists>D'. sent_clean D' (sent_run ops s))"
proof (induction ops arbitrary: D s)
  case Nil
  then show ?case by (auto simp: sent_run_def fifo_run_def)
next
  case (Cons a ops)
  show ?case
  proof (cases a)
    case (Ins h p)
    obtain ev s' where i: "sent_insert h p s = (ev, s')" by fastforce
    have "h \<in> sent_keys s \<or> h \<notin> D" using Cons.prems Ins by simp
    note r = sent_insert_refines [OF Cons.prems(1) this i]
    have "max_entries s' = max_entries s"
      using sent_insert_inv(2) [OF _ i] Cons.prems(1) by (simp add: sent_clean_def)
    then show ?thesis
      using Cons.IH [OF r(1)] Cons.prems(2) Ins i r(2)
      by (simp add: sent_run_def fifo_run_def)
  next
    case (Del h)
    then show ?thesis
      using Cons.IH [OF sent_clean_remove [OF Cons.prems(1), of h]] Cons.prems(2)
      by (simp add: sent_run_def fifo_run_def sent_abs_remove)
  qed
qed

lemma sent_run_clean:
  "sent_clean D s \<Longrightarrow> no_return D (ops @ [Ins h p]) \<Longrightarrow> \<exists>D'. sent_clean D' (sent_run ops s) \<and> h \<notin> D'"
proof (induction ops arbitrary: D s)
  case Nil
  then show ?case by (auto simp: sent_run_def)
next
  case (Cons a ops)
  show ?case
  proof (cases a)
    case (Ins k v)
    obtain ev s' where i: "sent_insert k v s = (ev, s')" by fastforce
    have "k \<in> sent_keys s \<or> k \<notin> D" using Cons.prems Ins by simp
    note r = sent_insert_refines(1) [OF Cons.prems(1) this i]
    show ?thesis
      using Cons.IH [OF r] Cons.prems(2) Ins i by (simp add: sent_run_def)
  next
    case (Del k)
    then show ?thesis
      using Cons.IH [OF sent_clean_remove [OF Cons.prems(1), of k]] Cons.prems(2)
      by (simp add: sent_run_def)
  qed
qed

subsection \<open>A hash that returns after its removal\<close>

text \<open>Insert and remove the same hash, \<open>n\<close> times.\<close>

definition churn :: "txhash \<Rightarrow> u256 \<Rightarrow> nat \<Rightarrow> sent_op list" where
  "churn h p n = concat (replicate n [Ins h p, Del h])"

lemma churn_Suc: "churn h p (Suc n) = Ins h p # Del h # churn h p n"
  by (simp add: churn_def)

text \<open>Each round leaves one more stale entry; the hash is live when the queue is compacted.\<close>

lemma sent_churn_round:
  assumes "priorities s = fmempty" "sent_order s = replicate k h" "0 < unat (max_entries s)"
  shows "sent_remove h (snd (sent_insert h p s)) = s\<lparr>sent_order := replicate (Suc k) h\<rparr>"
proof -
  have "insert_queue h s = replicate (Suc k) h"
    using assms(1,2) by (simp add: insert_queue_def live_def Let_def replicate_append_same)
  moreover have "hm_len (fmupd h p fmempty) \<le> unat (max_entries s)"
    using assms(3) by (simp add: hm_len_fmupd)
  moreover obtain ev s' where i: "sent_insert h p s = (ev, s')" by fastforce
  ultimately have "s' = s\<lparr>priorities := fmupd h p fmempty, sent_order := replicate (Suc k) h\<rparr>"
    using assms(1) by (auto elim!: sent_insert_elim simp: sent_evict_noop_map)
  moreover have "fmdrop h (fmupd h p fmempty) = fmempty"
    by (rule fmap_ext) simp
  ultimately show ?thesis
    using assms(1) i by (cases s) (simp add: sent_remove_def)
qed

lemma sent_churn:
  "priorities s = fmempty \<Longrightarrow> sent_order s = replicate k h \<Longrightarrow> 0 < unat (max_entries s) \<Longrightarrow>
     sent_run (churn h p n) s = s\<lparr>sent_order := replicate (n + k) h\<rparr>"
proof (induction n arbitrary: s k)
  case 0
  then show ?case by (simp add: sent_run_def churn_def)
next
  case (Suc n)
  have "sent_run (churn h p (Suc n)) s = sent_run (churn h p n) (s\<lparr>sent_order := replicate (Suc k) h\<rparr>)"
    using sent_churn_round [OF Suc.prems, of p] by (simp add: churn_Suc sent_run_def)
  also have "\<dots> = s\<lparr>sent_order := replicate (n + Suc k) h\<rparr>"
    using Suc.prems by (subst Suc.IH [where k = "Suc k"]) auto
  finally show ?case by simp
qed

end
