(* ===== verification/Metrics.thy ===== *)
theory Metrics
  imports Sidecar_Prelude "HOL-Library.Monad_Syntax"
begin

section \<open>Metrics and the health snapshot\<close>

text \<open>
  \<^verbatim>\<open>src/metrics.rs\<close>. The crate \<open>prometheus\<close> is not part of the repository: its registry,
  its integer counters, gauges and labelled counters and its text encoder are the fields of the
  record \<open>prom\<close>, over types \<open>'r\<close>, \<open>'c\<close>, \<open>'g\<close>, \<open>'v\<close> of which nothing else is known; the predicate
  \<open>prom_laws\<close> states their documented behaviour and is a hypothesis of the lemmas that read a
  value back. Methods on \<open>&self\<close> that update an atomic take the metrics and return them updated.
  Wall-clock time is an integer number of nanoseconds after the epoch.
\<close>

subsection \<open>Connection state\<close>

datatype ipc_state = Disabled | Connecting | Connected

fun ipc_as_str :: "ipc_state \<Rightarrow> string" where
  "ipc_as_str Disabled = ''disabled''"
| "ipc_as_str Connecting = ''connecting''"
| "ipc_as_str Connected = ''connected''"

fun ipc_gauge :: "ipc_state \<Rightarrow> i64" where
  "ipc_gauge Disabled = - 1"
| "ipc_gauge Connecting = 0"
| "ipc_gauge Connected = 1"

definition ipc_state_from_gauge :: "i64 \<Rightarrow> ipc_state" where
  "ipc_state_from_gauge g = (if g = 1 then Connected else if g = 0 then Connecting else Disabled)"

definition nonzero :: "i64 \<Rightarrow> i64 option" where
  "nonzero t = (if t = 0 then None else Some t)"

text \<open>Seconds since the epoch, zero for a clock set before it.\<close>

definition unix_now :: "int \<Rightarrow> i64" where
  "unix_now wall = (if wall < 0 then 0 else of_int (wall div 1000000000))"

lemma ipc_state_roundtrip: "ipc_state_from_gauge (ipc_gauge s) = s"
  by (cases s) (simp_all add: ipc_state_from_gauge_def)

lemma ipc_gauge_inject: "ipc_gauge s = ipc_gauge t \<longleftrightarrow> s = t"
  by (metis ipc_state_roundtrip)

lemma ipc_as_str_inject: "ipc_as_str s = ipc_as_str t \<longleftrightarrow> s = t"
  by (cases s; cases t) simp_all

subsection \<open>The foreign interface\<close>

record ('r, 'c, 'g, 'v) prom =
  registry_new :: "string \<Rightarrow> 'r option"
  registered :: "'r \<Rightarrow> string list"
  register_counter :: "string \<Rightarrow> string \<Rightarrow> 'r \<Rightarrow> ('c \<times> 'r) option"
  register_gauge :: "string \<Rightarrow> string \<Rightarrow> 'r \<Rightarrow> ('g \<times> 'r) option"
  register_counter_vec :: "string \<Rightarrow> string \<Rightarrow> string list \<Rightarrow> 'r \<Rightarrow> ('v \<times> 'r) option"
  counter_inc_by :: "u64 \<Rightarrow> 'c \<Rightarrow> 'c"
  counter_get :: "'c \<Rightarrow> u64"
  gauge_set :: "i64 \<Rightarrow> 'g \<Rightarrow> 'g"
  gauge_get :: "'g \<Rightarrow> i64"
  vec_desc :: "'v \<Rightarrow> string \<times> string list"
  vec_inc :: "string list \<Rightarrow> 'v \<Rightarrow> 'v"
  vec_get :: "string list \<Rightarrow> 'v \<Rightarrow> u64"

text \<open>
  \<open>inc()\<close> is \<open>inc_by(1)\<close>. A name of letters, digits and underscores that does not start with a digit
  registers once, with a help text and, for a labelled counter, with different such names of labels;
  a labelled counter keeps the name and the label names it was registered with. New metrics read
  zero; a set or an increment is read back, of a labelled counter when there is one value for every
  label. Of anything else, where the crate refuses or panics, nothing is said.
\<close>

fun name_start :: "char \<Rightarrow> bool" where
  "name_start c \<longleftrightarrow> (let n = of_char c :: nat in 97 \<le> n \<and> n \<le> 122 \<or> 65 \<le> n \<and> n \<le> 90 \<or> n = 95)"

fun name_char :: "char \<Rightarrow> bool" where
  "name_char c \<longleftrightarrow> name_start c \<or> (let n = of_char c :: nat in 48 \<le> n \<and> n \<le> 57)"

fun valid_name :: "string \<Rightarrow> bool" where
  "valid_name [] \<longleftrightarrow> False"
| "valid_name (c # s) \<longleftrightarrow> name_start c \<and> list_all name_char s"

definition accepted :: "('r, 'c, 'g, 'v) prom \<Rightarrow> string \<Rightarrow> string \<Rightarrow> 'r \<Rightarrow> bool" where
  "accepted P name help r \<longleftrightarrow> valid_name name \<and> help \<noteq> [] \<and> name \<notin> set (registered P r)"

definition prom_laws :: "('r, 'c, 'g, 'v) prom \<Rightarrow> bool" where
  "prom_laws P \<longleftrightarrow>
     (\<forall>prefix. valid_name prefix \<longrightarrow> (\<exists>r. registry_new P prefix = Some r \<and> registered P r = []))
     \<and> (\<forall>name help r. accepted P name help r \<longrightarrow>
          (\<exists>c r'. register_counter P name help r = Some (c, r') \<and> counter_get P c = 0
             \<and> registered P r' = name # registered P r))
     \<and> (\<forall>name help r. accepted P name help r \<longrightarrow>
          (\<exists>g r'. register_gauge P name help r = Some (g, r') \<and> gauge_get P g = 0
             \<and> registered P r' = name # registered P r))
     \<and> (\<forall>name help labels r. accepted P name help r \<longrightarrow> list_all valid_name labels \<longrightarrow> distinct labels \<longrightarrow>
          (\<exists>v r'. register_counter_vec P name help labels r = Some (v, r') \<and> (\<forall>l. vec_get P l v = 0)
             \<and> vec_desc P v = (name, labels) \<and> registered P r' = name # registered P r))
     \<and> (\<forall>n c. counter_get P (counter_inc_by P n c) = counter_get P c + n)
     \<and> (\<forall>n g. gauge_get P (gauge_set P n g) = n)
     \<and> (\<forall>l k v. length l = length (snd (vec_desc P v)) \<longrightarrow>
          vec_get P k (vec_inc P l v) = (if k = l then vec_get P k v + 1 else vec_get P k v))
     \<and> (\<forall>l v. vec_desc P (vec_inc P l v) = vec_desc P v)"

lemma prom_lawsD:
  assumes "prom_laws P"
  shows "counter_get P (counter_inc_by P n c) = counter_get P c + n"
    "gauge_get P (gauge_set P m g) = m"
    "length l = length (snd (vec_desc P v)) \<Longrightarrow>
      vec_get P k (vec_inc P l v) = (if k = l then vec_get P k v + 1 else vec_get P k v)"
    "vec_desc P (vec_inc P l v) = vec_desc P v"
  using assms by (simp_all add: prom_laws_def)

subsection \<open>The metrics\<close>

record ('r, 'c, 'g, 'v) metrics =
  registry :: 'r
  txpool_events_total :: 'v
  txpool_inserts_total :: 'c
  txpool_prioritized_total :: 'c
  txpool_skipped_non_gateway_total :: 'c
  txpool_skipped_invalid_gateway_total :: 'c
  txpool_send_failures_total :: 'c
  txpool_ipc_reconnects_total :: 'c
  txpool_sent_cache_evictions_total :: 'c
  txpool_ipc_state :: 'g
  txpool_sent_cache :: 'g
  last_event_unix_seconds :: 'g
  last_send_unix_seconds :: 'g
  backrun_pairs_matched_total :: 'c
  backrun_bids_pended_total :: 'c
  backrun_bids_expired_total :: 'c
  backrun_bids_evicted_total :: 'c
  backrun_pending :: 'g
  backrun_cache :: 'g
  http_requests_total :: 'v
  last_event_ts :: i64
  last_send_ts :: i64
  ipc_state_ts :: i64

definition set_ipc_state :: "('r, 'c, 'g, 'v) prom \<Rightarrow> ipc_state \<Rightarrow> ('r, 'c, 'g, 'v) metrics \<Rightarrow> ('r, 'c, 'g, 'v) metrics" where
  "set_ipc_state P state m =
     m\<lparr>txpool_ipc_state := gauge_set P (ipc_gauge state) (txpool_ipc_state m),
       ipc_state_ts := ipc_gauge state\<rparr>"

definition record_event :: "('r, 'c, 'g, 'v) prom \<Rightarrow> string \<Rightarrow> int \<Rightarrow> ('r, 'c, 'g, 'v) metrics \<Rightarrow> ('r, 'c, 'g, 'v) metrics" where
  "record_event P kind wall m =
     (let now = unix_now wall in
      m\<lparr>txpool_events_total := vec_inc P [kind] (txpool_events_total m),
        last_event_unix_seconds := gauge_set P now (last_event_unix_seconds m),
        last_event_ts := now\<rparr>)"

definition record_insert :: "('r, 'c, 'g, 'v) prom \<Rightarrow> ('r, 'c, 'g, 'v) metrics \<Rightarrow> ('r, 'c, 'g, 'v) metrics" where
  "record_insert P m = m\<lparr>txpool_inserts_total := counter_inc_by P 1 (txpool_inserts_total m)\<rparr>"

definition record_prioritized :: "('r, 'c, 'g, 'v) prom \<Rightarrow> int \<Rightarrow> ('r, 'c, 'g, 'v) metrics \<Rightarrow> ('r, 'c, 'g, 'v) metrics" where
  "record_prioritized P wall m =
     (let now = unix_now wall in
      m\<lparr>txpool_prioritized_total := counter_inc_by P 1 (txpool_prioritized_total m),
        last_send_unix_seconds := gauge_set P now (last_send_unix_seconds m),
        last_send_ts := now\<rparr>)"

definition record_skipped_non_gateway :: "('r, 'c, 'g, 'v) prom \<Rightarrow> ('r, 'c, 'g, 'v) metrics \<Rightarrow> ('r, 'c, 'g, 'v) metrics" where
  "record_skipped_non_gateway P m =
     m\<lparr>txpool_skipped_non_gateway_total := counter_inc_by P 1 (txpool_skipped_non_gateway_total m)\<rparr>"

definition record_skipped_invalid_gateway :: "('r, 'c, 'g, 'v) prom \<Rightarrow> ('r, 'c, 'g, 'v) metrics \<Rightarrow> ('r, 'c, 'g, 'v) metrics" where
  "record_skipped_invalid_gateway P m =
     m\<lparr>txpool_skipped_invalid_gateway_total := counter_inc_by P 1 (txpool_skipped_invalid_gateway_total m)\<rparr>"

definition add_backrun_pairs :: "('r, 'c, 'g, 'v) prom \<Rightarrow> u64 \<Rightarrow> ('r, 'c, 'g, 'v) metrics \<Rightarrow> ('r, 'c, 'g, 'v) metrics" where
  "add_backrun_pairs P n m =
     (if 0 < n then m\<lparr>backrun_pairs_matched_total := counter_inc_by P n (backrun_pairs_matched_total m)\<rparr> else m)"

definition add_backrun_pended :: "('r, 'c, 'g, 'v) prom \<Rightarrow> u64 \<Rightarrow> ('r, 'c, 'g, 'v) metrics \<Rightarrow> ('r, 'c, 'g, 'v) metrics" where
  "add_backrun_pended P n m =
     (if 0 < n then m\<lparr>backrun_bids_pended_total := counter_inc_by P n (backrun_bids_pended_total m)\<rparr> else m)"

definition add_backrun_expired :: "('r, 'c, 'g, 'v) prom \<Rightarrow> u64 \<Rightarrow> ('r, 'c, 'g, 'v) metrics \<Rightarrow> ('r, 'c, 'g, 'v) metrics" where
  "add_backrun_expired P n m =
     (if 0 < n then m\<lparr>backrun_bids_expired_total := counter_inc_by P n (backrun_bids_expired_total m)\<rparr> else m)"

definition add_backrun_evicted :: "('r, 'c, 'g, 'v) prom \<Rightarrow> u64 \<Rightarrow> ('r, 'c, 'g, 'v) metrics \<Rightarrow> ('r, 'c, 'g, 'v) metrics" where
  "add_backrun_evicted P n m =
     (if 0 < n then m\<lparr>backrun_bids_evicted_total := counter_inc_by P n (backrun_bids_evicted_total m)\<rparr> else m)"

definition set_backrun_pending :: "('r, 'c, 'g, 'v) prom \<Rightarrow> i64 \<Rightarrow> ('r, 'c, 'g, 'v) metrics \<Rightarrow> ('r, 'c, 'g, 'v) metrics" where
  "set_backrun_pending P n m = m\<lparr>backrun_pending := gauge_set P n (backrun_pending m)\<rparr>"

definition set_backrun_cache :: "('r, 'c, 'g, 'v) prom \<Rightarrow> i64 \<Rightarrow> ('r, 'c, 'g, 'v) metrics \<Rightarrow> ('r, 'c, 'g, 'v) metrics" where
  "set_backrun_cache P n m = m\<lparr>backrun_cache := gauge_set P n (backrun_cache m)\<rparr>"

definition add_sent_cache_evictions :: "('r, 'c, 'g, 'v) prom \<Rightarrow> u64 \<Rightarrow> ('r, 'c, 'g, 'v) metrics \<Rightarrow> ('r, 'c, 'g, 'v) metrics" where
  "add_sent_cache_evictions P n m =
     (if 0 < n
      then m\<lparr>txpool_sent_cache_evictions_total := counter_inc_by P n (txpool_sent_cache_evictions_total m)\<rparr>
      else m)"

definition set_sent_cache :: "('r, 'c, 'g, 'v) prom \<Rightarrow> i64 \<Rightarrow> ('r, 'c, 'g, 'v) metrics \<Rightarrow> ('r, 'c, 'g, 'v) metrics" where
  "set_sent_cache P n m = m\<lparr>txpool_sent_cache := gauge_set P n (txpool_sent_cache m)\<rparr>"

definition record_send_failure :: "('r, 'c, 'g, 'v) prom \<Rightarrow> ('r, 'c, 'g, 'v) metrics \<Rightarrow> ('r, 'c, 'g, 'v) metrics" where
  "record_send_failure P m =
     m\<lparr>txpool_send_failures_total := counter_inc_by P 1 (txpool_send_failures_total m)\<rparr>"

definition record_reconnect :: "('r, 'c, 'g, 'v) prom \<Rightarrow> ('r, 'c, 'g, 'v) metrics \<Rightarrow> ('r, 'c, 'g, 'v) metrics" where
  "record_reconnect P m =
     m\<lparr>txpool_ipc_reconnects_total := counter_inc_by P 1 (txpool_ipc_reconnects_total m)\<rparr>"

definition status_class :: "u16 \<Rightarrow> string" where
  "status_class status =
     (if 100 \<le> status \<and> status \<le> 199 then ''1xx''
      else if 200 \<le> status \<and> status \<le> 299 then ''2xx''
      else if 300 \<le> status \<and> status \<le> 399 then ''3xx''
      else if 400 \<le> status \<and> status \<le> 499 then ''4xx''
      else ''5xx'')"

definition record_http :: "('r, 'c, 'g, 'v) prom \<Rightarrow> string \<Rightarrow> u16 \<Rightarrow> ('r, 'c, 'g, 'v) metrics \<Rightarrow> ('r, 'c, 'g, 'v) metrics" where
  "record_http P route status m =
     m\<lparr>http_requests_total := vec_inc P [route, status_class status] (http_requests_total m)\<rparr>"

subsection \<open>Construction\<close>

definition metrics_new :: "('r, 'c, 'g, 'v) prom \<Rightarrow> ('r, 'c, 'g, 'v) metrics option" where
  "metrics_new P = do {
     r0 \<leftarrow> registry_new P ''magma_sidecar'';
     (events, r1) \<leftarrow> register_counter_vec P ''txpool_events_total''
       ''Number of txpool events received from the node, by kind.'' [''kind''] r0;
     (inserts, r2) \<leftarrow> register_counter P ''txpool_inserts_total''
       ''Number of Insert events observed (deduped).'' r1;
     (prioritized, r3) \<leftarrow> register_counter P ''txpool_prioritized_total''
       ''Number of transactions re-injected with a sidecar-computed priority.'' r2;
     (skipped, r4) \<leftarrow> register_counter P ''txpool_skipped_non_gateway_total''
       ''Number of Insert events ignored because `to` was not an allowlisted MagmaSearcherGateway.'' r3;
     (invalid, r5) \<leftarrow> register_counter P ''txpool_skipped_invalid_gateway_total''
       ''Number of gateway-bound Insert events ignored because calldata was invalid or unsupported.'' r4;
     (failures, r6) \<leftarrow> register_counter P ''txpool_send_failures_total''
       ''IPC send failures (each one triggers a reconnect).'' r5;
     (reconnects, r7) \<leftarrow> register_counter P ''txpool_ipc_reconnects_total''
       ''Number of times the IPC client (re)connected to the node socket.'' r6;
     (evictions, r8) \<leftarrow> register_counter P ''txpool_sent_cache_evictions_total''
       ''Number of oldest reinjection-dedup entries evicted at the configured capacity.'' r7;
     (state, r9) \<leftarrow> register_gauge P ''txpool_ipc_state''
       ''Txpool IPC state: -1=disabled, 0=connecting, 1=connected.'' r8;
     (sent, r10) \<leftarrow> register_gauge P ''txpool_sent_cache''
       ''Transaction hashes currently retained to suppress reinjection echoes.'' r9;
     (last_event, r11) \<leftarrow> register_gauge P ''last_event_unix_seconds''
       ''Unix timestamp of the last txpool event received (0 if none).'' r10;
     (last_send, r12) \<leftarrow> register_gauge P ''last_send_unix_seconds''
       ''Unix timestamp of the last reinjected tx (0 if none).'' r11;
     (http, r13) \<leftarrow> register_counter_vec P ''http_requests_total''
       ''HTTP requests served, by route and status class.'' [''route'', ''status_class''] r12;
     (pairs, r14) \<leftarrow> register_counter P ''backrun_pairs_matched_total''
       ''Number of (target -> backrun bid) pairings completed.'' r13;
     (pended, r15) \<leftarrow> register_counter P ''backrun_bids_pended_total''
       ''Number of backrun bids parked because their target wasn't pooled yet.'' r14;
     (expired, r16) \<leftarrow> register_counter P ''backrun_bids_expired_total''
       ''Number of parked backrun bids that expired without ever matching a target.'' r15;
     (evicted, r17) \<leftarrow> register_counter P ''backrun_bids_evicted_total''
       ''Number of oldest parked backrun bids evicted at the configured capacity.'' r16;
     (pending, r18) \<leftarrow> register_gauge P ''backrun_pending''
       ''Backrun bids currently parked waiting for their target.'' r17;
     (cache, r19) \<leftarrow> register_gauge P ''backrun_cache''
       ''Candidate-target txs currently cached for backrun pairing.'' r18;
     Some (set_ipc_state P Disabled
       \<lparr>registry = r19, txpool_events_total = events, txpool_inserts_total = inserts,
        txpool_prioritized_total = prioritized, txpool_skipped_non_gateway_total = skipped,
        txpool_skipped_invalid_gateway_total = invalid, txpool_send_failures_total = failures,
        txpool_ipc_reconnects_total = reconnects, txpool_sent_cache_evictions_total = evictions,
        txpool_ipc_state = state, txpool_sent_cache = sent, last_event_unix_seconds = last_event,
        last_send_unix_seconds = last_send, backrun_pairs_matched_total = pairs,
        backrun_bids_pended_total = pended, backrun_bids_expired_total = expired,
        backrun_bids_evicted_total = evicted, backrun_pending = pending, backrun_cache = cache,
        http_requests_total = http, last_event_ts = 0, last_send_ts = 0,
        ipc_state_ts = ipc_gauge Disabled\<rparr>)
   }"

subsection \<open>The health snapshot\<close>

record health_snapshot =
  hs_status :: string
  hs_service :: string
  hs_ipc_state :: string
  tx_inserts_observed :: u64
  tx_prioritized :: u64
  tx_skipped_non_gateway :: u64
  tx_skipped_invalid_gateway :: u64
  ipc_send_failures :: u64
  ipc_reconnects :: u64
  sent_cache_entries :: i64
  sent_cache_evictions :: u64
  hs_backrun_pairs_matched :: u64
  backrun_bids_pending :: i64
  backrun_bids_expired :: u64
  backrun_bids_evicted :: u64
  hs_last_event_unix_seconds :: "i64 option"
  hs_last_send_unix_seconds :: "i64 option"

definition snapshot :: "('r, 'c, 'g, 'v) prom \<Rightarrow> ('r, 'c, 'g, 'v) metrics \<Rightarrow> health_snapshot" where
  "snapshot P m =
     \<lparr>hs_status = ''ok'',
      hs_service = ''magma-sidecar'',
      hs_ipc_state = ipc_as_str (ipc_state_from_gauge (ipc_state_ts m)),
      tx_inserts_observed = counter_get P (txpool_inserts_total m),
      tx_prioritized = counter_get P (txpool_prioritized_total m),
      tx_skipped_non_gateway = counter_get P (txpool_skipped_non_gateway_total m),
      tx_skipped_invalid_gateway = counter_get P (txpool_skipped_invalid_gateway_total m),
      ipc_send_failures = counter_get P (txpool_send_failures_total m),
      ipc_reconnects = counter_get P (txpool_ipc_reconnects_total m),
      sent_cache_entries = gauge_get P (txpool_sent_cache m),
      sent_cache_evictions = counter_get P (txpool_sent_cache_evictions_total m),
      hs_backrun_pairs_matched = counter_get P (backrun_pairs_matched_total m),
      backrun_bids_pending = gauge_get P (backrun_pending m),
      backrun_bids_expired = counter_get P (backrun_bids_expired_total m),
      backrun_bids_evicted = counter_get P (backrun_bids_evicted_total m),
      hs_last_event_unix_seconds = nonzero (last_event_ts m),
      hs_last_send_unix_seconds = nonzero (last_send_ts m)\<rparr>"

subsection \<open>Rendering\<close>

text \<open>\<open>String::from_utf8\<close> accepts exactly the well-formed UTF-8 byte sequences.\<close>

definition utf8_cont :: "u8 \<Rightarrow> bool" where
  "utf8_cont b \<longleftrightarrow> 0x80 \<le> b \<and> b \<le> 0xBF"

fun valid_utf8 :: "u8 list \<Rightarrow> bool" where
  "valid_utf8 [] = True"
| "valid_utf8 (b # bs) =
     (if b \<le> 0x7F then valid_utf8 bs
      else if 0xC2 \<le> b \<and> b \<le> 0xDF then
        (case bs of c # rest \<Rightarrow> utf8_cont c \<and> valid_utf8 rest | _ \<Rightarrow> False)
      else if 0xE0 \<le> b \<and> b \<le> 0xEF then
        (case bs of c # d # rest \<Rightarrow>
             utf8_cont c \<and> (b = 0xE0 \<longrightarrow> 0xA0 \<le> c) \<and> (b = 0xED \<longrightarrow> c \<le> 0x9F) \<and> utf8_cont d \<and> valid_utf8 rest
         | _ \<Rightarrow> False)
      else if 0xF0 \<le> b \<and> b \<le> 0xF4 then
        (case bs of c # d # e # rest \<Rightarrow>
             utf8_cont c \<and> (b = 0xF0 \<longrightarrow> 0x90 \<le> c) \<and> (b = 0xF4 \<longrightarrow> c \<le> 0x8F)
             \<and> utf8_cont d \<and> utf8_cont e \<and> valid_utf8 rest
         | _ \<Rightarrow> False)
      else False)"

text \<open>The registry shares its counters with the metrics: the encoder, a parameter, reads both.\<close>

datatype 'e render_error = EncoderError 'e | Msg "u8 list"

definition render_prometheus :: "(('r, 'c, 'g, 'v) metrics \<Rightarrow> 'e + u8 list) \<Rightarrow> ('r, 'c, 'g, 'v) metrics \<Rightarrow>
    'e render_error + u8 list" where
  "render_prometheus encode m =
     (case encode m of
        Inl e \<Rightarrow> Inl (EncoderError e)
      | Inr buf \<Rightarrow> if valid_utf8 buf then Inr buf else Inl (Msg buf))"

subsection \<open>Construction succeeds\<close>

lemma prom_registers:
  assumes "prom_laws P" "accepted P name help r"
  shows "\<exists>c r'. register_counter P name help r = Some (c, r') \<and> counter_get P c = 0
      \<and> registered P r' = name # registered P r"
    "\<exists>g r'. register_gauge P name help r = Some (g, r') \<and> gauge_get P g = 0
      \<and> registered P r' = name # registered P r"
    "list_all valid_name labels \<Longrightarrow> distinct labels \<Longrightarrow>
      \<exists>v r'. register_counter_vec P name help labels r = Some (v, r') \<and> (\<forall>l. vec_get P l v = 0)
        \<and> vec_desc P v = (name, labels) \<and> registered P r' = name # registered P r"
  using assms by (simp_all add: prom_laws_def)

definition returns :: "('a \<Rightarrow> bool) \<Rightarrow> 'a option \<Rightarrow> bool" where
  "returns Q x \<longleftrightarrow> (case x of None \<Rightarrow> False | Some y \<Rightarrow> Q y)"

lemma returns_registry:
  assumes "prom_laws P" "valid_name prefix" "\<And>r. registered P r = [] \<Longrightarrow> returns Q (f r)"
  shows "returns Q (registry_new P prefix \<bind> f)"
proof -
  have "\<exists>r. registry_new P prefix = Some r \<and> registered P r = []"
    using assms(1,2) by (simp add: prom_laws_def)
  then obtain r where "registry_new P prefix = Some r" "registered P r = []" by blast
  then show ?thesis using assms(3) by simp
qed

lemma returns_counter:
  assumes "prom_laws P" "registered P r = ns" "valid_name name \<and> help \<noteq> [] \<and> name \<notin> set ns"
    "\<And>c r'. counter_get P c = 0 \<Longrightarrow> registered P r' = name # ns \<Longrightarrow> returns Q (f c r')"
  shows "returns Q (register_counter P name help r \<bind> (\<lambda>(c, r'). f c r'))"
proof -
  obtain c r' where "register_counter P name help r = Some (c, r')" "counter_get P c = 0"
    "registered P r' = name # ns"
    using prom_registers(1) [OF assms(1), of name "help" r] assms(2,3) by (auto simp: accepted_def)
  then show ?thesis using assms(4) by simp
qed

lemma returns_gauge:
  assumes "prom_laws P" "registered P r = ns" "valid_name name \<and> help \<noteq> [] \<and> name \<notin> set ns"
    "\<And>g r'. gauge_get P g = 0 \<Longrightarrow> registered P r' = name # ns \<Longrightarrow> returns Q (f g r')"
  shows "returns Q (register_gauge P name help r \<bind> (\<lambda>(g, r'). f g r'))"
proof -
  obtain g r' where "register_gauge P name help r = Some (g, r')" "gauge_get P g = 0"
    "registered P r' = name # ns"
    using prom_registers(2) [OF assms(1), of name "help" r] assms(2,3) by (auto simp: accepted_def)
  then show ?thesis using assms(4) by simp
qed

lemma returns_vec:
  assumes "prom_laws P" "registered P r = ns"
    "valid_name name \<and> help \<noteq> [] \<and> name \<notin> set ns \<and> list_all valid_name labels \<and> distinct labels"
    "\<And>v r'. (\<And>l. vec_get P l v = 0) \<Longrightarrow> vec_desc P v = (name, labels) \<Longrightarrow> registered P r' = name # ns \<Longrightarrow> returns Q (f v r')"
  shows "returns Q (register_counter_vec P name help labels r \<bind> (\<lambda>(v, r'). f v r'))"
proof -
  obtain v r' where "register_counter_vec P name help labels r = Some (v, r')" "\<forall>l. vec_get P l v = 0"
    "vec_desc P v = (name, labels)" "registered P r' = name # ns"
    using prom_registers(3) [OF assms(1), of name "help" r labels] assms(2,3) by (auto simp: accepted_def)
  then show ?thesis using assms(4) by simp
qed

definition blank_snapshot :: "ipc_state \<Rightarrow> health_snapshot" where
  "blank_snapshot s =
     \<lparr>hs_status = ''ok'', hs_service = ''magma-sidecar'', hs_ipc_state = ipc_as_str s,
      tx_inserts_observed = 0, tx_prioritized = 0, tx_skipped_non_gateway = 0,
      tx_skipped_invalid_gateway = 0, ipc_send_failures = 0, ipc_reconnects = 0,
      sent_cache_entries = 0, sent_cache_evictions = 0, hs_backrun_pairs_matched = 0,
      backrun_bids_pending = 0, backrun_bids_expired = 0, backrun_bids_evicted = 0,
      hs_last_event_unix_seconds = None, hs_last_send_unix_seconds = None\<rparr>"

text \<open>The names, in the order of registration.\<close>

definition metric_names :: "string list" where
  "metric_names =
     [''txpool_events_total'', ''txpool_inserts_total'', ''txpool_prioritized_total'', ''txpool_skipped_non_gateway_total'',
      ''txpool_skipped_invalid_gateway_total'', ''txpool_send_failures_total'', ''txpool_ipc_reconnects_total'',
      ''txpool_sent_cache_evictions_total'', ''txpool_ipc_state'', ''txpool_sent_cache'', ''last_event_unix_seconds'',
      ''last_send_unix_seconds'', ''http_requests_total'', ''backrun_pairs_matched_total'', ''backrun_bids_pended_total'',
      ''backrun_bids_expired_total'', ''backrun_bids_evicted_total'', ''backrun_pending'', ''backrun_cache'']"

definition fresh_metrics :: "('r, 'c, 'g, 'v) prom \<Rightarrow> ('r, 'c, 'g, 'v) metrics \<Rightarrow> bool" where
  "fresh_metrics P m \<longleftrightarrow> snapshot P m = blank_snapshot Disabled
     \<and> gauge_get P (txpool_ipc_state m) = - 1 \<and> ipc_state_ts m = - 1
     \<and> (\<forall>l. vec_get P l (txpool_events_total m) = 0) \<and> (\<forall>l. vec_get P l (http_requests_total m) = 0)
     \<and> vec_desc P (txpool_events_total m) = (''txpool_events_total'', [''kind''])
     \<and> vec_desc P (http_requests_total m) = (''http_requests_total'', [''route'', ''status_class''])
     \<and> rev (registered P (registry m)) = metric_names"

lemma metrics_new_returns: "prom_laws P \<Longrightarrow> returns (fresh_metrics P) (metrics_new P)"
  unfolding metrics_new_def
  apply (rule returns_registry, assumption, simp (no_asm))
  apply (rule returns_vec, assumption, assumption, simp (no_asm))
  apply (rule returns_counter, assumption, assumption, simp (no_asm))+
  apply (rule returns_gauge, assumption, assumption, simp (no_asm))+
  apply (rule returns_vec, assumption, assumption, simp (no_asm))
  apply (rule returns_counter, assumption, assumption, simp (no_asm))+
  apply (rule returns_gauge, assumption, assumption, simp (no_asm))+
  apply (simp (no_asm_simp) add: returns_def fresh_metrics_def snapshot_def blank_snapshot_def set_ipc_state_def
      nonzero_def prom_lawsD ipc_state_from_gauge_def metric_names_def)
  done

subsection \<open>What each update shows in the snapshot\<close>

lemma snapshot_set_ipc_state:
  "snapshot P (set_ipc_state P s m) = (snapshot P m)\<lparr>hs_ipc_state := ipc_as_str s\<rparr>"
  by (simp add: snapshot_def set_ipc_state_def ipc_state_roundtrip)

lemma snapshot_record_event:
  "snapshot P (record_event P kind wall m) =
     (snapshot P m)\<lparr>hs_last_event_unix_seconds := nonzero (unix_now wall)\<rparr>"
  by (simp add: snapshot_def record_event_def Let_def)

lemma snapshot_record_http: "snapshot P (record_http P route status m) = snapshot P m"
  by (simp add: snapshot_def record_http_def)

lemma snapshot_record_prioritized:
  assumes "prom_laws P"
  shows "snapshot P (record_prioritized P wall m) =
     (snapshot P m)\<lparr>tx_prioritized := tx_prioritized (snapshot P m) + 1,
        hs_last_send_unix_seconds := nonzero (unix_now wall)\<rparr>"
  using assms by (simp add: snapshot_def record_prioritized_def Let_def prom_lawsD)

lemma http_requests_record_http:
  assumes "prom_laws P" "length (snd (vec_desc P (http_requests_total m))) = 2"
  shows "vec_get P k (http_requests_total (record_http P route status m)) =
    vec_get P k (http_requests_total m) + (if k = [route, status_class status] then 1 else 0)"
  using assms by (simp add: record_http_def prom_lawsD)

text \<open>A wall clock after 1970 shows as its seconds; before, as no timestamp.\<close>

lemma nonzero_unix_now_early: "wall < 1000000000 \<Longrightarrow> nonzero (unix_now wall) = None"
  by (auto simp: nonzero_def unix_now_def)

lemma nonzero_unix_now:
  assumes "1000000000 \<le> wall" "wall div 1000000000 < 2 ^ 63"
  shows "map_option sint (nonzero (unix_now wall)) = Some (wall div 1000000000)"
proof -
  let ?s = "wall div 1000000000"
  have s: "0 < ?s" "?s < 2 ^ 63" using assms by (auto simp: pos_imp_zdiv_pos_iff)
  have "signed_take_bit 63 ?s = ?s"
    using s by (intro signed_take_bit_int_eq_self) auto
  then have v: "sint (of_int ?s :: i64) = ?s"
    by (simp add: signed_of_int)
  then have "(of_int ?s :: i64) \<noteq> 0" using s by auto
  then show ?thesis using assms v by (simp add: nonzero_def unix_now_def)
qed

end
