(* ===== verification/Ipc_Loop.thy ===== *)
theory Ipc_Loop
  imports Pool_Expiry Sent_Cache_Spec Metrics
begin

section \<open>The txpool loop\<close>

text \<open>
  \<open>run_txpool_priority_loop\<close> of \<^verbatim>\<open>src/txpool_ipc.rs\<close>. The node, its socket client and the
  scheduler are not part of the program: a batch of events with the answers of the clocks and of
  every send is an input, and the loop is a transition system between its await points. The
  first part is what the loop does with one batch, a function; the second the transition system.

  The hash that an event carries is taken as given. \<open>tracing\<close> output is left out.
\<close>

subsection \<open>Configuration, messages and events\<close>

record priority_mode =
  pm_policy :: policy_config
  pm_fallback :: u256
  pm_ttl :: duration
  pm_max_cache_entries :: usize
  pm_max_pending_entries :: usize
  pm_sent_cache_max :: usize

record 'tx ipc_tx =
  ipc_payload :: 'tx
  ipc_priority :: u256
  extra_data :: "u8 list"

datatype 'tx event_type = InsertEv 'tx | CommitEv | DropEv | EvictEv

record 'tx event =
  ev_hash :: txhash
  ev_action :: "'tx event_type"

text \<open>What the surroundings answer while one event is processed: the wall clock, the two
  readings of the monotonic clock, and for the \<open>i\<close>-th send whether it succeeds and the wall
  clock after it.\<close>

record answers =
  wall_event :: int
  prune_at :: instant
  observe_time :: instant
  send_ok :: "nat \<Rightarrow> bool"
  wall_send :: "nat \<Rightarrow> int"

record ('tx, 'r, 'c, 'g, 'v) loop_state =
  ls_pool :: "'tx pending_pool"
  ls_sent :: sent_cache
  ls_metrics :: "('r, 'c, 'g, 'v) metrics"

text \<open>A message on the wire, with the hash under which the loop remembers it.\<close>

type_synonym 'tx wire = "(txhash \<times> 'tx ipc_tx) list"

fun event_kind :: "'tx event_type \<Rightarrow> string" where
  "event_kind (InsertEv tx) = ''insert''"
| "event_kind CommitEv = ''commit''"
| "event_kind DropEv = ''drop''"
| "event_kind EvictEv = ''evict''"

subsection \<open>Processing one event\<close>

definition new_loop_state :: "priority_mode \<Rightarrow> ('r, 'c, 'g, 'v) metrics \<Rightarrow> ('tx, 'r, 'c, 'g, 'v) loop_state" where
  "new_loop_state mode m =
     \<lparr>ls_pool = pool_new (pm_policy mode) (pm_fallback mode) (pm_ttl mode)
        (pm_max_cache_entries mode) (pm_max_pending_entries mode),
      ls_sent = sent_new (pm_sent_cache_max mode), ls_metrics = m\<rparr>"

text \<open>The part of an insert between the echo test and the sends.\<close>

definition observe_event :: "'tx alloy \<Rightarrow> ('r, 'c, 'g, 'v) prom \<Rightarrow> answers \<Rightarrow> txhash \<Rightarrow> 'tx \<Rightarrow>
    ('tx, 'r, 'c, 'g, 'v) loop_state \<Rightarrow> 'tx reinjection list \<times> ('tx, 'r, 'c, 'g, 'v) loop_state" where
  "observe_event A P ans hash tx st =
     (let m = record_insert P (ls_metrics st);
          (expired, pool1) = prune (prune_at ans) (ls_pool st);
          m = (if 0 < expired then add_backrun_expired P expired m else m);
          (res, pool2) = observe_at A hash tx (observe_time ans) pool1;
          m = (if skipped_non_gateway res then record_skipped_non_gateway P m else m);
          m = (if skipped_invalid_gateway res then record_skipped_invalid_gateway P m else m);
          m = add_backrun_pairs P (pairs_matched res) m;
          m = add_backrun_pended P (bids_pended res) m;
          m = add_backrun_evicted P (bids_evicted res) m;
          m = set_backrun_pending P (pending_len pool2) m;
          m = set_backrun_cache P (of_nat (cache_len pool2)) m
      in (reinjections res, st\<lparr>ls_pool := pool2, ls_metrics := m\<rparr>))"

definition to_ipc :: "'tx reinjection \<Rightarrow> 'tx ipc_tx" where
  "to_ipc r = \<lparr>ipc_payload = rj_tx r, ipc_priority = rj_priority r, extra_data = []\<rparr>"

text \<open>The send loop: the messages sent, whether a send failed, the state. \<open>i\<close> counts the sends.\<close>

fun send_loop :: "('r, 'c, 'g, 'v) prom \<Rightarrow> answers \<Rightarrow> nat \<Rightarrow> 'tx reinjection list \<Rightarrow>
    ('tx, 'r, 'c, 'g, 'v) loop_state \<Rightarrow> 'tx wire \<times> bool \<times> ('tx, 'r, 'c, 'g, 'v) loop_state" where
  "send_loop P ans i [] st = ([], False, st)"
| "send_loop P ans i (r # rs) st =
     (if sent_contains (ls_sent st) (rj_hash r) then send_loop P ans i rs st
      else if \<not> send_ok ans i
      then ([], True, st\<lparr>ls_metrics := record_send_failure P (ls_metrics st)\<rparr>)
      else
        (let m = record_prioritized P (wall_send ans i) (ls_metrics st);
             (evicted, sent) = sent_insert (rj_hash r) (rj_priority r) (ls_sent st);
             m = add_sent_cache_evictions P evicted m;
             m = set_sent_cache P (of_nat (sent_len sent)) m;
             (out, failed, st') = send_loop P ans (Suc i) rs (st\<lparr>ls_sent := sent, ls_metrics := m\<rparr>)
         in ((rj_hash r, to_ipc r) # out, failed, st')))"

definition process_event :: "'tx alloy \<Rightarrow> ('r, 'c, 'g, 'v) prom \<Rightarrow> ('tx bid_map \<Rightarrow> txhash list) \<Rightarrow>
    'tx event \<times> answers \<Rightarrow> ('tx, 'r, 'c, 'g, 'v) loop_state \<Rightarrow>
    'tx wire \<times> bool \<times> ('tx, 'r, 'c, 'g, 'v) loop_state" where
  "process_event A P it ea st0 =
     (let (ev, ans) = ea;
          st = st0\<lparr>ls_metrics := record_event P (event_kind (ev_action ev)) (wall_event ans) (ls_metrics st0)\<rparr>
      in case ev_action ev of
           InsertEv tx \<Rightarrow>
             (let hash = ev_hash ev in
              if sent_contains (ls_sent st) hash then ([], False, st)
              else (let (rs, st') = observe_event A P ans hash tx st in send_loop P ans 0 rs st'))
         | _ \<Rightarrow>
             (let sent = sent_remove (ev_hash ev) (ls_sent st)
              in ([], False, st\<lparr>ls_sent := sent,
                    ls_metrics := set_sent_cache P (of_nat (sent_len sent)) (ls_metrics st),
                    ls_pool := forget it (ev_hash ev) (ls_pool st)\<rparr>)))"

text \<open>A batch, up to the first failed send: the rest of the batch is dropped with the connection.\<close>

fun process_batch :: "'tx alloy \<Rightarrow> ('r, 'c, 'g, 'v) prom \<Rightarrow> ('tx bid_map \<Rightarrow> txhash list) \<Rightarrow>
    ('tx event \<times> answers) list \<Rightarrow> ('tx, 'r, 'c, 'g, 'v) loop_state \<Rightarrow>
    'tx wire \<times> bool \<times> ('tx, 'r, 'c, 'g, 'v) loop_state" where
  "process_batch A P it [] st = ([], False, st)"
| "process_batch A P it (ea # batch) st =
     (let (out, failed, st') = process_event A P it ea st
      in if failed then (out, True, st')
         else (let (out', failed', st'') = process_batch A P it batch st'
               in (out @ out', failed', st'')))"

end
