(* ===== verification/Ipc_Batch.thy ===== *)
theory Ipc_Batch
  imports Ipc_Loop
begin

section \<open>What the loop does with a batch\<close>

text \<open>
  The effect of a batch on the three parts of the state: the pool takes a sequence of calls, the
  dedup cache a sequence of insertions and removals, the metrics count. From these: the
  invariants hold after every batch, a hash is sent at most once between two lifecycle events,
  everything on the wire is justified by what was observed, and the gauges and counters say what
  happened.
\<close>

subsection \<open>Effect on the pool and on the dedup cache\<close>

definition insert_ops :: "'tx wire \<Rightarrow> sent_op list" where
  "insert_ops out = map (\<lambda>(h, x). Ins h (ipc_priority x)) out"

lemma insert_ops_simps [simp]:
  "insert_ops [] = []" "insert_ops ((h, x) # out) = Ins h (ipc_priority x) # insert_ops out"
  "insert_ops (out @ out') = insert_ops out @ insert_ops out'"
  by (simp_all add: insert_ops_def)

lemma sent_run_simps [simp]:
  "sent_run [] s = s" "sent_run (Ins h p # ops) s = sent_run ops (snd (sent_insert h p s))"
  "sent_run (Del h # ops) s = sent_run ops (sent_remove h s)"
  by (simp_all add: sent_run_def)

lemma sent_run_append: "sent_run (a @ b) s = sent_run b (sent_run a s)"
proof (induction a arbitrary: s)
  case (Cons x a)
  then show ?case by (cases x) simp_all
qed simp

lemma send_loop_Send:
  assumes "\<not> sent_contains (ls_sent st) (rj_hash r)" "send_ok ans i"
    and "sent_insert (rj_hash r) (rj_priority r) (ls_sent st) = (ev, s)"
  shows "send_loop P ans i (r # rs) st =
    (let (out, failed, st') = send_loop P ans (Suc i) rs
        (st\<lparr>ls_sent := s, ls_metrics := set_sent_cache P (of_nat (sent_len s))
           (add_sent_cache_evictions P ev (record_prioritized P (wall_send ans i) (ls_metrics st)))\<rparr>)
     in ((rj_hash r, to_ipc r) # out, failed, st'))"
  using assms by (simp add: Let_def)

lemma send_loop_cases [consumes 1, case_names Nil skip fail send]:
  assumes "send_loop P ans i rs st = (out, failed, st')"
  obtains "rs = []" "out = []" "\<not> failed" "st' = st"
  | r rs' where "rs = r # rs'" "sent_contains (ls_sent st) (rj_hash r)"
      "send_loop P ans i rs' st = (out, failed, st')"
  | r rs' where "rs = r # rs'" "\<not> sent_contains (ls_sent st) (rj_hash r)" "\<not> send_ok ans i" "out = []" "failed"
      "st' = st\<lparr>ls_metrics := record_send_failure P (ls_metrics st)\<rparr>"
  | r rs' ev s out' where "rs = r # rs'" "\<not> sent_contains (ls_sent st) (rj_hash r)" "send_ok ans i"
      "sent_insert (rj_hash r) (rj_priority r) (ls_sent st) = (ev, s)"
      "send_loop P ans (Suc i) rs'
        (st\<lparr>ls_sent := s, ls_metrics := set_sent_cache P (of_nat (sent_len s))
           (add_sent_cache_evictions P ev (record_prioritized P (wall_send ans i) (ls_metrics st)))\<rparr>)
        = (out', failed, st')" "out = (rj_hash r, to_ipc r) # out'"
  using assms by (cases rs) (auto simp: Let_def split: if_splits prod.splits)

lemma send_loop_effect:
  "send_loop P ans i rs st = (out, failed, st') \<Longrightarrow>
     ls_pool st' = ls_pool st \<and> ls_sent st' = sent_run (insert_ops out) (ls_sent st)"
proof (induction rs arbitrary: i st out)
  case (Cons r rs)
  from Cons.prems show ?case
  proof (cases rule: send_loop_cases)
    case (send r' rs' ev s out')
    then show ?thesis using Cons.IH [of "Suc i"] by (auto simp: to_ipc_def)
  qed (use Cons.IH in auto)
qed auto

text \<open>What is sent is a sublist of the reinjections, in their order.\<close>

lemma send_loop_out:
  "send_loop P ans i rs st = (out, failed, st') \<Longrightarrow>
     set out \<subseteq> (\<lambda>r. (rj_hash r, to_ipc r)) ` set rs"
proof (induction rs arbitrary: i st out)
  case (Cons r rs)
  from Cons.prems show ?case
  proof (cases rule: send_loop_cases)
    case (send r' rs' ev s out')
    then show ?thesis using Cons.IH [of "Suc i"] by auto
  qed (use Cons.IH in auto)
qed auto

lemma observe_event_effect:
  assumes "observe_event A P ans h tx st = (rs, st')"
  shows "ls_pool st' = pool_run A it [Prune (prune_at ans), Observe h tx (observe_time ans)] (ls_pool st)"
    "rs = reinjections (fst (observe_at A h tx (observe_time ans) (snd (prune (prune_at ans) (ls_pool st)))))"
    "ls_sent st' = ls_sent st"
  using assms by (auto simp: observe_event_def Let_def split: prod.splits)

text \<open>The transactions that a list of events inserts, and the hashes it reports as gone.\<close>

fun inserts :: "('tx event \<times> answers) list \<Rightarrow> (txhash \<times> 'tx) set" where
  "inserts [] = {}"
| "inserts ((ev, ans) # batch) =
     (case ev_action ev of InsertEv tx \<Rightarrow> insert (ev_hash ev, tx) (inserts batch) | _ \<Rightarrow> inserts batch)"

fun gone :: "('tx event \<times> answers) list \<Rightarrow> txhash set" where
  "gone [] = {}"
| "gone ((ev, ans) # batch) =
     (case ev_action ev of InsertEv tx \<Rightarrow> gone batch | _ \<Rightarrow> insert (ev_hash ev) (gone batch))"

lemma inserts_Cons: "inserts (ea # batch) = inserts [ea] \<union> inserts batch"
  by (cases ea) (auto split: event_type.splits)

lemma gone_Cons: "gone (ea # batch) = gone [ea] \<union> gone batch"
  by (cases ea) (auto split: event_type.splits)

text \<open>The four outcomes of one event.\<close>

lemma process_event_cases [consumes 1, case_names echo insert gone]:
  assumes "process_event A P it (ev, ans) st = (out, failed, st')"
  obtains tx where "ev_action ev = InsertEv tx" "sent_contains (ls_sent st) (ev_hash ev)"
      "out = []" "\<not> failed"
      "st' = st\<lparr>ls_metrics := record_event P (event_kind (ev_action ev)) (wall_event ans) (ls_metrics st)\<rparr>"
  | tx rs st1 where "ev_action ev = InsertEv tx" "\<not> sent_contains (ls_sent st) (ev_hash ev)"
      "observe_event A P ans (ev_hash ev) tx
         (st\<lparr>ls_metrics := record_event P (event_kind (ev_action ev)) (wall_event ans) (ls_metrics st)\<rparr>) = (rs, st1)"
      "send_loop P ans 0 rs st1 = (out, failed, st')"
  | "\<forall>tx. ev_action ev \<noteq> InsertEv tx" "out = []" "\<not> failed"
      "st' = st\<lparr>ls_sent := sent_remove (ev_hash ev) (ls_sent st),
        ls_metrics := set_sent_cache P (of_nat (sent_len (sent_remove (ev_hash ev) (ls_sent st))))
          (record_event P (event_kind (ev_action ev)) (wall_event ans) (ls_metrics st)),
        ls_pool := forget it (ev_hash ev) (ls_pool st)\<rparr>"
  using assms
  by (cases "ev_action ev") (auto simp: process_event_def Let_def split: if_splits prod.splits)

lemma process_event_effect:
  assumes "process_event A P it ea st = (out, failed, st')"
  obtains calls ops where "ls_pool st' = pool_run A it calls (ls_pool st)" "observed calls \<subseteq> inserts [ea]"
    "ls_sent st' = sent_run ops (ls_sent st)" "ops = insert_ops out \<or> out = [] \<and> ops = [Del (ev_hash (fst ea))]
      \<and> ev_hash (fst ea) \<in> gone [ea]"
proof -
  obtain ev ans where ea: "ea = (ev, ans)" by (cases ea)
  from assms [unfolded ea] show thesis
  proof (cases rule: process_event_cases)
    case (echo tx)
    then show thesis using that [of "[]" "[]"] by simp
  next
    case (insert tx rs st1)
    note o = observe_event_effect(1) [OF insert(3), where it = it] observe_event_effect(3) [OF insert(3)] and s = send_loop_effect [OF insert(4)]
    have "(ev_hash ev, tx) \<in> inserts [ea]" using insert(1) by (simp add: ea)
    then show thesis
      using that [of "[Prune (prune_at ans), Observe (ev_hash ev) tx (observe_time ans)]" "insert_ops out"] o s
      by simp
  next
    case gone
    then have "ev_hash ev \<in> gone [ea]" by (cases "ev_action ev") (simp_all add: ea)
    then show thesis using that [of "[Forget (ev_hash ev)]" "[Del (ev_hash ev)]"] gone ea by simp
  qed
qed

subsection \<open>Invariants\<close>

definition loop_inv :: "('tx, 'r, 'c, 'g, 'v) loop_state \<Rightarrow> bool" where
  "loop_inv st \<longleftrightarrow> pool_inv (ls_pool st) \<and> sent_inv (ls_sent st)"

definition loop_config :: "('tx, 'r, 'c, 'g, 'v) loop_state \<Rightarrow> (policy_config \<times> u256 \<times> duration \<times> usize \<times> usize) \<times> nat" where
  "loop_config st = (pool_config (ls_pool st), unat (max_entries (ls_sent st)))"

lemma loop_inv_new:
  "Suc (unat (pm_max_pending_entries mode)) < 2 ^ 64 \<Longrightarrow> loop_inv (new_loop_state mode m)"
  by (simp add: loop_inv_def new_loop_state_def pool_inv_new sent_inv_new)

lemma sent_run_inv: "sent_inv s \<Longrightarrow> sent_inv (sent_run ops s)"
  unfolding sent_run_def by (rule sent.run_inv)

lemma sent_run_cap: "unat (max_entries (sent_run ops s)) = unat (max_entries s)"
  unfolding sent_run_def by (rule sent.run_cap)

lemma process_event_inv:
  assumes "loop_inv st" "process_event A P it ea st = (out, failed, st')"
  shows "loop_inv st' \<and> loop_config st' = loop_config st"
proof -
  obtain calls ops where "ls_pool st' = pool_run A it calls (ls_pool st)" "ls_sent st' = sent_run ops (ls_sent st)"
    using assms(2) by (rule process_event_effect)
  then show ?thesis
    using assms(1) pool_run_inv [of "ls_pool st" A it calls] sent_run_inv [of "ls_sent st" ops]
    by (simp add: loop_inv_def loop_config_def sent_run_cap)
qed

lemma process_batch_inv:
  "loop_inv st \<Longrightarrow> process_batch A P it batch st = (out, failed, st') \<Longrightarrow>
     loop_inv st' \<and> loop_config st' = loop_config st"
proof (induction batch arbitrary: st out)
  case (Cons ea batch)
  obtain out1 failed1 st1 where e: "process_event A P it ea st = (out1, failed1, st1)"
    using prod_cases3 by blast
  note inv1 = process_event_inv [OF Cons.prems(1) e]
  show ?case
  proof (cases failed1)
    case True
    then show ?thesis using Cons.prems(2) e inv1 by simp
  next
    case False
    then obtain out2 where "process_batch A P it batch st1 = (out2, failed, st')"
      using Cons.prems(2) e by (auto split: prod.splits)
    then show ?thesis using Cons.IH [of st1 out2] inv1 by simp
  qed
qed simp

text \<open>Facts about one event extend to a batch: \<open>R\<close> relates the state before, the events
  processed so far, what was sent, whether it failed and the state after.\<close>

lemma process_batch_lift:
  assumes nil: "\<And>st. R [] st [] False st"
    and step: "\<And>ea batch st out st1 out' failed st'.
      process_event A P it ea st = (out, False, st1) \<Longrightarrow> R batch st1 out' failed st' \<Longrightarrow>
      R (ea # batch) st (out @ out') failed st'"
    and stop: "\<And>ea batch st out st'.
      process_event A P it ea st = (out, True, st') \<Longrightarrow> R (ea # batch) st out True st'"
    and run: "process_batch A P it batch st = (out, failed, st')"
  shows "R batch st out failed st'"
  using run
proof (induction batch arbitrary: st out)
  case Nil
  then show ?case using nil by simp
next
  case (Cons ea batch)
  obtain out1 failed1 st1 where e: "process_event A P it ea st = (out1, failed1, st1)"
    using prod_cases3 by blast
  show ?case
  proof (cases failed1)
    case True
    then show ?thesis using Cons.prems e stop by simp
  next
    case False
    then obtain out2 where r: "process_batch A P it batch st1 = (out2, failed, st')" "out = out1 @ out2"
      using Cons.prems e by (auto split: prod.splits)
    show ?thesis using step [OF _ Cons.IH [OF r(1)], of ea st out1] e False r(2) by simp
  qed
qed

subsection \<open>A hash is sent once until its transaction is gone\<close>

lemma sent_insert_room:
  assumes "hm_len (fmupd h p (priorities s)) \<le> unat (max_entries s)"
  obtains ks where "sent_insert h p s = (0, s\<lparr>priorities := fmupd h p (priorities s), sent_order := ks\<rparr>)"
proof -
  obtain ev s' where i: "sent_insert h p s = (ev, s')" by fastforce
  then show thesis
    using that assms by (auto elim!: sent_insert_elim simp: sent_evict_noop_map)
qed

lemma sent_keys_insert_room:
  assumes "Suc (sent_len s) \<le> unat (max_entries s)" "sent_insert h p s = (ev, s')"
  shows "sent_keys s' = insert h (sent_keys s)" "max_entries s' = max_entries s"
    "sent_len s' \<le> Suc (sent_len s)"
proof -
  have "hm_len (fmupd h p (priorities s)) \<le> Suc (sent_len s)"
    by (simp add: hm_len_fmupd sent_len_def)
  moreover from this obtain ks where
    "sent_insert h p s = (0, s\<lparr>priorities := fmupd h p (priorities s), sent_order := ks\<rparr>)"
    using sent_insert_room [of h p s] assms(1) by (metis le_trans)
  ultimately show "sent_keys s' = insert h (sent_keys s)" "max_entries s' = max_entries s"
    "sent_len s' \<le> Suc (sent_len s)"
    using assms(2) by (auto simp: sent_keys_def sent_len_def)
qed

text \<open>\<open>sends h out\<close> counts the messages for \<open>h\<close>.\<close>

definition sends :: "txhash \<Rightarrow> 'tx wire \<Rightarrow> nat" where
  "sends h out = length (filter (\<lambda>(k, x). k = h) out)"

lemma sends_simps [simp]:
  "sends h [] = 0" "sends h ((k, x) # out) = (if k = h then 1 else 0) + sends h out"
  "sends h (out @ out') = sends h out + sends h out'"
  by (simp_all add: sends_def)

text \<open>With room for the hashes that are sent, none is sent twice, and each is remembered.\<close>

definition once :: "txhash \<Rightarrow> sent_cache \<Rightarrow> 'tx wire \<Rightarrow> sent_cache \<Rightarrow> bool" where
  "once h s out s' \<longleftrightarrow> (sent_len s + length out \<le> unat (max_entries s) \<longrightarrow>
     max_entries s' = max_entries s \<and> sent_len s' \<le> sent_len s + length out
     \<and> sends h out + (if h \<in> sent_keys s then 1 else 0) = (if h \<in> sent_keys s' then 1 else 0))"

lemma once_trans:
  "once h s out s' \<Longrightarrow> once h s' out' s'' \<Longrightarrow> once h s (out @ out') s''"
  by (auto simp: once_def split: if_splits)

lemma send_loop_once:
  "send_loop P ans i rs st = (out, failed, st') \<Longrightarrow> once h (ls_sent st) out (ls_sent st')"
proof (induction rs arbitrary: i st out)
  case (Cons r rs)
  from Cons.prems show ?case
  proof (cases rule: send_loop_cases)
    case (send r' rs' ev s out')
    have "once h (ls_sent st) [(rj_hash r, to_ipc r)] s"
    proof (unfold once_def, intro impI)
      assume "sent_len (ls_sent st) + length [(rj_hash r, to_ipc r)] \<le> unat (max_entries (ls_sent st))"
      then show "max_entries s = max_entries (ls_sent st)
          \<and> sent_len s \<le> sent_len (ls_sent st) + length [(rj_hash r, to_ipc r)]
          \<and> sends h [(rj_hash r, to_ipc r)] + (if h \<in> sent_keys (ls_sent st) then 1 else 0)
            = (if h \<in> sent_keys s then 1 else 0)"
        using sent_keys_insert_room [OF _ send(4)] send(1,2) by (auto simp: sent_contains_keys)
    qed
    moreover have eq: "r' = r" "rs' = rs" using send(1) by simp_all
    have "once h s out' (ls_sent st')"
      using Cons.IH [OF send(5) [unfolded eq]] by simp
    ultimately have "once h (ls_sent st) ([(rj_hash r, to_ipc r)] @ out') (ls_sent st')"
      by (rule once_trans)
    then show ?thesis by (simp add: send(6) eq)
  qed (use Cons.IH in \<open>auto simp: once_def\<close>)
qed (simp add: once_def)

lemma process_event_once:
  assumes "process_event A P it ea st = (out, failed, st')" "h \<notin> gone [ea]"
  shows "once h (ls_sent st) out (ls_sent st')"
proof -
  obtain ev ans where ea: "ea = (ev, ans)" by (cases ea)
  from assms(1) [unfolded ea] show ?thesis
  proof (cases rule: process_event_cases)
    case (insert tx rs st1)
    then show ?thesis
      using send_loop_once [OF insert(4), of h] observe_event_effect(3) [OF insert(3)] by simp
  next
    case gone
    then have "h \<noteq> ev_hash ev" using assms(2) by (cases "ev_action ev") (auto simp: ea)
    moreover have "sent_len (sent_remove (ev_hash ev) (ls_sent st)) \<le> sent_len (ls_sent st)"
      by (simp add: sent_len_def sent_remove_def hm_len_fmdrop)
    ultimately show ?thesis using gone by (simp add: once_def)
  qed (simp add: once_def)
qed

lemma process_batch_once:
  assumes "process_batch A P it batch st = (out, failed, st')" "h \<notin> gone batch"
  shows "once h (ls_sent st) out (ls_sent st')"
proof -
  have "h \<notin> gone batch \<longrightarrow> once h (ls_sent st) out (ls_sent st')"
    using assms(1)
  proof (rule process_batch_lift [where R = "\<lambda>batch st out failed st'.
        h \<notin> gone batch \<longrightarrow> once h (ls_sent st) out (ls_sent st')", rotated -1])
    show "h \<notin> gone (ea # batch) \<longrightarrow> once h (ls_sent st) (out @ out') (ls_sent st')"
      if "process_event A P it ea st = (out, False, st1)" "h \<notin> gone batch \<longrightarrow> once h (ls_sent st1) out' (ls_sent st')"
      for ea batch st out st1 out' failed st'
      using process_event_once [OF that(1)] that(2) once_trans gone_Cons [of ea batch] by blast
    show "h \<notin> gone (ea # batch) \<longrightarrow> once h (ls_sent st) out (ls_sent st')"
      if "process_event A P it ea st = (out, True, st')" for ea batch st out st'
      using process_event_once [OF that] gone_Cons [of ea batch] by blast
  qed (simp add: once_def)
  then show ?thesis using assms(2) by blast
qed

subsection \<open>Everything on the wire was earned\<close>

text \<open>A message: a top-of-block bid, a backrun bid, or the target of an observed backrun bid, each
  with the priority of its kind.\<close>

definition message_ok :: "'tx alloy \<Rightarrow> policy_config \<Rightarrow> u256 \<Rightarrow> (txhash \<times> 'tx) set \<Rightarrow> txhash \<times> 'tx ipc_tx \<Rightarrow> bool" where
  "message_ok A pol fb S = (\<lambda>(h, x).
     (h, ipc_payload x) \<in> S \<and> extra_data x = [] \<and>
     (tob_bid A pol (ipc_payload x) \<and> ipc_priority x = tob_priority A pol fb (ipc_payload x)
      \<or> (\<exists>t. backrun_bid_for A pol (ipc_payload x) t
           \<and> ipc_priority x = encode_backrun_bid_priority t (compute_priority A (ipc_payload x) pol))
      \<or> ipc_priority x = encode_opportunity_priority h
         \<and> (\<exists>(k, tx) \<in> S. backrun_bid_for A pol tx h)))"

lemma message_ok_mono: "S \<subseteq> S' \<Longrightarrow> message_ok A pol fb S m \<Longrightarrow> message_ok A pol fb S' m"
  unfolding message_ok_def by (cases m) blast

lemma reinjection_message:
  assumes ok: "\<And>r. r \<in> set R \<Longrightarrow> reinjection_ok A pol fb R r \<and> (rj_hash r, rj_tx r) \<in> S"
    and r: "r \<in> set R"
  shows "message_ok A pol fb S (rj_hash r, to_ipc r)"
proof -
  have "\<exists>(k, tx) \<in> S. backrun_bid_for A pol tx (rj_hash r)"
    if "r' \<in> set R" "backrun_bid_for A pol (rj_tx r') (rj_hash r)" for r'
    using ok [OF that(1)] that(2) by blast
  then show ?thesis
    using ok [OF r] unfolding reinjection_ok_def message_ok_def
    by (simp add: to_ipc_def) blast
qed

lemma process_event_sourced:
  assumes src: "pool_sourced A S (ls_pool st)" and run: "process_event A P it ea st = (out, failed, st')"
  shows "pool_sourced A (S \<union> inserts [ea]) (ls_pool st')"
    "m \<in> set out \<Longrightarrow> message_ok A (policy (ls_pool st)) (fallback (ls_pool st)) (S \<union> inserts [ea]) m"
proof -
  obtain ev ans where ea: "ea = (ev, ans)" by (cases ea)
  have "pool_sourced A (S \<union> inserts [ea]) (ls_pool st') \<and>
    (\<forall>m \<in> set out. message_ok A (policy (ls_pool st)) (fallback (ls_pool st)) (S \<union> inserts [ea]) m)"
    using run [unfolded ea]
  proof (cases rule: process_event_cases)
    case (echo tx)
    have "pool_sourced A (S \<union> T) (ls_pool st)" for T
      using run_sourced [OF src, of "[]"] src unfolding pool_sourced_def bid_ok_def by blast
    then show ?thesis using echo by simp
  next
    case (insert tx rs st1)
    let ?S = "S \<union> inserts [ea]" and ?h = "ev_hash ev"
    have ins: "inserts [ea] = {(?h, tx)}" using insert(1) by (simp add: ea)
    obtain ex p1 where pr: "prune (prune_at ans) (ls_pool st) = (ex, p1)" by fastforce
    obtain res p2 where obs: "observe_at A ?h tx (observe_time ans) p1 = (res, p2)" by fastforce
    have src1: "pool_sourced A S p1" using prune_sourced [OF src, of "prune_at ans"] by (simp add: pr)
    have cfg: "policy p1 = policy (ls_pool st)" "fallback p1 = fallback (ls_pool st)"
      using prune_inv(2) [OF pool_sourcedD(1) [OF src] pr] by (simp_all add: pool_config_def)
    have rs: "rs = reinjections res" and p2: "ls_pool st1 = p2"
      using observe_event_effect(1,2) [OF insert(3)] pr obs by simp_all
    have "reinjection_ok A (policy (ls_pool st)) (fallback (ls_pool st)) rs r \<and> (rj_hash r, rj_tx r) \<in> ?S"
      if "r \<in> set rs" for r
      using observe_reinjections_ok [OF src1 obs] that by (simp add: rs cfg ins)
    note msg = reinjection_message [OF this]
    have "message_ok A (policy (ls_pool st)) (fallback (ls_pool st)) ?S m" if "m \<in> set out" for m
      using send_loop_out [OF insert(4)] that msg by blast
    moreover have "ls_pool st' = p2" using send_loop_effect [OF insert(4)] p2 by simp
    ultimately show ?thesis using observe_sourced [OF src1 obs] by (simp add: ins)
  next
    case gone
    then have "inserts [ea] = {}" by (cases "ev_action ev") (auto simp: ea)
    then show ?thesis using gone forget_sourced [OF src, of it "ev_hash ev"] by simp
  qed
  then show "pool_sourced A (S \<union> inserts [ea]) (ls_pool st')"
    "m \<in> set out \<Longrightarrow> message_ok A (policy (ls_pool st)) (fallback (ls_pool st)) (S \<union> inserts [ea]) m"
    by blast+
qed

lemma process_batch_sourced:
  "pool_sourced A S (ls_pool st) \<Longrightarrow> process_batch A P it batch st = (out, failed, st') \<Longrightarrow>
     (\<exists>S'. pool_sourced A S' (ls_pool st') \<and> S' \<subseteq> S \<union> inserts batch)
     \<and> (\<forall>m \<in> set out. message_ok A (policy (ls_pool st)) (fallback (ls_pool st)) (S \<union> inserts batch) m)"
proof (induction batch arbitrary: S st out)
  case Nil
  then show ?case by auto
next
  case (Cons ea batch)
  obtain out1 failed1 st1 where e: "process_event A P it ea st = (out1, failed1, st1)"
    using prod_cases3 by blast
  note p = process_event_sourced [OF Cons.prems(1) e]
  have sub: "S \<union> inserts [ea] \<subseteq> S \<union> inserts (ea # batch)"
    using inserts_Cons [of ea batch] by blast
  have cfg: "policy (ls_pool st1) = policy (ls_pool st)" "fallback (ls_pool st1) = fallback (ls_pool st)"
  proof -
    obtain calls ops where "ls_pool st1 = pool_run A it calls (ls_pool st)"
      using e by (rule process_event_effect)
    then have "pool_config (ls_pool st1) = pool_config (ls_pool st)"
      using pool_run_inv [OF pool_sourcedD(1) [OF Cons.prems(1)]] by simp
    then show "policy (ls_pool st1) = policy (ls_pool st)" "fallback (ls_pool st1) = fallback (ls_pool st)"
      by (simp_all add: pool_config_def)
  qed
  show ?case
  proof (cases failed1)
    case True
    then show ?thesis using Cons.prems(2) e p sub message_ok_mono [OF sub] by auto
  next
    case False
    then obtain out2 where r: "process_batch A P it batch st1 = (out2, failed, st')" "out = out1 @ out2"
      using Cons.prems(2) e by (auto split: prod.splits)
    have S: "S \<union> inserts [ea] \<union> inserts batch = S \<union> inserts (ea # batch)"
      using inserts_Cons [of ea batch] by blast
    show ?thesis
      using Cons.IH [OF p(1) r(1)] p(2) message_ok_mono [OF sub] unfolding r(2) S cfg by auto
  qed
qed

subsection \<open>What stays cached\<close>

text \<open>The events of a batch as operations on the candidate cache; the cache of the pool is a store of
  the contract \<open>expiring_store\<close>, and an insert expires before it inserts.\<close>

fun store_ops :: "('tx event \<times> answers) list \<Rightarrow> (txhash, unit) store_op list" where
  "store_ops [] = []"
| "store_ops ((ev, ans) # batch) =
     (case ev_action ev of InsertEv tx \<Rightarrow> Ins (ev_hash ev) () | _ \<Rightarrow> Del (ev_hash ev)) # store_ops batch"

lemma process_event_keys:
  assumes inv: "pool_inv (ls_pool st)" and run: "process_event A P it (ev, ans) st = (out, failed, st')"
  shows "cache_keys (ls_pool st') \<subseteq> surviving (store_ops [(ev, ans)]) (cache_keys (ls_pool st))"
  using run
proof (cases rule: process_event_cases)
  case (echo tx)
  then show ?thesis by auto
next
  case (insert tx rs st1)
  have "ls_pool st' = observe_pool A (ev_hash ev) (tx, observe_time ans) (prune_pool (prune_at ans) (ls_pool st))"
    using observe_event_effect(1) [OF insert(3)] send_loop_effect [OF insert(4)]
    by (simp add: observe_pool_def prune_pool_def)
  then show ?thesis
    using pool.refreshed.keys_ins [OF inv, of A "ev_hash ev" "((tx, observe_time ans), prune_at ans)"] insert(1)
    by simp
next
  case gone
  then show ?thesis
    using pool.keys_del [of it "ev_hash ev" "ls_pool st"] by (cases "ev_action ev") simp_all
qed

lemma process_batch_keys:
  "pool_inv (ls_pool st) \<Longrightarrow> process_batch A P it batch st = (out, False, st') \<Longrightarrow>
     cache_keys (ls_pool st') \<subseteq> surviving (store_ops batch) (cache_keys (ls_pool st))"
proof (induction batch arbitrary: st out)
  case (Cons ea batch)
  obtain ev ans where ea: "ea = (ev, ans)" by (cases ea)
  obtain out1 failed1 st1 where e: "process_event A P it (ev, ans) st = (out1, failed1, st1)"
    using prod_cases3 by blast
  then obtain out2 where r: "process_batch A P it batch st1 = (out2, False, st')"
    using Cons.prems(2) by (auto simp: ea split: prod.splits if_splits)
  obtain calls ops where "ls_pool st1 = pool_run A it calls (ls_pool st)"
    using e by (rule process_event_effect)
  then have "pool_inv (ls_pool st1)" using pool_run_inv [OF Cons.prems(1), of A it calls] by simp
  from Cons.IH [OF this r] surviving_mono [OF process_event_keys [OF Cons.prems(1) e], of "store_ops batch"]
  show ?case by (cases "ev_action ev") (auto simp: ea)
qed simp

end
