(* ===== verification/Ipc_Metrics.thy ===== *)
theory Ipc_Metrics
  imports Ipc_Batch
begin

section \<open>What the loop reports\<close>

text \<open>
  The counters and gauges after a batch against what the batch did: messages sent, failures,
  events by kind, the size of the dedup cache, the size of the pairing pool; the updates that
  leave the connection state alone.
\<close>

lemmas metric_updates =
  set_ipc_state_def record_event_def record_insert_def record_prioritized_def
  record_skipped_non_gateway_def record_skipped_invalid_gateway_def
  add_backrun_pairs_def add_backrun_pended_def add_backrun_expired_def add_backrun_evicted_def
  set_backrun_pending_def set_backrun_cache_def add_sent_cache_evictions_def set_sent_cache_def
  record_send_failure_def record_reconnect_def

definition prioritized_count :: "('r, 'c, 'g, 'v) prom \<Rightarrow> ('r, 'c, 'g, 'v) metrics \<Rightarrow> u64" where
  "prioritized_count P m = counter_get P (txpool_prioritized_total m)"

definition failure_count :: "('r, 'c, 'g, 'v) prom \<Rightarrow> ('r, 'c, 'g, 'v) metrics \<Rightarrow> u64" where
  "failure_count P m = counter_get P (txpool_send_failures_total m)"

definition connection_fields :: "('r, 'c, 'g, 'v) metrics \<Rightarrow> 'g \<times> i64 \<times> 'c" where
  "connection_fields m = (txpool_ipc_state m, ipc_state_ts m, txpool_ipc_reconnects_total m)"

lemmas metric_views = prioritized_count_def failure_count_def connection_fields_def

definition sent_gauge_ok :: "('r, 'c, 'g, 'v) prom \<Rightarrow> ('tx, 'r, 'c, 'g, 'v) loop_state \<Rightarrow> bool" where
  "sent_gauge_ok P st \<longleftrightarrow> gauge_get P (txpool_sent_cache (ls_metrics st)) = of_nat (sent_len (ls_sent st))"

definition pool_gauges_ok :: "('r, 'c, 'g, 'v) prom \<Rightarrow> ('tx, 'r, 'c, 'g, 'v) loop_state \<Rightarrow> bool" where
  "pool_gauges_ok P st \<longleftrightarrow>
     gauge_get P (backrun_pending (ls_metrics st)) = pending_len (ls_pool st)
     \<and> gauge_get P (backrun_cache (ls_metrics st)) = of_nat (cache_len (ls_pool st))"

subsection \<open>The send loop\<close>

lemma send_loop_metrics:
  assumes P: "prom_laws P" and run: "send_loop P ans i rs st = (out, failed, st')"
  shows "prioritized_count P (ls_metrics st') = prioritized_count P (ls_metrics st) + of_nat (length out)"
    "failure_count P (ls_metrics st') = failure_count P (ls_metrics st) + (if failed then 1 else 0)"
    "txpool_events_total (ls_metrics st') = txpool_events_total (ls_metrics st)"
    "connection_fields (ls_metrics st') = connection_fields (ls_metrics st)"
    "sent_gauge_ok P st \<Longrightarrow> sent_gauge_ok P st'"
    "pool_gauges_ok P st \<Longrightarrow> pool_gauges_ok P st'"
proof -
  have "prioritized_count P (ls_metrics st') = prioritized_count P (ls_metrics st) + of_nat (length out)
    \<and> failure_count P (ls_metrics st') = failure_count P (ls_metrics st) + (if failed then 1 else 0)
    \<and> txpool_events_total (ls_metrics st') = txpool_events_total (ls_metrics st)
    \<and> connection_fields (ls_metrics st') = connection_fields (ls_metrics st)
    \<and> (sent_gauge_ok P st \<longrightarrow> sent_gauge_ok P st') \<and> (pool_gauges_ok P st \<longrightarrow> pool_gauges_ok P st')"
    using run
  proof (induction rs arbitrary: i st out)
    case Nil
    then show ?case by simp
  next
    case (Cons r rs)
    from Cons.prems show ?case
    proof (cases rule: send_loop_cases)
      case (skip r' rs')
      then show ?thesis using Cons.IH by simp
    next
      case (fail r' rs')
      then show ?thesis
        by (simp add: metric_views record_send_failure_def prom_lawsD(1) [OF P] sent_gauge_ok_def pool_gauges_ok_def)
    next
      case (send r' rs' ev s out')
      have eq: "r' = r" "rs' = rs" using send(1) by simp_all
      let ?m = "set_sent_cache P (of_nat (sent_len s))
           (add_sent_cache_evictions P ev (record_prioritized P (wall_send ans i) (ls_metrics st)))"
      have "prioritized_count P ?m = prioritized_count P (ls_metrics st) + 1"
        "failure_count P ?m = failure_count P (ls_metrics st)"
        "txpool_events_total ?m = txpool_events_total (ls_metrics st)"
        "connection_fields ?m = connection_fields (ls_metrics st)"
        "gauge_get P (txpool_sent_cache ?m) = of_nat (sent_len s)"
        "backrun_pending ?m = backrun_pending (ls_metrics st)" "backrun_cache ?m = backrun_cache (ls_metrics st)"
        by (simp_all add: metric_views set_sent_cache_def add_sent_cache_evictions_def
            record_prioritized_def Let_def prom_lawsD(1,2) [OF P])
      then show ?thesis
        using Cons.IH [OF send(5) [unfolded eq]] send(6)
        by (simp add: sent_gauge_ok_def pool_gauges_ok_def algebra_simps)
    qed (use Cons.prems in simp_all)
  qed
  then show "prioritized_count P (ls_metrics st') = prioritized_count P (ls_metrics st) + of_nat (length out)"
    "failure_count P (ls_metrics st') = failure_count P (ls_metrics st) + (if failed then 1 else 0)"
    "txpool_events_total (ls_metrics st') = txpool_events_total (ls_metrics st)"
    "connection_fields (ls_metrics st') = connection_fields (ls_metrics st)"
    "sent_gauge_ok P st \<Longrightarrow> sent_gauge_ok P st'"
    "pool_gauges_ok P st \<Longrightarrow> pool_gauges_ok P st'"
    by blast+
qed

subsection \<open>Observing\<close>

lemma observe_event_metrics:
  assumes P: "prom_laws P" and run: "observe_event A P ans h tx st = (rs, st')"
  shows "prioritized_count P (ls_metrics st') = prioritized_count P (ls_metrics st)"
    "failure_count P (ls_metrics st') = failure_count P (ls_metrics st)"
    "txpool_events_total (ls_metrics st') = txpool_events_total (ls_metrics st)"
    "connection_fields (ls_metrics st') = connection_fields (ls_metrics st)"
    "sent_gauge_ok P st \<Longrightarrow> sent_gauge_ok P st'"
    "pool_gauges_ok P st'"
  using run
  by (auto simp: observe_event_def Let_def metric_views metric_updates prom_lawsD(1,2) [OF P]
      sent_gauge_ok_def pool_gauges_ok_def split: prod.splits)

subsection \<open>Events and batches\<close>

lemma record_event_views:
  shows "prioritized_count P (record_event P kind w m) = prioritized_count P m"
    "failure_count P (record_event P kind w m) = failure_count P m"
    "txpool_events_total (record_event P kind w m) = vec_inc P [kind] (txpool_events_total m)"
    "connection_fields (record_event P kind w m) = connection_fields m"
    "txpool_sent_cache (record_event P kind w m) = txpool_sent_cache m"
    "backrun_pending (record_event P kind w m) = backrun_pending m"
    "backrun_cache (record_event P kind w m) = backrun_cache m"
  by (simp_all add: metric_views record_event_def Let_def)

lemma process_event_metrics:
  assumes P: "prom_laws P" and run: "process_event A P it (ev, ans) st = (out, failed, st')"
  shows "prioritized_count P (ls_metrics st') = prioritized_count P (ls_metrics st) + of_nat (length out)"
    "failure_count P (ls_metrics st') = failure_count P (ls_metrics st) + (if failed then 1 else 0)"
    "txpool_events_total (ls_metrics st') = vec_inc P [event_kind (ev_action ev)] (txpool_events_total (ls_metrics st))"
    "connection_fields (ls_metrics st') = connection_fields (ls_metrics st)"
    "sent_gauge_ok P st \<Longrightarrow> sent_gauge_ok P st'"
proof -
  note re = record_event_views
  have "prioritized_count P (ls_metrics st') = prioritized_count P (ls_metrics st) + of_nat (length out)
    \<and> failure_count P (ls_metrics st') = failure_count P (ls_metrics st) + (if failed then 1 else 0)
    \<and> txpool_events_total (ls_metrics st') = vec_inc P [event_kind (ev_action ev)] (txpool_events_total (ls_metrics st))
    \<and> connection_fields (ls_metrics st') = connection_fields (ls_metrics st)
    \<and> (sent_gauge_ok P st \<longrightarrow> sent_gauge_ok P st')"
    using run
  proof (cases rule: process_event_cases)
    case (echo tx)
    then show ?thesis by (simp add: re sent_gauge_ok_def)
  next
    case (insert tx rs st1)
    note o = observe_event_metrics [OF P insert(3)] and s = send_loop_metrics [OF P insert(4)]
    have "sent_gauge_ok P st \<Longrightarrow> sent_gauge_ok P st1"
      using o(5) by (simp add: sent_gauge_ok_def re)
    then show ?thesis using o(1-4) s(1-5) by (simp add: re)
  next
    case gone
    have v: "prioritized_count P (set_sent_cache P n m) = prioritized_count P m"
      "failure_count P (set_sent_cache P n m) = failure_count P m"
      "txpool_events_total (set_sent_cache P n m) = txpool_events_total m"
      "connection_fields (set_sent_cache P n m) = connection_fields m"
      "gauge_get P (txpool_sent_cache (set_sent_cache P n m)) = n" for n m
      by (simp_all add: metric_views set_sent_cache_def prom_lawsD(2) [OF P])
    show ?thesis using gone by (simp add: v re sent_gauge_ok_def)
  qed
  then show "prioritized_count P (ls_metrics st') = prioritized_count P (ls_metrics st) + of_nat (length out)"
    "failure_count P (ls_metrics st') = failure_count P (ls_metrics st) + (if failed then 1 else 0)"
    "txpool_events_total (ls_metrics st') = vec_inc P [event_kind (ev_action ev)] (txpool_events_total (ls_metrics st))"
    "connection_fields (ls_metrics st') = connection_fields (ls_metrics st)"
    "sent_gauge_ok P st \<Longrightarrow> sent_gauge_ok P st'"
    by blast+
qed

lemma process_batch_metrics:
  fixes P :: "('r, 'c, 'g, 'v) prom" and st :: "('tx, 'r, 'c, 'g, 'v) loop_state"
  assumes P: "prom_laws P" and run: "process_batch A P it batch st = (out, failed, st')"
  shows "prioritized_count P (ls_metrics st') = prioritized_count P (ls_metrics st) + of_nat (length out)"
    "failure_count P (ls_metrics st') = failure_count P (ls_metrics st) + (if failed then 1 else 0)"
    "connection_fields (ls_metrics st') = connection_fields (ls_metrics st)"
    "sent_gauge_ok P st \<Longrightarrow> sent_gauge_ok P st'"
proof -
  define R :: "('tx event \<times> answers) list \<Rightarrow> ('tx, 'r, 'c, 'g, 'v) loop_state \<Rightarrow> 'tx wire \<Rightarrow> bool \<Rightarrow>
      ('tx, 'r, 'c, 'g, 'v) loop_state \<Rightarrow> bool"
    where "R = (\<lambda>batch st out failed st'.
      prioritized_count P (ls_metrics st') = prioritized_count P (ls_metrics st) + of_nat (length out)
      \<and> failure_count P (ls_metrics st') = failure_count P (ls_metrics st) + (if failed then 1 else 0)
      \<and> connection_fields (ls_metrics st') = connection_fields (ls_metrics st)
      \<and> (sent_gauge_ok P st \<longrightarrow> sent_gauge_ok P st'))"
  have "R batch st out failed st'"
    using run
  proof (rule process_batch_lift [rotated -1])
    show "R (ea # batch) st (out @ out') failed st'"
      if "process_event A P it ea st = (out, False, st1)" "R batch st1 out' failed st'"
      for ea batch st out st1 out' failed st'
      using that process_event_metrics(1,2,4,5) [OF P, of A it "fst ea" "snd ea" st out False st1]
      by (simp add: R_def algebra_simps)
    show "R (ea # batch) st out True st'"
      if "process_event A P it ea st = (out, True, st')" for ea batch st out st'
      using that process_event_metrics(1,2,4,5) [OF P, of A it "fst ea" "snd ea" st out True st']
      by (simp add: R_def)
  qed (simp add: R_def)
  then show "prioritized_count P (ls_metrics st') = prioritized_count P (ls_metrics st) + of_nat (length out)"
    "failure_count P (ls_metrics st') = failure_count P (ls_metrics st) + (if failed then 1 else 0)"
    "connection_fields (ls_metrics st') = connection_fields (ls_metrics st)"
    "sent_gauge_ok P st \<Longrightarrow> sent_gauge_ok P st'"
    by (simp_all add: R_def)
qed

text \<open>The gauges of the pairing pool are right after every insert that is not an echo; lifecycle
  events change the pool without setting them.\<close>

lemma insert_pool_gauges:
  assumes P: "prom_laws P" and run: "process_event A P it (ev, ans) st = (out, failed, st')"
    and ins: "ev_action ev = InsertEv tx" "\<not> sent_contains (ls_sent st) (ev_hash ev)"
  shows "pool_gauges_ok P st'"
  using run
proof (cases rule: process_event_cases)
  case (insert tx' rs st1)
  show ?thesis
    by (rule send_loop_metrics(6) [OF P insert(4) observe_event_metrics(6) [OF P insert(3)]])
qed (use ins in simp_all)

end
