(* ===== verification/Ipc_Machine.thy ===== *)
theory Ipc_Machine
  imports Ipc_Metrics
begin

section \<open>The loop as a transition system\<close>

text \<open>
  The await points of \<open>run_txpool_priority_loop\<close> and \<open>sleep_or_shutdown\<close> as phases, and one rule
  per way the program leaves one. The surroundings decide which rule fires: whether a connection
  comes up, which batch arrives, when the stream ends, when the timer rings, when the shutdown
  signal is sent. The watch channel is its value and whether the receiver has seen its last
  change: \<open>borrow\<close> reads the value, \<open>changed\<close> waits for an unseen change and marks it seen.
  A batch is processed without looking at the channel.
\<close>

subsection \<open>Phases, configurations, labels\<close>

datatype phase = Starting | LoopTop | AwaitConnect | Sleeping | InConnection | Returned

record ('tx, 'r, 'c, 'g, 'v) config =
  cf_phase :: phase
  cf_shutdown :: bool
  cf_unseen :: bool
  cf_state :: "('tx, 'r, 'c, 'g, 'v) loop_state"

datatype 'tx label =
    Signal
  | Internal
  | ConnectFail
  | ConnectOk
  | Timer
  | Changed
  | Batch "('tx event \<times> answers) list" "'tx wire"
  | StreamEnd

definition with_metrics :: "(('r, 'c, 'g, 'v) metrics \<Rightarrow> ('r, 'c, 'g, 'v) metrics) \<Rightarrow>
    ('tx, 'r, 'c, 'g, 'v) loop_state \<Rightarrow> ('tx, 'r, 'c, 'g, 'v) loop_state" where
  "with_metrics f st = st\<lparr>ls_metrics := f (ls_metrics st)\<rparr>"

inductive ipc_step :: "'tx alloy \<Rightarrow> ('r, 'c, 'g, 'v) prom \<Rightarrow> ('tx bid_map \<Rightarrow> txhash list) \<Rightarrow>
    ('tx, 'r, 'c, 'g, 'v) config \<Rightarrow> 'tx label \<Rightarrow> ('tx, 'r, 'c, 'g, 'v) config \<Rightarrow> bool"
  for A P it where
  signal: "ipc_step A P it \<lparr>cf_phase = ph, cf_shutdown = sd, cf_unseen = un, cf_state = st\<rparr> Signal
    \<lparr>cf_phase = ph, cf_shutdown = True, cf_unseen = True, cf_state = st\<rparr>"
| start_stop: "ipc_step A P it \<lparr>cf_phase = Starting, cf_shutdown = True, cf_unseen = un, cf_state = st\<rparr> Internal
    \<lparr>cf_phase = Returned, cf_shutdown = True, cf_unseen = un, cf_state = st\<rparr>"
| start: "ipc_step A P it \<lparr>cf_phase = Starting, cf_shutdown = False, cf_unseen = un, cf_state = st\<rparr> Internal
    \<lparr>cf_phase = LoopTop, cf_shutdown = False, cf_unseen = un, cf_state = with_metrics (set_ipc_state P Connecting) st\<rparr>"
| top_stop: "ipc_step A P it \<lparr>cf_phase = LoopTop, cf_shutdown = True, cf_unseen = un, cf_state = st\<rparr> Internal
    \<lparr>cf_phase = Returned, cf_shutdown = True, cf_unseen = un, cf_state = with_metrics (set_ipc_state P Disabled) st\<rparr>"
| top: "ipc_step A P it \<lparr>cf_phase = LoopTop, cf_shutdown = False, cf_unseen = un, cf_state = st\<rparr> Internal
    \<lparr>cf_phase = AwaitConnect, cf_shutdown = False, cf_unseen = un, cf_state = with_metrics (set_ipc_state P Connecting) st\<rparr>"
| connect_fail: "ipc_step A P it \<lparr>cf_phase = AwaitConnect, cf_shutdown = sd, cf_unseen = un, cf_state = st\<rparr> ConnectFail
    \<lparr>cf_phase = Sleeping, cf_shutdown = sd, cf_unseen = un, cf_state = st\<rparr>"
| connect_ok: "ipc_step A P it \<lparr>cf_phase = AwaitConnect, cf_shutdown = sd, cf_unseen = un, cf_state = st\<rparr> ConnectOk
    \<lparr>cf_phase = InConnection, cf_shutdown = sd, cf_unseen = un,
     cf_state = with_metrics (\<lambda>m. record_reconnect P (set_ipc_state P Connected m)) st\<rparr>"
| timer: "ipc_step A P it \<lparr>cf_phase = Sleeping, cf_shutdown = sd, cf_unseen = un, cf_state = st\<rparr> Timer
    \<lparr>cf_phase = LoopTop, cf_shutdown = sd, cf_unseen = un, cf_state = st\<rparr>"
| woken: "ipc_step A P it \<lparr>cf_phase = Sleeping, cf_shutdown = sd, cf_unseen = True, cf_state = st\<rparr> Changed
    \<lparr>cf_phase = LoopTop, cf_shutdown = sd, cf_unseen = False, cf_state = st\<rparr>"
| changed_stop: "ipc_step A P it \<lparr>cf_phase = InConnection, cf_shutdown = True, cf_unseen = True, cf_state = st\<rparr> Changed
    \<lparr>cf_phase = Returned, cf_shutdown = True, cf_unseen = False, cf_state = with_metrics (set_ipc_state P Disabled) st\<rparr>"
| changed_on: "ipc_step A P it \<lparr>cf_phase = InConnection, cf_shutdown = False, cf_unseen = True, cf_state = st\<rparr> Changed
    \<lparr>cf_phase = InConnection, cf_shutdown = False, cf_unseen = False, cf_state = st\<rparr>"
| batch: "process_batch A P it b st = (out, failed, st') \<Longrightarrow>
    ipc_step A P it \<lparr>cf_phase = InConnection, cf_shutdown = sd, cf_unseen = un, cf_state = st\<rparr> (Batch b out)
    \<lparr>cf_phase = (if failed then LoopTop else InConnection), cf_shutdown = sd, cf_unseen = un, cf_state = st'\<rparr>"
| stream_end: "ipc_step A P it \<lparr>cf_phase = InConnection, cf_shutdown = sd, cf_unseen = un, cf_state = st\<rparr> StreamEnd
    \<lparr>cf_phase = LoopTop, cf_shutdown = sd, cf_unseen = un, cf_state = st\<rparr>"

inductive_cases ipc_step_Signal: "ipc_step A P it c Signal c'"
inductive_cases ipc_step_Batch: "ipc_step A P it c (Batch b out) c'"
inductive_cases ipc_step_returned:
  "ipc_step A P it \<lparr>cf_phase = Returned, cf_shutdown = sd, cf_unseen = un, cf_state = st\<rparr> l c'"
inductive_simps ipc_step_top_simps:
  "ipc_step A P it \<lparr>cf_phase = LoopTop, cf_shutdown = sd, cf_unseen = un, cf_state = st\<rparr> l c'"

inductive ipc_path :: "'tx alloy \<Rightarrow> ('r, 'c, 'g, 'v) prom \<Rightarrow> ('tx bid_map \<Rightarrow> txhash list) \<Rightarrow>
    ('tx, 'r, 'c, 'g, 'v) config \<Rightarrow> 'tx label list \<Rightarrow> ('tx, 'r, 'c, 'g, 'v) config \<Rightarrow> bool"
  for A P it where
  path_Nil: "ipc_path A P it c [] c"
| path_snoc: "ipc_path A P it c ls c' \<Longrightarrow> ipc_step A P it c' l c'' \<Longrightarrow> ipc_path A P it c (ls @ [l]) c''"

lemma path_append:
  assumes "ipc_path A P it c ls c'" "ipc_path A P it c' ls' c''"
  shows "ipc_path A P it c (ls @ ls') c''"
  using assms(2,1)
proof (induction rule: ipc_path.induct)
  case (path_snoc d ls' d' l d'')
  then show ?case using ipc_path.path_snoc [of A P it c "ls @ ls'" d' l d''] by simp
qed simp

text \<open>What a sequence of labels received and sent.\<close>

fun label_events :: "'tx label \<Rightarrow> ('tx event \<times> answers) list" where
  "label_events (Batch b out) = b"
| "label_events _ = []"

fun label_wire :: "'tx label \<Rightarrow> 'tx wire" where
  "label_wire (Batch b out) = out"
| "label_wire _ = []"

definition received :: "'tx label list \<Rightarrow> ('tx event \<times> answers) list" where
  "received ls = concat (map label_events ls)"

definition wire_of :: "'tx label list \<Rightarrow> 'tx wire" where
  "wire_of ls = concat (map label_wire ls)"

definition initial :: "priority_mode \<Rightarrow> ('r, 'c, 'g, 'v) metrics \<Rightarrow> ('tx, 'r, 'c, 'g, 'v) config" where
  "initial mode m =
     \<lparr>cf_phase = Starting, cf_shutdown = False, cf_unseen = False, cf_state = new_loop_state mode m\<rparr>"

subsection \<open>The invariant of the transition system\<close>

definition shows_state :: "('r, 'c, 'g, 'v) prom \<Rightarrow> ipc_state \<Rightarrow> ('r, 'c, 'g, 'v) metrics \<Rightarrow> bool" where
  "shows_state P s m \<longleftrightarrow> ipc_state_ts m = ipc_gauge s \<and> gauge_get P (txpool_ipc_state m) = ipc_gauge s"

fun phase_shows :: "phase \<Rightarrow> ipc_state set" where
  "phase_shows Starting = {Disabled}"
| "phase_shows LoopTop = {Connecting, Connected}"
| "phase_shows AwaitConnect = {Connecting}"
| "phase_shows Sleeping = {Connecting}"
| "phase_shows InConnection = {Connected}"
| "phase_shows Returned = {Disabled}"

definition machine_inv :: "('r, 'c, 'g, 'v) prom \<Rightarrow> ('tx, 'r, 'c, 'g, 'v) config \<Rightarrow> bool" where
  "machine_inv P c \<longleftrightarrow> loop_inv (cf_state c) \<and> sent_gauge_ok P (cf_state c)
     \<and> (\<exists>s \<in> phase_shows (cf_phase c). shows_state P s (ls_metrics (cf_state c)))
     \<and> (cf_shutdown c \<longrightarrow> cf_phase c = LoopTop \<or> cf_phase c = Returned \<or> cf_unseen c)"

lemma shows_set_ipc_state: "prom_laws P \<Longrightarrow> shows_state P s (set_ipc_state P s m)"
  by (simp add: shows_state_def set_ipc_state_def prom_lawsD(2))

lemma shows_connection_fields:
  "connection_fields m' = connection_fields m \<Longrightarrow> shows_state P s m' = shows_state P s m"
  by (simp add: shows_state_def connection_fields_def)

lemma shows_record_reconnect: "shows_state P s (record_reconnect P m) = shows_state P s m"
  by (simp add: shows_state_def record_reconnect_def)

lemma with_metrics_keeps [simp]:
  "ls_pool (with_metrics f st) = ls_pool st" "ls_sent (with_metrics f st) = ls_sent st"
  "ls_metrics (with_metrics f st) = f (ls_metrics st)"
  "loop_inv (with_metrics f st) = loop_inv st" "loop_config (with_metrics f st) = loop_config st"
  by (simp_all add: with_metrics_def loop_inv_def loop_config_def)

lemma sent_gauge_with_metrics:
  "txpool_sent_cache (f (ls_metrics st)) = txpool_sent_cache (ls_metrics st) \<Longrightarrow>
     sent_gauge_ok P (with_metrics f st) = sent_gauge_ok P st"
  by (simp add: sent_gauge_ok_def)

lemma sent_cache_gauge_kept [simp]:
  "txpool_sent_cache (set_ipc_state P s m) = txpool_sent_cache m"
  "txpool_sent_cache (record_reconnect P m) = txpool_sent_cache m"
  by (simp_all add: set_ipc_state_def record_reconnect_def)

lemma machine_inv_initial:
  assumes "fresh_metrics P m" "Suc (unat (pm_max_pending_entries mode)) < 2 ^ 64"
  shows "machine_inv P (initial mode m)"
proof -
  have g: "gauge_get P (txpool_ipc_state m) = - 1" "ipc_state_ts m = - 1"
    and snap: "snapshot P m = blank_snapshot Disabled"
    using assms(1) unfolding fresh_metrics_def by blast+
  have "gauge_get P (txpool_sent_cache m) = sent_cache_entries (snapshot P m)"
    by (simp add: snapshot_def)
  also have "\<dots> = 0" unfolding snap by (simp add: blank_snapshot_def)
  finally have "gauge_get P (txpool_sent_cache m) = 0" .
  with g have "shows_state P Disabled m" "gauge_get P (txpool_sent_cache m) = of_nat (sent_len (sent_new n))" for n
    by (simp_all add: shows_state_def sent_new_def sent_len_def)
  then show ?thesis
    unfolding machine_inv_def initial_def sent_gauge_ok_def
    using loop_inv_new [OF assms(2)] by (simp add: new_loop_state_def)
qed

lemma step_machine_inv:
  assumes P: "prom_laws P" and step: "ipc_step A P it c l c'" and inv: "machine_inv P c"
  shows "machine_inv P c' \<and> loop_config (cf_state c') = loop_config (cf_state c)"
  using step inv
proof cases
  case (batch b st out failed st' sd un)
  have i: "loop_inv st" "sent_gauge_ok P st" "shows_state P Connected (ls_metrics st)"
    using inv batch(1) by (simp_all add: machine_inv_def)
  have "shows_state P Connected (ls_metrics st')"
    using shows_connection_fields [OF process_batch_metrics(3) [OF P batch(4)]] i(3) by simp
  then show ?thesis
    using process_batch_inv [OF i(1) batch(4)] process_batch_metrics(4) [OF P batch(4) i(2)] inv
    by (simp add: batch(1,3) machine_inv_def)
qed (auto simp: machine_inv_def shows_set_ipc_state [OF P] shows_record_reconnect sent_gauge_with_metrics)

lemma path_machine_inv:
  "ipc_path A P it c ls c' \<Longrightarrow> prom_laws P \<Longrightarrow> machine_inv P c \<Longrightarrow>
     machine_inv P c' \<and> loop_config (cf_state c') = loop_config (cf_state c)"
proof (induction rule: ipc_path.induct)
  case (path_snoc c ls c' l c'')
  then show ?case using step_machine_inv [OF path_snoc.prems(1) path_snoc.hyps(2)] by simp
qed simp

subsection \<open>What a run sent and counted\<close>

lemma received_simps [simp]:
  "received [] = []" "received (ls @ [l]) = received ls @ label_events l"
  by (simp_all add: received_def)

lemma wire_of_simps [simp]:
  "wire_of [] = []" "wire_of (ls @ [l]) = wire_of ls @ label_wire l"
  by (simp_all add: wire_of_def)

lemma inserts_append: "inserts (a @ b) = inserts a \<union> inserts b"
  by (induction a rule: inserts.induct) (auto split: event_type.splits)

lemma process_event_pool_config:
  assumes "pool_inv (ls_pool st)" "process_event A P it ea st = (out, failed, st')"
  shows "pool_inv (ls_pool st') \<and> pool_config (ls_pool st') = pool_config (ls_pool st)"
proof -
  obtain calls ops where "ls_pool st' = pool_run A it calls (ls_pool st)"
    using assms(2) by (rule process_event_effect)
  then show ?thesis using pool_run_inv [OF assms(1), of A it calls] by simp
qed

lemma process_batch_pool_config:
  assumes "pool_inv (ls_pool st)" "process_batch A P it batch st = (out, failed, st')"
  shows "pool_config (ls_pool st') = pool_config (ls_pool st)"
proof -
  have "pool_inv (ls_pool st) \<longrightarrow> pool_inv (ls_pool st') \<and> pool_config (ls_pool st') = pool_config (ls_pool st)"
    using assms(2)
  proof (rule process_batch_lift [where R = "\<lambda>b st out failed st'. pool_inv (ls_pool st) \<longrightarrow>
        pool_inv (ls_pool st') \<and> pool_config (ls_pool st') = pool_config (ls_pool st)", rotated -1])
    show "pool_inv (ls_pool st) \<longrightarrow> pool_inv (ls_pool st') \<and> pool_config (ls_pool st') = pool_config (ls_pool st)"
      if "process_event A P it ea st = (out, False, st1)"
        "pool_inv (ls_pool st1) \<longrightarrow> pool_inv (ls_pool st') \<and> pool_config (ls_pool st') = pool_config (ls_pool st1)"
      for ea batch st out st1 out' failed st'
      using process_event_pool_config [OF _ that(1)] that(2) by simp
    show "pool_inv (ls_pool st) \<longrightarrow> pool_inv (ls_pool st') \<and> pool_config (ls_pool st') = pool_config (ls_pool st)"
      if "process_event A P it ea st = (out, True, st')" for ea batch st out st'
      using process_event_pool_config [OF _ that] by simp
  qed simp
  then show ?thesis using assms(1) by simp
qed

text \<open>Steps other than a batch leave the pool and the dedup cache alone: they survive reconnects.\<close>

lemma step_keeps_state:
  assumes "ipc_step A P it c l c'" "\<And>b out. l \<noteq> Batch b out"
  shows "ls_pool (cf_state c') = ls_pool (cf_state c) \<and> ls_sent (cf_state c') = ls_sent (cf_state c)
    \<and> label_events l = [] \<and> label_wire l = []"
  using assms by cases auto

lemma pool_sourced_mono: "S \<subseteq> T \<Longrightarrow> pool_sourced A S p \<Longrightarrow> pool_sourced A T p"
  unfolding pool_sourced_def bid_ok_def by blast

lemma path_sourced:
  assumes "ipc_path A P it c ls c'" "pool_sourced A S (ls_pool (cf_state c))"
    and "pool_config (ls_pool (cf_state c)) = cfg"
  shows "pool_sourced A (S \<union> inserts (received ls)) (ls_pool (cf_state c'))
    \<and> pool_config (ls_pool (cf_state c')) = cfg
    \<and> (\<forall>m \<in> set (wire_of ls). message_ok A (fst cfg) (fst (snd cfg)) (S \<union> inserts (received ls)) m)"
  using assms
proof (induction rule: ipc_path.induct)
  case (path_Nil c)
  then show ?case by simp
next
  case (path_snoc c ls c' l c'')
  let ?S = "S \<union> inserts (received ls)"
  have ih: "pool_sourced A ?S (ls_pool (cf_state c'))" "pool_config (ls_pool (cf_state c')) = cfg"
    "\<forall>m \<in> set (wire_of ls). message_ok A (fst cfg) (fst (snd cfg)) ?S m"
    using path_snoc.IH [OF path_snoc.prems] by auto
  show ?case
  proof (cases "\<exists>b out. l = Batch b out")
    case False
    then show ?thesis using step_keeps_state [OF path_snoc.hyps(2)] ih by auto
  next
    case True
    then obtain b out where l: "l = Batch b out" by auto
    obtain st failed st' where st: "cf_state c' = st" "cf_state c'' = st'"
      and run: "process_batch A P it b st = (out, failed, st')"
      using path_snoc.hyps(2) unfolding l by (elim ipc_step_Batch) auto
    have src: "pool_sourced A ?S (ls_pool st)" using ih(1) st by simp
    obtain S' where S': "pool_sourced A S' (ls_pool st')" "S' \<subseteq> ?S \<union> inserts b"
      and msgs: "\<forall>m \<in> set out. message_ok A (policy (ls_pool st)) (fallback (ls_pool st)) (?S \<union> inserts b) m"
      using process_batch_sourced [OF src run] by blast
    have cfg: "policy (ls_pool st) = fst cfg" "fallback (ls_pool st) = fst (snd cfg)"
      using ih(2) st by (auto simp: pool_config_def)
    have T: "S \<union> inserts (received (ls @ [l])) = ?S \<union> inserts b"
      by (auto simp: l inserts_append)
    have "pool_config (ls_pool st') = pool_config (ls_pool st)"
      by (rule process_batch_pool_config [OF pool_sourcedD(1) [OF src] run])
    then show ?thesis
      using pool_sourced_mono [OF S'(2) S'(1)] msgs ih(2,3) st
        message_ok_mono [of ?S "?S \<union> inserts b" A "fst cfg" "fst (snd cfg)"]
      unfolding T by (auto simp: l cfg)
  qed
qed

text \<open>Over a whole run from the start, every message is an observed transaction with the priority
  it earned.\<close>

lemma run_messages_ok:
  assumes path: "ipc_path A P it (initial mode m) ls c" and mp: "Suc (unat (pm_max_pending_entries mode)) < 2 ^ 64"
    and x: "x \<in> set (wire_of ls)"
  shows "message_ok A (pm_policy mode) (pm_fallback mode) (inserts (received ls)) x"
proof -
  let ?cfg = "(pm_policy mode, pm_fallback mode, pm_ttl mode, max (pm_max_cache_entries mode) 1, max (pm_max_pending_entries mode) 1)"
  have "pool_config (ls_pool (cf_state (initial mode m))) = ?cfg"
    by (simp add: initial_def new_loop_state_def pool_config_def pool_new_def)
  moreover have "pool_sourced A {} (ls_pool (cf_state (initial mode m)))"
    by (simp add: initial_def new_loop_state_def sourced_new [OF mp])
  ultimately show ?thesis using path_sourced [OF path, of "{}" ?cfg] x by auto
qed

text \<open>Over a run, across reconnects, a hash is sent once until its transaction is reported gone.\<close>

lemma gone_append: "gone (a @ b) = gone a \<union> gone b"
  by (induction a rule: gone.induct) (auto split: event_type.splits)

lemma path_once:
  "ipc_path A P it c ls c' \<Longrightarrow> h \<notin> gone (received ls) \<Longrightarrow>
     once h (ls_sent (cf_state c)) (wire_of ls) (ls_sent (cf_state c'))"
proof (induction rule: ipc_path.induct)
  case (path_Nil c)
  then show ?case by (simp add: once_def)
next
  case (path_snoc c ls c' l c'')
  have h: "h \<notin> gone (received ls)" "h \<notin> gone (label_events l)"
    using path_snoc.prems by (simp_all add: gone_append)
  have "once h (ls_sent (cf_state c')) (label_wire l) (ls_sent (cf_state c''))"
  proof (cases "\<exists>b out. l = Batch b out")
    case True
    then obtain b out where l: "l = Batch b out" by blast
    show ?thesis
      using path_snoc.hyps(2) h(2) unfolding l
      by (elim ipc_step_Batch) (auto dest: process_batch_once)
  next
    case False
    then show ?thesis using step_keeps_state [OF path_snoc.hyps(2)] by (simp add: once_def)
  qed
  with path_snoc.IH [OF h(1)] show ?case by (simp add: once_trans)
qed

lemma run_sent_once:
  assumes path: "ipc_path A P it (initial mode m) ls c" and h: "h \<notin> gone (received ls)"
    and room: "length (wire_of ls) \<le> max 1 (unat (pm_sent_cache_max mode))"
  shows "sends h (wire_of ls) \<le> 1"
proof -
  let ?s = "sent_new (pm_sent_cache_max mode)"
  have s: "sent_len ?s = 0" "unat (max_entries ?s) = max 1 (unat (pm_sent_cache_max mode))" "sent_keys ?s = {}"
    by (simp_all add: sent_new_def sent_len_def unat_max_word max.commute sent_keys_def)
  have "once h ?s (wire_of ls) (ls_sent (cf_state c))"
    using path_once [OF path h] by (simp add: initial_def new_loop_state_def)
  then show ?thesis using room by (auto simp: once_def s split: if_splits)
qed

definition reconnects :: "'tx label list \<Rightarrow> nat" where
  "reconnects ls = length (filter (\<lambda>l. case l of ConnectOk \<Rightarrow> True | _ \<Rightarrow> False) ls)"

definition reconnect_count :: "('r, 'c, 'g, 'v) prom \<Rightarrow> ('r, 'c, 'g, 'v) metrics \<Rightarrow> u64" where
  "reconnect_count P m = counter_get P (txpool_ipc_reconnects_total m)"

lemma reconnects_simps [simp]:
  "reconnects [] = 0"
  "reconnects (ls @ [l]) = reconnects ls + (case l of ConnectOk \<Rightarrow> 1 | _ \<Rightarrow> 0)"
  by (simp_all add: reconnects_def split: label.splits)

lemma state_update_counts:
  assumes "prom_laws P"
  shows "prioritized_count P (set_ipc_state P s m) = prioritized_count P m"
    "prioritized_count P (record_reconnect P m) = prioritized_count P m"
    "reconnect_count P (set_ipc_state P s m) = reconnect_count P m"
    "reconnect_count P (record_reconnect P m) = reconnect_count P m + 1"
  by (simp_all add: prioritized_count_def reconnect_count_def set_ipc_state_def record_reconnect_def
      prom_lawsD(1) [OF assms])

lemma step_counts:
  assumes P: "prom_laws P" and step: "ipc_step A P it c l c'"
  shows "prioritized_count P (ls_metrics (cf_state c'))
      = prioritized_count P (ls_metrics (cf_state c)) + of_nat (length (label_wire l))
    \<and> reconnect_count P (ls_metrics (cf_state c'))
      = reconnect_count P (ls_metrics (cf_state c)) + (case l of ConnectOk \<Rightarrow> 1 | _ \<Rightarrow> 0)"
  using step
proof cases
  case (batch b st out failed st' sd un)
  have "reconnect_count P (ls_metrics st') = reconnect_count P (ls_metrics st)"
    using process_batch_metrics(3) [OF P batch(4)] by (simp add: connection_fields_def reconnect_count_def)
  then show ?thesis using process_batch_metrics(1) [OF P batch(4)] batch(1-3) by simp
qed (simp_all add: state_update_counts [OF P])

lemma run_counts:
  assumes "ipc_path A P it c ls c'" "prom_laws P"
  shows "prioritized_count P (ls_metrics (cf_state c'))
      = prioritized_count P (ls_metrics (cf_state c)) + of_nat (length (wire_of ls))
    \<and> reconnect_count P (ls_metrics (cf_state c'))
      = reconnect_count P (ls_metrics (cf_state c)) + of_nat (reconnects ls)"
  using assms
proof (induction rule: ipc_path.induct)
  case (path_snoc c ls c' l c'')
  then show ?case
    using step_counts [OF path_snoc.prems path_snoc.hyps(2)]
    by (simp add: algebra_simps split: label.splits)
qed simp

text \<open>The health snapshot, at every moment of every run.\<close>

lemma run_health:
  assumes P: "prom_laws P" and m: "fresh_metrics P m"
    and mp: "Suc (unat (pm_max_pending_entries mode)) < 2 ^ 64"
    and path: "ipc_path A P it (initial mode m) ls c"
  shows "tx_prioritized (snapshot P (ls_metrics (cf_state c))) = of_nat (length (wire_of ls))"
    "ipc_reconnects (snapshot P (ls_metrics (cf_state c))) = of_nat (reconnects ls)"
    "sent_cache_entries (snapshot P (ls_metrics (cf_state c))) = of_nat (sent_len (ls_sent (cf_state c)))"
    "\<forall>s. phase_shows (cf_phase c) = {s} \<longrightarrow> hs_ipc_state (snapshot P (ls_metrics (cf_state c))) = ipc_as_str s"
proof -
  have start: "ls_metrics (cf_state (initial mode m)) = m" by (simp add: initial_def new_loop_state_def)
  have "tx_prioritized (snapshot P m) = 0" "ipc_reconnects (snapshot P m) = 0"
    using m by (simp_all add: fresh_metrics_def blank_snapshot_def)
  then have zero: "prioritized_count P m = 0" "reconnect_count P m = 0"
    by (simp_all add: snapshot_def prioritized_count_def reconnect_count_def)
  have inv: "machine_inv P c"
    using path_machine_inv [OF path P machine_inv_initial [OF m mp]] by simp
  show "tx_prioritized (snapshot P (ls_metrics (cf_state c))) = of_nat (length (wire_of ls))"
    "ipc_reconnects (snapshot P (ls_metrics (cf_state c))) = of_nat (reconnects ls)"
    using run_counts [OF path P] zero unfolding start
    by (simp_all add: snapshot_def prioritized_count_def reconnect_count_def)
  show "sent_cache_entries (snapshot P (ls_metrics (cf_state c))) = of_nat (sent_len (ls_sent (cf_state c)))"
    using inv by (simp add: machine_inv_def sent_gauge_ok_def snapshot_def)
  show "\<forall>s. phase_shows (cf_phase c) = {s} \<longrightarrow> hs_ipc_state (snapshot P (ls_metrics (cf_state c))) = ipc_as_str s"
  proof (intro allI impI)
    fix s assume "phase_shows (cf_phase c) = {s}"
    then have "shows_state P s (ls_metrics (cf_state c))" using inv by (simp add: machine_inv_def)
    then show "hs_ipc_state (snapshot P (ls_metrics (cf_state c))) = ipc_as_str s"
      by (simp add: shows_state_def snapshot_def ipc_state_roundtrip)
  qed
qed

subsection \<open>Shutdown\<close>

fun phase_rank :: "phase \<Rightarrow> nat" where
  "phase_rank Returned = 0"
| "phase_rank LoopTop = 1"
| "phase_rank Starting = 1"
| "phase_rank Sleeping = 2"
| "phase_rank InConnection = 3"
| "phase_rank AwaitConnect = 4"

text \<open>Once the signal is sent, every step of the program but a batch on the open connection brings
  it closer to its return, and it can return without anything arriving from the node.\<close>

lemma shutdown_progress:
  assumes step: "ipc_step A P it c l c'" and sd: "cf_shutdown c"
  shows "cf_shutdown c'
    \<and> (phase_rank (cf_phase c') < phase_rank (cf_phase c)
       \<or> (l = Signal \<or> (\<exists>b out. l = Batch b out)) \<and> cf_phase c' = cf_phase c)"
  using step sd by cases auto

lemma path_one: "ipc_step A P it c l c' \<Longrightarrow> ipc_path A P it c [l] c'"
  using path_snoc [OF path_Nil, of A P it c l c'] by simp

lemma shutdown_returns:
  assumes inv: "machine_inv P c" and sd: "cf_shutdown c" and P: "prom_laws P"
  shows "\<exists>ls c'. ipc_path A P it c ls c' \<and> length ls \<le> 3 \<and> set ls \<subseteq> {Internal, Changed, ConnectFail}
    \<and> cf_phase c' = Returned \<and> shows_state P Disabled (ls_metrics (cf_state c'))"
proof -
  obtain ph un st where c: "c = \<lparr>cf_phase = ph, cf_shutdown = True, cf_unseen = un, cf_state = st\<rparr>"
    using sd by (cases c) auto
  have unseen: "ph \<noteq> LoopTop \<Longrightarrow> ph \<noteq> Returned \<Longrightarrow> un"
    using inv by (simp add: machine_inv_def c)
  note dis = shows_set_ipc_state [OF P, of Disabled]
  show ?thesis
  proof (cases ph)
    case Starting
    have "ipc_path A P it c [Internal] \<lparr>cf_phase = Returned, cf_shutdown = True, cf_unseen = un, cf_state = st\<rparr>"
      unfolding c Starting by (rule path_one [OF start_stop])
    moreover have "shows_state P Disabled (ls_metrics st)"
      using inv by (simp add: machine_inv_def c Starting)
    ultimately show ?thesis by (fastforce intro!: exI [of _ "[Internal]"])
  next
    case LoopTop
    show ?thesis
      unfolding c LoopTop
      by (rule exI [of _ "[Internal]"], rule exI, rule conjI, rule path_one [OF top_stop]) (simp add: dis)
  next
    case InConnection
    then have un: "un = True" using unseen by simp
    show ?thesis
      unfolding c InConnection un
      by (rule exI [of _ "[Changed]"], rule exI, rule conjI, rule path_one [OF changed_stop]) (simp add: dis)
  next
    case Sleeping
    then have un: "un = True" using unseen by simp
    show ?thesis
      unfolding c Sleeping un
      by (rule exI [of _ "[Changed] @ [Internal]"], rule exI, rule conjI,
          rule path_snoc [OF path_one [OF woken] top_stop]) (simp add: dis)
  next
    case AwaitConnect
    then have un: "un = True" using unseen by simp
    show ?thesis
      unfolding c AwaitConnect un
      by (rule exI [of _ "([ConnectFail] @ [Changed]) @ [Internal]"], rule exI, rule conjI,
          rule path_snoc [OF path_snoc [OF path_one [OF connect_fail] woken] top_stop]) (simp add: dis)
  next
    case Returned
    have "shows_state P Disabled (ls_metrics st)"
      using inv by (simp add: machine_inv_def c Returned)
    then show ?thesis
      by (intro exI [of _ "[]"] exI [of _ c]) (simp add: path_Nil c Returned)
  qed
qed

text \<open>Returning is final.\<close>

lemma returned_final:
  assumes "ipc_step A P it c l c'" "cf_phase c = Returned"
  shows "l = Signal \<and> cf_phase c' = Returned \<and> cf_state c' = cf_state c"
  using assms by cases auto

text \<open>From the entry to a connection.\<close>

lemma initial_connected:
  "ipc_path A P it (initial mode m) [Internal, Internal, ConnectOk]
     \<lparr>cf_phase = InConnection, cf_shutdown = False, cf_unseen = False,
      cf_state = with_metrics (\<lambda>m. record_reconnect P (set_ipc_state P Connected m))
        (with_metrics (set_ipc_state P Connecting)
          (with_metrics (set_ipc_state P Connecting) (new_loop_state mode m)))\<rparr>"
  unfolding initial_def
  using path_snoc [OF path_snoc [OF path_one [OF start] top] connect_ok, where A = A and P = P and it = it]
  by simp

end
