(* ===== verification/Ipc_Pairing.thy ===== *)
theory Ipc_Pairing
  imports Ipc_Batch
begin

section \<open>A target and its bids on the wire\<close>

text \<open>
  From the reinjections of the pool to the messages written: when the node takes every message and
  nothing of it is remembered as sent, a target and its bids go out, whichever is reported first.
\<close>

subsection \<open>A target with waiting bids\<close>

text \<open>When nothing is remembered, there is room and every send succeeds, all reinjections go out,
  in order.\<close>

lemma send_loop_all:
  assumes "\<And>i. send_ok ans i" "distinct (map rj_hash rs)" "\<And>r. r \<in> set rs \<Longrightarrow> rj_hash r \<notin> sent_keys (ls_sent st)"
    and "sent_len (ls_sent st) + length rs \<le> unat (max_entries (ls_sent st))"
  shows "\<exists>st'. send_loop P ans i rs st = (map (\<lambda>r. (rj_hash r, to_ipc r)) rs, False, st')"
  using assms(2-)
proof (induction rs arbitrary: i st)
  case (Cons r rs)
  obtain ev s where ins: "sent_insert (rj_hash r) (rj_priority r) (ls_sent st) = (ev, s)" by fastforce
  have room: "Suc (sent_len (ls_sent st)) \<le> unat (max_entries (ls_sent st))" using Cons.prems(3) by simp
  note k = sent_keys_insert_room [OF room ins]
  let ?st = "st\<lparr>ls_sent := s, ls_metrics := set_sent_cache P (of_nat (sent_len s))
           (add_sent_cache_evictions P ev (record_prioritized P (wall_send ans i) (ls_metrics st)))\<rparr>"
  have "\<exists>st'. send_loop P ans (Suc i) rs ?st = (map (\<lambda>r. (rj_hash r, to_ipc r)) rs, False, st')"
  proof (rule Cons.IH)
    show "rj_hash r' \<notin> sent_keys (ls_sent ?st)" if "r' \<in> set rs" for r'
    proof -
      have "rj_hash r' \<noteq> rj_hash r" using Cons.prems(1) that by (auto simp: image_iff)
      then show ?thesis using Cons.prems(2) [of r'] that k(1) by simp
    qed
  qed (use Cons.prems k in auto)
  then obtain st' where "send_loop P ans (Suc i) rs ?st = (map (\<lambda>r. (rj_hash r, to_ipc r)) rs, False, st')" ..
  then show ?case
    using Cons.prems(2) [of r]
    by (simp add: send_loop_Send [OF _ assms(1) ins] sent_contains_keys del: send_loop.simps)
qed simp

lemma target_on_wire:
  assumes inv: "loop_inv st" and pr: "prune (prune_at ans) (ls_pool st) = (ex, p)"
    and vanilla: "\<not> to_gateway A (policy p) tx" and waiting: "fmlookup (pending p) h = Some bids"
    and fresh: "h |\<notin>| fmdom (cache p)" "h \<notin> sent_keys (ls_sent st)"
    and unsent: "distinct (h # map pb_hash bids)" "\<And>b. b \<in> set bids \<Longrightarrow> pb_hash b \<notin> sent_keys (ls_sent st)"
    and room: "sent_len (ls_sent st) + Suc (length bids) \<le> unat (max_entries (ls_sent st))"
    and ok: "\<And>i. send_ok ans i"
  shows "\<exists>st'. process_event A P it (\<lparr>ev_hash = h, ev_action = InsertEv tx\<rparr>, ans) st =
    ((h, to_ipc (opportunity_of h tx)) # map (\<lambda>b. (pb_hash b, to_ipc (bid_reinjection h b))) bids, False, st')"
proof -
  let ?ev = "\<lparr>ev_hash = h, ev_action = InsertEv tx\<rparr>"
  let ?st = "st\<lparr>ls_metrics := record_event P ''insert'' (wall_event ans) (ls_metrics st)\<rparr>"
  let ?rs = "opportunity_of h tx # map (bid_reinjection h) bids"
  obtain rs st1 where o: "observe_event A P ans h tx ?st = (rs, st1)" by fastforce
  have p: "pool_inv (ls_pool st)" using inv by (simp add: loop_inv_def)
  have pol: "policy p = policy (ls_pool st)" using prune_inv(2) [OF p pr] by (simp add: pool_config_def)
  have rs: "rs = ?rs"
    using observe_event_effect(2) [OF o] pr
      target_flush [OF p pr _ waiting fresh(1), where A = A and tx = tx] vanilla pol by simp
  have hashes: "map rj_hash ?rs = h # map pb_hash bids"
    by (simp add: opportunity_of_def bid_reinjection_def o_def)
  have sent: "ls_sent st1 = ls_sent st" using observe_event_effect(3) [OF o] by simp
  have "\<exists>st'. send_loop P ans 0 ?rs st1 = (map (\<lambda>r. (rj_hash r, to_ipc r)) ?rs, False, st')"
  proof (rule send_loop_all [OF ok])
    show "distinct (map rj_hash ?rs)" using unsent(1) by (simp only: hashes)
    show "rj_hash r \<notin> sent_keys (ls_sent st1)" if "r \<in> set ?rs" for r
      using that fresh(2) unsent(2) by (auto simp: sent opportunity_of_def bid_reinjection_def)
    show "sent_len (ls_sent st1) + length ?rs \<le> unat (max_entries (ls_sent st1))" using room by (simp add: sent)
  qed
  moreover have "process_event A P it (?ev, ans) st = send_loop P ans 0 ?rs st1"
    using o fresh(2) by (simp add: process_event_def Let_def rs sent_contains_keys)
  moreover have "map (\<lambda>r. (rj_hash r, to_ipc r)) ?rs
      = (h, to_ipc (opportunity_of h tx)) # map (\<lambda>b. (pb_hash b, to_ipc (bid_reinjection h b))) bids"
    by (simp add: opportunity_of_def bid_reinjection_def)
  ultimately show ?thesis by (simp only:)
qed

subsection \<open>A bid and its target, in either order\<close>

lemma fresh_vec_none: "no_empty_vec m \<Longrightarrow> vec_of m k = [] \<Longrightarrow> fmlookup m k = None"
  by (cases "fmlookup m k") (auto simp: vec_of_def dest: no_empty_vecD)

text \<open>What a prune leaves of the conditions under which a pair goes through.\<close>

definition pair_room :: "txhash \<Rightarrow> 'tx pending_pool \<Rightarrow> bool" where
  "pair_room t p \<longleftrightarrow> pool_inv p \<and> t |\<notin>| fmdom (cache p) \<and> vec_of (pending p) t = []
     \<and> Suc (hm_len (cache p)) < unat (max_cache_entries p) \<and> unat (pending_count p) < unat (max_pending_entries p)"

lemma prune_pair_room:
  assumes pr: "prune now p = (ex, p')" and room: "pair_room t p"
  shows "pair_room t p'" "policy p' = policy p" "ttl p' = ttl p"
proof -
  have inv: "pool_inv p" using room by (simp add: pair_room_def)
  note pi = prune_inv [OF inv pr]
  have cfg: "policy p' = policy p" "ttl p' = ttl p" "max_cache_entries p' = max_cache_entries p"
    "max_pending_entries p' = max_pending_entries p"
    using pi(2) by (simp_all add: pool_config_def)
  have "unat (pending_count p') \<le> unat (pending_count p)"
    using prune_accounting [OF inv pr] by (simp add: pending_len_def)
  moreover have "hm_len (cache p') \<le> hm_len (cache p)" by (rule hm_len_mono [OF pi(3)])
  moreover have "vec_of (pending p') t = []"
    using prune_young(2) [OF pr, of t] room by (simp add: pair_room_def)
  ultimately show "pair_room t p'" using room pi(1,3) by (auto simp: pair_room_def cfg)
  show "policy p' = policy p" "ttl p' = ttl p" by (rule cfg)+
qed

lemma process_insert:
  assumes "\<not> sent_contains (ls_sent st) h" "prune (prune_at ans) (ls_pool st) = (ex, p1)"
    and "observe_at A h tx (observe_time ans) p1 = (res, p2)"
  obtains st1 where "process_event A P it (\<lparr>ev_hash = h, ev_action = InsertEv tx\<rparr>, ans) st = send_loop P ans 0 (reinjections res) st1"
    "ls_pool st1 = p2" "ls_sent st1 = ls_sent st"
proof -
  let ?st = "st\<lparr>ls_metrics := record_event P ''insert'' (wall_event ans) (ls_metrics st)\<rparr>"
  obtain rs st1 where o: "observe_event A P ans h tx ?st = (rs, st1)" by fastforce
  have "rs = reinjections res" "ls_pool st1 = p2" "ls_sent st1 = ls_sent st"
    using observe_event_effect(1) [OF o, where it = it] observe_event_effect(2,3) [OF o] assms(2,3) by simp_all
  then show thesis
    using that [of st1] assms(1) o by (simp add: process_event_def)
qed

text \<open>The bid first: it is parked, and goes out behind its target.\<close>

lemma pair_bid_first:
  assumes inv: "loop_inv st" and bid: "backrun_bid_for A (policy (ls_pool st)) btx t" "h \<noteq> t"
    and target: "\<not> to_gateway A (policy (ls_pool st)) tx" and room: "pair_room t (ls_pool st)"
    and unsent: "h \<notin> sent_keys (ls_sent st)" "t \<notin> sent_keys (ls_sent st)"
    and sroom: "sent_len (ls_sent st) + 2 \<le> unat (max_entries (ls_sent st))"
    and clock: "prune_at ans2 - observe_time ans1 < ttl (ls_pool st)" and ok: "\<And>i. send_ok ans2 i"
  shows "\<exists>st'. process_batch A P it [(\<lparr>ev_hash = h, ev_action = InsertEv btx\<rparr>, ans1), (\<lparr>ev_hash = t, ev_action = InsertEv tx\<rparr>, ans2)] st
    = ([(t, to_ipc (opportunity_of t tx)), (h, to_ipc (bid_of A (policy (ls_pool st)) t (h, btx, observe_time ans1)))], False, st')"
proof -
  let ?a = "(h, btx, observe_time ans1)"
  obtain ex1 p1 where pr1: "prune (prune_at ans1) (ls_pool st) = (ex1, p1)" by fastforce
  note room1 = prune_pair_room [OF pr1 room]
  have r1: "pool_inv p1" "t |\<notin>| fmdom (cache p1)" "unat (pending_count p1) < unat (max_pending_entries p1)"
    "vec_of (pending p1) t = []"
    using room1(1) by (simp_all add: pair_room_def)
  have "backrun_bid_for A (policy p1) btx t" using bid(1) by (simp add: room1(2))
  from observe_bid_early [OF r1(1) this bid(2) r1(2,3)]
  obtain p2 where obs: "observe_at A h btx (observe_time ans1) p1 = (default_result\<lparr>bids_pended := 1\<rparr>, p2)"
    and p2: "pool_inv p2" "pool_config p2 = pool_config p1" "t |\<notin>| fmdom (cache p2)"
      "vec_of (pending p2) t = [parked_of A (policy p1) t ?a]"
    using r1(4) by (metis append_Nil)
  have cfg2: "policy p2 = policy (ls_pool st)" "ttl p2 = ttl (ls_pool st)"
    using p2(2) room1(2,3) by (simp_all add: pool_config_def)
  have "\<not> sent_contains (ls_sent st) h" using unsent(1) by (simp add: sent_contains_keys)
  from process_insert [OF this pr1 obs, of P it]
  obtain st1 where e: "process_event A P it (\<lparr>ev_hash = h, ev_action = InsertEv btx\<rparr>, ans1) st
      = send_loop P ans1 0 (reinjections (default_result\<lparr>bids_pended := 1\<rparr>)) st1"
    and st1: "ls_pool st1 = p2" "ls_sent st1 = ls_sent st"
    by blast
  have e1: "process_event A P it (\<lparr>ev_hash = h, ev_action = InsertEv btx\<rparr>, ans1) st = ([], False, st1)"
    using e by (simp add: default_result_def)
  obtain ex2 p3 where pr2: "prune (prune_at ans2) (ls_pool st1) = (ex2, p3)" by fastforce
  have pr2': "prune (prune_at ans2) p2 = (ex2, p3)" using pr2 by (simp add: st1)
  have vec3: "vec_of (pending p3) t = [parked_of A (policy p1) t ?a]"
    using prune_keeps_young [OF pr2', of t] clock p2(4) cfg2(2) by (simp add: young_def parked_of_def)
  note pi = prune_inv [OF p2(1) pr2']
  have waiting: "fmlookup (pending p3) t = Some [parked_of A (policy p1) t ?a]"
    using vec3 by (cases "fmlookup (pending p3) t") (simp_all add: vec_of_def)
  have "policy p3 = policy (ls_pool st)" using pi(2) cfg2 by (simp add: pool_config_def)
  then have gw: "\<not> to_gateway A (policy p3) tx" using target by simp
  have inv1: "loop_inv st1" using process_event_inv [OF inv e1] by simp
  have fresh: "t |\<notin>| fmdom (cache p3)" using pi(3) p2(3) by blast
  have "\<exists>st'. process_event A P it (\<lparr>ev_hash = t, ev_action = InsertEv tx\<rparr>, ans2) st1
     = ((t, to_ipc (opportunity_of t tx)) # map (\<lambda>b. (pb_hash b, to_ipc (bid_reinjection t b))) [parked_of A (policy p1) t ?a], False, st')"
  proof (rule target_on_wire [OF inv1 pr2 gw waiting fresh])
    show "t \<notin> sent_keys (ls_sent st1)" using unsent(2) by (simp add: st1)
  qed (use unsent(1) sroom bid(2) ok in \<open>simp_all add: st1 parked_of_def\<close>)
  then obtain st' where e2: "process_event A P it (\<lparr>ev_hash = t, ev_action = InsertEv tx\<rparr>, ans2) st1
     = ((t, to_ipc (opportunity_of t tx)) # map (\<lambda>b. (pb_hash b, to_ipc (bid_reinjection t b))) [parked_of A (policy p1) t ?a], False, st')"
    by blast
  show ?thesis
    using e1 e2 room1(2) by (simp add: bid_reinjection_parked) (simp add: parked_of_def)
qed

text \<open>A bid for a cached target, reported before the target expires, is handed out behind it.\<close>

lemma late_bid_event:
  assumes inv: "pool_inv (ls_pool st)" and bid: "backrun_bid_for A (policy (ls_pool st)) btx t" "h \<noteq> t"
    and cached: "fmlookup (cache (ls_pool st)) t = Some c" "t |\<notin>| streamed_targets (ls_pool st)"
    and room: "hm_len (cache (ls_pool st)) < unat (max_cache_entries (ls_pool st))"
    and clock: "prune_at ans - ct_seen_at c < ttl (ls_pool st)" and unsent: "h \<notin> sent_keys (ls_sent st)"
  shows "\<exists>st2. process_event A P it (\<lparr>ev_hash = h, ev_action = InsertEv btx\<rparr>, ans) st =
      send_loop P ans 0 [opportunity_of t (ct_tx c), bid_of A (policy (ls_pool st)) t (h, btx, observe_time ans)] st2
    \<and> ls_sent st2 = ls_sent st"
proof -
  obtain ex p3 where pr: "prune (prune_at ans) (ls_pool st) = (ex, p3)" by fastforce
  note pi = prune_inv [OF inv pr]
  have cfg: "policy p3 = policy (ls_pool st)" "max_cache_entries p3 = max_cache_entries (ls_pool st)"
    using pi(2) by (simp_all add: pool_config_def)
  have look: "fmlookup (cache p3) t = Some c"
    by (rule prune_young(3) [OF pr cached(1) clock])
  have room3: "hm_len (cache p3) < unat (max_cache_entries p3)"
    using hm_len_mono [OF pi(3)] room by (simp add: cfg(2))
  have unstreamed: "t |\<notin>| streamed_targets p3"
    using prune_streamed_subset [OF pr] cached(2) by blast
  have "backrun_bid_for A (policy p3) btx t" using bid(1) by (simp add: cfg(1))
  from observe_bid_late [OF pi(1) this bid(2) look room3]
  obtain p4 where obs: "observe_at A h btx (observe_time ans) p3 =
      (default_result\<lparr>reinjections := [opportunity_of t (ct_tx c), bid_of A (policy p3) t (h, btx, observe_time ans)], pairs_matched := 1\<rparr>, p4)"
    using unstreamed by auto
  have "\<not> sent_contains (ls_sent st) h" using unsent by (simp add: sent_contains_keys)
  from process_insert [OF this pr obs, of P it] show ?thesis
    by (auto simp: cfg(1) simp del: send_loop.simps)
qed

text \<open>The same after the report that cached the target.\<close>

lemma bid_after_target:
  assumes room: "pair_room t (ls_pool st)" and pr: "prune (prune_at ans1) (ls_pool st) = (ex, p1)"
    and pool: "ls_pool st1 = insert_cache t tx (observe_time ans1) p1"
    and bid: "backrun_bid_for A (policy (ls_pool st)) btx t" "h \<noteq> t" and unsent: "h \<notin> sent_keys (ls_sent st1)"
    and clock: "prune_at ans2 - observe_time ans1 < ttl (ls_pool st)"
  shows "\<exists>st2. process_event A P it (\<lparr>ev_hash = h, ev_action = InsertEv btx\<rparr>, ans2) st1 =
      send_loop P ans2 0 [opportunity_of t tx, bid_of A (policy (ls_pool st)) t (h, btx, observe_time ans2)] st2
    \<and> ls_sent st2 = ls_sent st1"
proof -
  let ?c = "\<lparr>ct_tx = tx, ct_seen_at = observe_time ans1\<rparr>"
  note room1 = prune_pair_room [OF pr room]
  have r1: "pool_inv p1" "t |\<notin>| fmdom (cache p1)" "Suc (hm_len (cache p1)) < unat (max_cache_entries p1)"
    using room1(1) by (simp_all add: pair_room_def)
  have c2: "cache (ls_pool st1) = fmupd t ?c (cache p1)" "streamed_targets (ls_pool st1) = streamed_targets p1"
    using insert_cache_room [of p1 t tx "observe_time ans1"] r1(3) by (auto simp: pool)
  note i2 = insert_cache_inv(1,2) [OF r1(1), of t tx "observe_time ans1", folded pool]
  have cfg: "policy (ls_pool st1) = policy (ls_pool st)" "ttl (ls_pool st1) = ttl (ls_pool st)"
    "max_cache_entries (ls_pool st1) = max_cache_entries p1"
    using i2(2) room1(2,3) by (simp_all add: pool_config_def)
  have "t |\<notin>| streamed_targets (ls_pool st1)"
    using r1(1,2) by (auto simp: c2(2) pool_inv_def cache_ok_def)
  moreover have "hm_len (cache (ls_pool st1)) < unat (max_cache_entries (ls_pool st1))"
    using r1(2,3) by (simp add: c2(1) cfg(3) hm_len_fmupd fmdom_notD)
  ultimately show ?thesis
    using late_bid_event [OF i2(1), of A btx t h ?c ans2 P it] bid unsent clock
    by (simp add: c2(1) cfg(1,2) del: send_loop.simps)
qed

text \<open>The target first: it is cached, and goes out as soon as the bid is reported, the bid behind it.\<close>

lemma pair_target_first:
  assumes bid: "backrun_bid_for A (policy (ls_pool st)) btx t" "h \<noteq> t"
    and target: "\<not> to_gateway A (policy (ls_pool st)) tx" and room: "pair_room t (ls_pool st)"
    and unsent: "h \<notin> sent_keys (ls_sent st)" "t \<notin> sent_keys (ls_sent st)"
    and sroom: "sent_len (ls_sent st) + 2 \<le> unat (max_entries (ls_sent st))"
    and clock: "prune_at ans2 - observe_time ans1 < ttl (ls_pool st)" and ok: "\<And>i. send_ok ans2 i"
  shows "\<exists>st'. process_batch A P it [(\<lparr>ev_hash = t, ev_action = InsertEv tx\<rparr>, ans1), (\<lparr>ev_hash = h, ev_action = InsertEv btx\<rparr>, ans2)] st
    = ([(t, to_ipc (opportunity_of t tx)), (h, to_ipc (bid_of A (policy (ls_pool st)) t (h, btx, observe_time ans2)))], False, st')"
proof -
  obtain ex1 p1 where pr1: "prune (prune_at ans1) (ls_pool st) = (ex1, p1)" by fastforce
  note room1 = prune_pair_room [OF pr1 room]
  have r1: "no_empty_vec (pending p1)" "vec_of (pending p1) t = []"
    using room1(1) by (simp_all add: pair_room_def pool_inv_def)
  have gw: "\<not> to_gateway A (policy p1) tx" using target by (simp add: room1(2))
  have obs: "observe_at A t tx (observe_time ans1) p1
      = (default_result\<lparr>skipped_non_gateway := True\<rparr>, insert_cache t tx (observe_time ans1) p1)"
    by (rule observe_vanilla [OF gw fresh_vec_none [OF r1]])
  have "\<not> sent_contains (ls_sent st) t" using unsent(2) by (simp add: sent_contains_keys)
  from process_insert [OF this pr1 obs, of P it]
  obtain st1 where e: "process_event A P it (\<lparr>ev_hash = t, ev_action = InsertEv tx\<rparr>, ans1) st
      = send_loop P ans1 0 (reinjections (default_result\<lparr>skipped_non_gateway := True\<rparr>)) st1"
    and st1: "ls_pool st1 = insert_cache t tx (observe_time ans1) p1" "ls_sent st1 = ls_sent st"
    by blast
  have e1: "process_event A P it (\<lparr>ev_hash = t, ev_action = InsertEv tx\<rparr>, ans1) st = ([], False, st1)"
    using e by (simp add: default_result_def)
  let ?rs = "[opportunity_of t tx, bid_of A (policy (ls_pool st)) t (h, btx, observe_time ans2)]"
  obtain st2 where e2: "process_event A P it (\<lparr>ev_hash = h, ev_action = InsertEv btx\<rparr>, ans2) st1 = send_loop P ans2 0 ?rs st2"
    and st2: "ls_sent st2 = ls_sent st"
    using bid_after_target [OF room pr1 st1(1) bid _ clock, of P it] unsent(1) by (auto simp: st1(2) simp del: send_loop.simps)
  have "\<exists>st'. send_loop P ans2 0 ?rs st2 = (map (\<lambda>r. (rj_hash r, to_ipc r)) ?rs, False, st')"
    using unsent sroom bid(2) ok by (intro send_loop_all) (auto simp: st2 opportunity_of_def bid_of_def)
  then obtain st' where "send_loop P ans2 0 ?rs st2 = (map (\<lambda>r. (rj_hash r, to_ipc r)) ?rs, False, st')" by blast
  then show ?thesis
    using e1 e2 by (simp del: send_loop.simps) (simp add: opportunity_of_def bid_of_def)
qed

text \<open>A target that is a top-of-block bid of its own is written as one when it is reported. The bid behind
  it then goes out alone: the dedup cache holds the target back.\<close>

lemma tob_then_bid:
  assumes tob: "tob_bid A (policy (ls_pool st)) tx"
    and bid: "backrun_bid_for A (policy (ls_pool st)) btx t" "h \<noteq> t" and room: "pair_room t (ls_pool st)"
    and unsent: "h \<notin> sent_keys (ls_sent st)" "t \<notin> sent_keys (ls_sent st)"
    and sroom: "sent_len (ls_sent st) + 2 \<le> unat (max_entries (ls_sent st))"
    and clock: "prune_at ans2 - observe_time ans1 < ttl (ls_pool st)" and ok: "\<And>i. send_ok ans1 i" "\<And>i. send_ok ans2 i"
  shows "\<exists>st'. process_batch A P it [(\<lparr>ev_hash = t, ev_action = InsertEv tx\<rparr>, ans1), (\<lparr>ev_hash = h, ev_action = InsertEv btx\<rparr>, ans2)] st
    = ([(t, \<lparr>ipc_payload = tx, ipc_priority = tob_priority A (policy (ls_pool st)) (fallback (ls_pool st)) tx, extra_data = []\<rparr>),
        (h, to_ipc (bid_of A (policy (ls_pool st)) t (h, btx, observe_time ans2)))], False, st')"
proof -
  let ?pol = "policy (ls_pool st)"
  obtain ex1 p1 where pr1: "prune (prune_at ans1) (ls_pool st) = (ex1, p1)" by fastforce
  note room1 = prune_pair_room [OF pr1 room]
  have fb: "fallback p1 = fallback (ls_pool st)"
    using prune_inv(2) [OF _ pr1] room by (simp add: pair_room_def pool_config_def)
  obtain call where call: "to_gateway A (policy p1) tx" "decode_gateway_call A tx = Some call" "is_tob call"
    using tob by (auto simp: tob_bid_def room1(2) split: option.splits)
  let ?r = "\<lparr>rj_hash = t, rj_tx = tx, rj_priority = tob_priority A ?pol (fallback (ls_pool st)) tx\<rparr>"
  have obs: "observe_at A t tx (observe_time ans1) p1
      = (default_result\<lparr>reinjections := [?r]\<rparr>, insert_cache t tx (observe_time ans1) p1)"
    using observe_tob [OF call] by (simp add: tob_priority_def room1(2) fb)
  have "\<not> sent_contains (ls_sent st) t" using unsent(2) by (simp add: sent_contains_keys)
  from process_insert [OF this pr1 obs, of P it]
  obtain st1 where e: "process_event A P it (\<lparr>ev_hash = t, ev_action = InsertEv tx\<rparr>, ans1) st = send_loop P ans1 0 [?r] st1"
    and st1: "ls_pool st1 = insert_cache t tx (observe_time ans1) p1" "ls_sent st1 = ls_sent st"
    by (auto simp: default_result_def simp del: send_loop.simps)
  have sl1: "sent_len (ls_sent st1) + length [?r] \<le> unat (max_entries (ls_sent st1))" using sroom by (simp add: st1)
  obtain st1' where s1: "send_loop P ans1 0 [?r] st1 = ([(t, to_ipc ?r)], False, st1')"
    using send_loop_all [OF ok(1) _ _ sl1, of P 0] unsent(2) by (auto simp: st1 simp del: send_loop.simps)
  obtain ev s where ins: "sent_insert t (rj_priority ?r) (ls_sent st) = (ev, s)" by fastforce
  have "Suc (sent_len (ls_sent st)) \<le> unat (max_entries (ls_sent st))" using sroom by simp
  note k = sent_keys_insert_room [OF this ins]
  have st1': "ls_pool st1' = ls_pool st1" "ls_sent st1' = s"
    using send_loop_effect [OF s1] ins by (simp_all add: st1 to_ipc_def)
  let ?rs = "[opportunity_of t tx, bid_of A ?pol t (h, btx, observe_time ans2)]"
  have "ls_pool st1' = insert_cache t tx (observe_time ans1) p1" "h \<notin> sent_keys (ls_sent st1')"
    using st1 unsent(1) bid(2) by (auto simp: st1' k(1))
  from bid_after_target [OF room pr1 this(1) bid this(2) clock, of P it]
  obtain st2 where e2: "process_event A P it (\<lparr>ev_hash = h, ev_action = InsertEv btx\<rparr>, ans2) st1' = send_loop P ans2 0 ?rs st2"
    and st2: "ls_sent st2 = s"
    by (auto simp: st1'(2) simp del: send_loop.simps)
  have sl2: "sent_len (ls_sent st2) + length (tl ?rs) \<le> unat (max_entries (ls_sent st2))"
    using sroom k(2,3) by (simp add: st2)
  have "\<exists>st'. send_loop P ans2 0 (tl ?rs) st2 = (map (\<lambda>r. (rj_hash r, to_ipc r)) (tl ?rs), False, st')"
    by (rule send_loop_all [OF ok(2) _ _ sl2]) (use unsent(1) bid(2) in \<open>auto simp: st2 k(1) bid_of_def\<close>)
  moreover have "send_loop P ans2 0 ?rs st2 = send_loop P ans2 0 (tl ?rs) st2"
    using k(1) by (simp add: sent_contains_keys st2 opportunity_of_def)
  ultimately obtain st' where "send_loop P ans2 0 ?rs st2 = (map (\<lambda>r. (rj_hash r, to_ipc r)) (tl ?rs), False, st')" by auto
  then show ?thesis
    using e s1 e2 by (simp del: send_loop.simps) (simp add: to_ipc_def bid_of_def)
qed

end
