(* ===== verification/Routes.thy ===== *)
theory Routes
  imports Metrics
begin

section \<open>The HTTP surface\<close>

text \<open>
  \<^verbatim>\<open>src/routes.rs\<close>: the table of routes and the two handlers. The server, its routing of other
  paths and methods and the JSON serialisation belong to the crate \<open>axum\<close>: a JSON response
  carries the snapshot itself. The text of an encoder error is an argument.
\<close>

datatype handler = Health | MetricsEndpoint

datatype response =
    JsonResponse health_snapshot
  | Response (response_status: u16) (content_type: string) (response_body: "u8 list")

definition router :: "(string \<times> handler) list" where
  "router = [(''/health'', Health), (''/metrics'', MetricsEndpoint)]"

definition str_bytes :: "string \<Rightarrow> u8 list" where
  "str_bytes s = map (\<lambda>c. of_nat (of_char c)) s"

definition health :: "('r, 'c, 'g, 'v) prom \<Rightarrow> ('r, 'c, 'g, 'v) metrics \<Rightarrow>
    response \<times> ('r, 'c, 'g, 'v) metrics" where
  "health P m = (let snap = snapshot P m in (JsonResponse snap, record_http P ''/health'' 200 m))"

definition metrics_endpoint :: "('r, 'c, 'g, 'v) prom \<Rightarrow> (('r, 'c, 'g, 'v) metrics \<Rightarrow> 'e + u8 list) \<Rightarrow>
    ('e render_error \<Rightarrow> u8 list) \<Rightarrow> ('r, 'c, 'g, 'v) metrics \<Rightarrow> response \<times> ('r, 'c, 'g, 'v) metrics" where
  "metrics_endpoint P encode display m =
     (case render_prometheus encode m of
        Inr body \<Rightarrow>
          (Response 200 ''text/plain; version=0.0.4'' body, record_http P ''/metrics'' 200 m)
      | Inl e \<Rightarrow>
          (Response 500 ''text/plain'' (str_bytes ''metrics encode error: '' @ display e),
           record_http P ''/metrics'' 500 m))"

text \<open>A request for a path of the table; any other path is left to the server.\<close>

definition serve :: "('r, 'c, 'g, 'v) prom \<Rightarrow> (('r, 'c, 'g, 'v) metrics \<Rightarrow> 'e + u8 list) \<Rightarrow>
    ('e render_error \<Rightarrow> u8 list) \<Rightarrow> string \<Rightarrow> ('r, 'c, 'g, 'v) metrics \<Rightarrow>
    (response \<times> ('r, 'c, 'g, 'v) metrics) option" where
  "serve P encode display path m =
     (case map_of router path of
        None \<Rightarrow> None
      | Some Health \<Rightarrow> Some (health P m)
      | Some MetricsEndpoint \<Rightarrow> Some (metrics_endpoint P encode display m))"

fun status_of :: "response \<Rightarrow> u16" where
  "status_of (JsonResponse s) = 200"
| "status_of (Response st ct b) = st"

lemma serve_paths:
  "serve P encode display path m \<noteq> None \<longleftrightarrow> path \<in> {''/health'', ''/metrics''}"
  by (auto simp: serve_def router_def split: handler.splits)

lemma metrics_endpoint_status:
  "status_of (fst (metrics_endpoint P encode display m)) \<in> {200, 500}"
  by (simp add: metrics_endpoint_def split: sum.splits)

text \<open>A served request is counted once, under its path and the class of its status, and leaves
  the snapshot alone.\<close>

lemma serve_effect:
  assumes "prom_laws P" "serve P encode display path m = Some (resp, m')"
  shows "snapshot P m' = snapshot P m"
    "vec_desc P (http_requests_total m') = vec_desc P (http_requests_total m)"
    "length (snd (vec_desc P (http_requests_total m))) = 2 \<Longrightarrow> vec_get P k (http_requests_total m') = vec_get P k (http_requests_total m)
       + (if k = [path, status_class (status_of resp)] then 1 else 0)"
    "status_class (status_of resp) \<in> {''2xx'', ''5xx''}"
proof -
  have "(path = ''/health'' \<and> health P m = (resp, m'))
      \<or> (path = ''/metrics'' \<and> metrics_endpoint P encode display m = (resp, m'))"
    using assms(2) by (auto simp: serve_def router_def split: if_splits)
  then have m': "m' = record_http P path (status_of resp) m \<and> status_of resp \<in> {200, 500}"
    by (auto simp: health_def metrics_endpoint_def Let_def split: sum.splits)
  then show "snapshot P m' = snapshot P m" by (simp add: snapshot_record_http)
  show "vec_desc P (http_requests_total m') = vec_desc P (http_requests_total m)"
    using m' by (auto simp: record_http_def prom_lawsD(4) [OF assms(1)])
  show "length (snd (vec_desc P (http_requests_total m))) = 2 \<Longrightarrow> vec_get P k (http_requests_total m') = vec_get P k (http_requests_total m)
       + (if k = [path, status_class (status_of resp)] then 1 else 0)"
    using m' http_requests_record_http [OF assms(1)] by simp
  show "status_class (status_of resp) \<in> {''2xx'', ''5xx''}"
    using m' by (auto simp: status_class_def)
qed

text \<open>A metrics request succeeds exactly when the encoder gives well-formed UTF-8.\<close>

lemma metrics_endpoint_ok_iff:
  "status_of (fst (metrics_endpoint P encode display m)) = 200 \<longleftrightarrow>
     (\<exists>buf. encode m = Inr buf \<and> valid_utf8 buf)"
  by (auto simp: metrics_endpoint_def render_prometheus_def split: sum.splits)

end
