(* ===== verification/Startup.thy ===== *)
theory Startup
  imports Ipc_Machine Ipc_Pairing Priority_Slots Routes
begin

section \<open>Configuration and startup\<close>

text \<open>
  \<^verbatim>\<open>src/config.rs\<close> and the part of \<open>main\<close> in \<^verbatim>\<open>src/main.rs\<close> that decides what is started:
  the refusal of a network without a gateway, the mode handed to the loop, whether the loop runs.
  The command-line parser, the logger and the HTTP server are library code; binding the address
  is an argument, addresses and paths are strings.
\<close>

record app_config =
  bind :: string
  txpool_socket :: "string option"
  cfg_network :: network
  backrun_pool_ttl_ms :: u64

text \<open>The values of the attributes \<open>default_value\<close> and \<open>default_value_t\<close>.\<close>

definition default_config :: app_config where
  "default_config =
     \<lparr>bind = ''127.0.0.1:8089'', txpool_socket = None, cfg_network = Mainnet, backrun_pool_ttl_ms = 2500\<rparr>"

definition FALLBACK_PRIORITY :: u64 where
  "FALLBACK_PRIORITY = 0xffff"

definition BACKRUN_CACHE_MAX :: usize where
  "BACKRUN_CACHE_MAX = 4096"

definition BACKRUN_PENDING_MAX :: usize where
  "BACKRUN_PENDING_MAX = 4096"

definition SENT_CACHE_MAX :: usize where
  "SENT_CACHE_MAX = 16384"

text \<open>\<open>Duration::from_millis\<close>, in nanoseconds.\<close>

definition from_millis :: "u64 \<Rightarrow> duration" where
  "from_millis ms = unat ms * 1000000"

definition mode_with :: "policy_config \<Rightarrow> app_config \<Rightarrow> priority_mode" where
  "mode_with pol cfg =
     \<lparr>pm_policy = pol,
      pm_fallback = ucast FALLBACK_PRIORITY,
      pm_ttl = from_millis (backrun_pool_ttl_ms cfg),
      pm_max_cache_entries = BACKRUN_CACHE_MAX,
      pm_max_pending_entries = BACKRUN_PENDING_MAX,
      pm_sent_cache_max = SENT_CACHE_MAX\<rparr>"

definition mode_of :: "app_config \<Rightarrow> priority_mode" where
  "mode_of cfg = mode_with (for_network (cfg_network cfg)) cfg"

datatype 'e start_error = UnsetGateway string | BindError 'e

text \<open>What runs after a successful start: the server, and the loop when a socket is configured.\<close>

record ('r, 'c, 'g, 'v) started =
  st_metrics :: "('r, 'c, 'g, 'v) metrics"
  st_loop :: "(string \<times> priority_mode) option"

text \<open>From the policy that the network resolves to, so that the refusal is there to be reached: the built-in
  networks all have a gateway.\<close>

definition start_with :: "policy_config \<Rightarrow> (string \<Rightarrow> 'e option) \<Rightarrow> app_config \<Rightarrow> ('r, 'c, 'g, 'v) metrics \<Rightarrow>
    'e start_error + ('r, 'c, 'g, 'v) started" where
  "start_with pol bind_address cfg m =
     (if gateway_is_unset pol
      then Inl (UnsetGateway (network_as_str (cfg_network cfg)))
      else (case bind_address (bind cfg) of
              Some e \<Rightarrow> Inl (BindError e)
            | None \<Rightarrow>
                Inr \<lparr>st_metrics = m,
                  st_loop = (case txpool_socket cfg of
                               Some path \<Rightarrow> Some (path, mode_with pol cfg)
                             | None \<Rightarrow> None)\<rparr>))"

definition startup :: "(string \<Rightarrow> 'e option) \<Rightarrow> app_config \<Rightarrow> ('r, 'c, 'g, 'v) metrics \<Rightarrow>
    'e start_error + ('r, 'c, 'g, 'v) started" where
  "startup bind_address cfg m = start_with (for_network (cfg_network cfg)) bind_address cfg m"

subsection \<open>Every built-in network starts\<close>

lemma gateway_set: "\<not> gateway_is_unset (for_network n)"
  by (cases n) (simp_all add: gateway_is_unset_def for_network_def)

lemma network_gateway_inject: "network_gateway n = network_gateway k \<longleftrightarrow> n = k"
  by (cases n; cases k) simp_all

lemma startup_result:
  "startup bind_address cfg m =
     (case bind_address (bind cfg) of
        Some e \<Rightarrow> Inl (BindError e)
      | None \<Rightarrow> Inr \<lparr>st_metrics = m, st_loop = map_option (\<lambda>path. (path, mode_of cfg)) (txpool_socket cfg)\<rparr>)"
  by (simp add: startup_def start_with_def mode_of_def gateway_set split: option.splits)

subsection \<open>The bounds of the running system\<close>

lemma mode_with_room: "Suc (unat (pm_max_pending_entries (mode_with pol cfg))) < 2 ^ 64"
  by (simp add: mode_with_def BACKRUN_PENDING_MAX_def)

lemma mode_of_room: "Suc (unat (pm_max_pending_entries (mode_of cfg))) < 2 ^ 64"
  unfolding mode_of_def by (rule mode_with_room)

lemma fallback_value: "unat (pm_fallback (mode_of cfg)) = 0xffff"
  by (simp add: mode_of_def mode_with_def FALLBACK_PRIORITY_def)

lemma max_capacity: "max (4096 :: usize) 1 = 4096" "max (16384 :: usize) 1 = 16384"
  by (simp_all add: max_def word_le_nat_alt)

lemma loop_config_initial:
  "loop_config (cf_state (initial (mode_with pol cfg) m)) =
     ((pol, 0xffff, from_millis (backrun_pool_ttl_ms cfg), 4096, 4096), 16384)"
  by (simp add: loop_config_def initial_def new_loop_state_def pool_config_def pool_new_def sent_new_def
      mode_with_def FALLBACK_PRIORITY_def BACKRUN_CACHE_MAX_def BACKRUN_PENDING_MAX_def SENT_CACHE_MAX_def max_capacity)

lemma system_bounds:
  assumes P: "prom_laws P" and m: "fresh_metrics P m" and path: "ipc_path A P it (initial (mode_of cfg) m) ls c"
  shows "machine_inv P c"
    "cache_len (ls_pool (cf_state c)) \<le> 4096"
    "unat (pending_len (ls_pool (cf_state c))) \<le> 4096"
    "sent_len (ls_sent (cf_state c)) \<le> 16384"
proof -
  note r = path_machine_inv [OF path P machine_inv_initial [OF m mode_of_room]]
  then show "machine_inv P c" by simp
  have cfg: "max_cache_entries (ls_pool (cf_state c)) = 4096" "max_pending_entries (ls_pool (cf_state c)) = 4096"
    "unat (max_entries (ls_sent (cf_state c))) = 16384"
    using r by (simp_all add: mode_of_def loop_config_initial) (simp_all add: loop_config_def pool_config_def)
  have inv: "pool_inv (ls_pool (cf_state c))" "sent_inv (ls_sent (cf_state c))"
    using r by (simp_all add: machine_inv_def loop_inv_def)
  show "cache_len (ls_pool (cf_state c)) \<le> 4096"
    using inv(1) cfg(1) by (simp add: pool_inv_def cache_len_def)
  show "unat (pending_len (ls_pool (cf_state c))) \<le> 4096"
    using inv(1) cfg(2) by (simp add: pool_inv_def pending_len_def bids_ok_def)
  show "sent_len (ls_sent (cf_state c)) \<le> 16384"
    using inv(2) cfg(3) by (simp add: sent_inv_def sent_len_def)
qed

end
