(* ===== verification/Samples.thy ===== *)
theory Samples
  imports Startup
begin

section \<open>Concrete instances of the foreign interfaces\<close>

text \<open>
  One envelope type with its accessors and a two-byte call encoding, one implementation of the
  metrics registry, one iteration order: instances of the parameters of the model at which the
  properties with hypotheses are exercised.
\<close>

datatype sample_tx =
  SampleTx (s_to: "address option") (s_gas: u64) (s_fee: u128) (s_max: u128) (s_input: "u8 list")

definition sample_selector :: "u8 list" where
  "sample_selector = [0x12, 0x34, 0x56, 0x78]"

fun sample_decode :: "u8 list \<Rightarrow> gateway_call_args option" where
  "sample_decode [t, b] =
     Some \<lparr>sender = 0, bidAmount = ucast b, targetBlockNumber = 0, targetTxHash = ucast t,
           requireExclusiveSlot = False, searcherContract = 0, searcherCallData = []\<rparr>"
| "sample_decode _ = None"

definition sample_alloy :: "sample_tx alloy" where
  "sample_alloy =
     \<lparr>tx_to = s_to, tx_gas_limit = s_gas, tx_input = s_input, tx_priority_fee_or_price = s_fee,
      tx_max_fee_per_gas = s_max, call_selector = sample_selector, abi_decode_raw = sample_decode\<rparr>"

definition local_policy :: policy_config where
  "local_policy = for_network Localnet"

text \<open>A call of the gateway for target \<open>t\<close> with bid \<open>b\<close>, a transfer.\<close>

definition gateway_tx :: "u8 \<Rightarrow> u8 \<Rightarrow> sample_tx" where
  "gateway_tx t b = SampleTx (Some (gateway local_policy)) 1 0 0 (sample_selector @ [t, b])"

definition transfer_tx :: sample_tx where
  "transfer_tx = SampleTx (Some 7) 21000 2 30 []"

lemma sample_decode_call:
  "decode_gateway_call sample_alloy (gateway_tx t b) = Some \<lparr>bid_amount = ucast b, target_tx_hash = ucast t\<rparr>"
  by (simp add: decode_gateway_call_def gateway_tx_def sample_alloy_def sample_selector_def)

lemma sample_to:
  "to_gateway sample_alloy local_policy (gateway_tx t b)"
  "\<not> to_gateway sample_alloy local_policy transfer_tx"
  by (simp_all add: to_gateway_def gateway_tx_def transfer_tx_def sample_alloy_def local_policy_def for_network_def)

lemma unat_byte: "unat (ucast (b :: u8) :: u256) = unat b"
  by (rule unat_ucast_up) simp

lemma sample_score: "compute_priority sample_alloy (gateway_tx t b) local_policy = ucast b"
proof (rule unsigned_word_eqI)
  have "unat b < 2 ^ 8"
    by (rule order_less_le_trans [OF unsigned_less]) simp
  moreover have "fee_value sample_alloy (gateway_tx t b) local_policy = 0"
    by (simp add: fee_value_def gateway_tx_def sample_alloy_def)
  moreover have "bid_value sample_alloy (gateway_tx t b) local_policy = unat b"
    by (simp add: bid_value_def sample_decode_call unat_byte)
       (simp add: gateway_tx_def sample_alloy_def)
  ultimately show "unat (compute_priority sample_alloy (gateway_tx t b) local_policy) = unat (ucast b :: u256)"
    by (simp add: unat_compute_priority unat_byte)
qed

lemma sample_bid:
  assumes "t \<noteq> 0"
  shows "backrun_bid_for sample_alloy local_policy (gateway_tx t b) (ucast t)"
proof -
  have "(ucast t :: u256) \<noteq> 0"
    using assms unat_byte [of t] by (metis unat_eq_zero)
  then show ?thesis by (simp add: backrun_bid_for_def sample_to sample_decode_call)
qed

definition sample_pool :: "usize \<Rightarrow> usize \<Rightarrow> sample_tx pending_pool" where
  "sample_pool mc mp = pool_new local_policy 0xffff 10 mc mp"

text \<open>Keys in ascending order.\<close>

definition ascending :: "(txhash, 'v) fmap \<Rightarrow> txhash list" where
  "ascending m = sorted_list_of_fset (fmdom m)"

lemma ascending_iteration: "is_iteration ascending"
  by (simp add: is_iteration_def ascending_def sorted_list_of_fset.rep_eq)

type_synonym sample_vec = "(string \<times> string list) \<times> (string list \<Rightarrow> u64)"

definition sample_prom :: "(string list, u64, i64, sample_vec) prom" where
  "sample_prom =
     \<lparr>registry_new = (\<lambda>prefix. Some []), registered = (\<lambda>r. r),
      register_counter = (\<lambda>name help r. if name \<in> set r then None else Some (0, name # r)),
      register_gauge = (\<lambda>name help r. if name \<in> set r then None else Some (0, name # r)),
      register_counter_vec =
        (\<lambda>name help labels r. if name \<in> set r then None else Some (((name, labels), \<lambda>l. 0), name # r)),
      counter_inc_by = (\<lambda>n c. c + n), counter_get = (\<lambda>c. c),
      gauge_set = (\<lambda>n g. n), gauge_get = (\<lambda>g. g),
      vec_desc = fst, vec_inc = (\<lambda>l (d, v). (d, v(l := v l + 1))), vec_get = (\<lambda>l (d, v). v l)\<rparr>"

lemma sample_prom_laws: "prom_laws sample_prom"
  by (auto simp: prom_laws_def accepted_def sample_prom_def)

subsection \<open>A pool with one parked bid\<close>

lemma sample_pool_inv: "Suc (unat mp) < 2 ^ 64 \<Longrightarrow> pool_inv (sample_pool mc mp)"
  unfolding sample_pool_def by (rule pool_inv_new)

lemma sample_pool_fields [simp]:
  "policy (sample_pool mc mp) = local_policy" "fallback (sample_pool mc mp) = 0xffff"
  "ttl (sample_pool mc mp) = 10" "cache (sample_pool mc mp) = fmempty"
  "cache_order (sample_pool mc mp) = []"
  "pending (sample_pool mc mp) = fmempty" "pending_order (sample_pool mc mp) = []"
  "pending_count (sample_pool mc mp) = 0" "streamed_targets (sample_pool mc mp) = {||}"
  "max_cache_entries (sample_pool mc mp) = max mc 1" "max_pending_entries (sample_pool mc mp) = max mp 1"
  by (simp_all add: sample_pool_def pool_new_def)

lemma sample_bids_for: "bids_for sample_alloy local_policy 5 [(1, gateway_tx 5 9, 0), (2, gateway_tx 5 7, 1)]"
  using sample_bid [of 5 9] sample_bid [of 5 7] by (simp add: bids_for_def)

text \<open>One bid for hash 5 parked at instant 3, then a prune that keeps it.\<close>

lemma sample_parked:
  "pool_run sample_alloy it [Observe 1 (gateway_tx 5 9) 3] (sample_pool 8 8) = (sample_pool 8 8)
     \<lparr>cache := fmupd 1 \<lparr>ct_tx = gateway_tx 5 9, ct_seen_at = 3\<rparr> fmempty, cache_order := [1],
      pending := fmupd 5 [\<lparr>pb_hash = 1, pb_tx = gateway_tx 5 9, pb_scalar = 9, pb_target = 5, pb_seen_at = 3\<rparr>] fmempty,
      pending_order := [(5, 1)], pending_count := 1\<rparr>"
proof -
  have gw: "tx_to sample_alloy (gateway_tx 5 9) = Some (gateway local_policy)"
    by (simp add: gateway_tx_def sample_alloy_def)
  show ?thesis
    by (simp add: observe_at_def insert_cache_def push_pending_def Let_def hm_len_fmupd gw
        is_allowlisted_gateway_def is_tob_def sample_decode_call sample_score)
qed

lemma sample_prune:
  "prune 4 (pool_run sample_alloy it [Observe 1 (gateway_tx 5 9) 3] (sample_pool 8 8))
     = (0, pool_run sample_alloy it [Observe 1 (gateway_tx 5 9) 3] (sample_pool 8 8))"
  unfolding sample_parked by (simp add: prune_def)

lemma sample_parked_inv: "pool_inv (pool_run sample_alloy it calls (sample_pool 8 8))"
  by (rule pool_run_inv [OF sample_pool_inv, THEN conjunct1]) simp

end
