(* ===== verification/Policy_Properties.thy ===== *)
theory Policy_Properties
  imports Samples
begin

section \<open>Properties of the policy\<close>

text \<open>Scores, call decoding and the layout of priorities.\<close>

text \<open>C4: The three encoders embed the intended block order: for any two requests, top-of-block
  bids, targets or backrun bids, with any hashes and scores, the 256-bit priorities compare exactly
  as the slots they stand for.\<close>
theorem encoders_embed_block_order:
  "encode_request r < encode_request r' \<longleftrightarrow> slot_of_request r < slot_of_request r'"
  by (rule slots.enc_less)

text \<open>C28: An encoded priority can be read back: its marker bits, its group key and its low 128 bits
  give the slot of the request it was made from.\<close>
theorem encoders_roundtrip:
  "decode_slot (encode_request r) = slot_of_request r"
  by (cases r) (simp_all add: decode_encoders)

text \<open>A backrun bid sits directly below its target: a priority that any encoder produces and that
  lies strictly between the bid and the opportunity of its target belongs to a better bid of a
  target with the same group key.\<close>
lemma bid_directly_behind_target:
  assumes "encode_backrun_bid_priority t s < encode_request r"
    and "encode_request r < encode_opportunity_priority t"
  shows "\<exists>u s'. r = BidRequest u s' \<and> backrun_id u = backrun_id t
    \<and> unat s mod 2 ^ 128 < unat s' mod 2 ^ 128"
proof -
  have "encode_request (BidRequest t s) < encode_request r" "encode_request r < encode_request (TargetRequest t)"
    using assms by simp_all
  then obtain w where "slot_of_request r = BidSlot (group_of t) w" "ucast s < w"
    using slots.bid_behind_target [of "BidRequest t s" "group_of t" "ucast s" "TargetRequest t" r] by auto
  then show ?thesis
    by (cases r) (auto simp: group_of_eq_iff word_less_nat_alt unat_low_word)
qed

text \<open>C21: The score of a transaction is its effective tip times its gas limit plus the bid of a valid
  call to the configured gateway, capped at the largest 256-bit value; the fee part never
  saturates.\<close>
theorem compute_priority_value:
  "unat (compute_priority A tx pol) = min (2 ^ 256 - 1) (fee_value A tx pol + bid_value A tx pol)
   \<and> fee_value A tx pol < 2 ^ 192"
  by (intro conjI unat_compute_priority fee_value_bound)

text \<open>From \<open>2 ^ 128\<close> on the low bits are kept and the rest is dropped, not clamped.\<close>
lemma scores_truncated:
  "encode_tob_priority (s + 2 ^ 128) = encode_tob_priority s
   \<and> encode_backrun_bid_priority t (s + 2 ^ 128) = encode_backrun_bid_priority t s"
proof -
  have "unat (s + 2 ^ 128 :: u256) mod 2 ^ 128 = unat s mod 2 ^ 128"
  proof -
    have "unat (s + 2 ^ 128 :: u256) = (unat s + 2 ^ 128) mod 2 ^ 256"
      by (simp add: unat_word_ariths)
    also have "\<dots> mod 2 ^ 128 = (unat s + 2 ^ 128) mod 2 ^ 128"
      by (rule mod_mod_cancel) (simp add: dvd_def exI [of _ "2 ^ 128"])
    finally show ?thesis by simp
  qed
  then have "unat (encode_tob_priority (s + 2 ^ 128)) = unat (encode_tob_priority s)"
    "unat (encode_backrun_bid_priority t (s + 2 ^ 128)) = unat (encode_backrun_bid_priority t s)"
    by (simp_all only: unat_encoding)
  then show ?thesis by (simp add: unsigned_word_eqI)
qed

text \<open>A gateway call is recognised exactly by its length, its selector and the decoder's answer on
  the rest of the input; any other input is no call and contributes no bid.\<close>
lemma decode_gateway_call_complete:
  "decode_gateway_call A tx =
     (if 4 \<le> length (tx_input A tx) \<and> take 4 (tx_input A tx) = call_selector A
      then map_option (\<lambda>c. \<lparr>bid_amount = bidAmount c, target_tx_hash = targetTxHash c\<rparr>)
             (abi_decode_raw A (drop 4 (tx_input A tx)))
      else None)
   \<and> (decode_gateway_call A tx = None \<longrightarrow> unat (compute_priority A tx pol) = fee_value A tx pol)"
proof -
  have "bid_value A tx pol = 0" if "decode_gateway_call A tx = None"
    using that by (simp add: bid_value_def)
  moreover have "min (2 ^ 256 - 1) (fee_value A tx pol) = fee_value A tx pol"
    using fee_value_bound [of A tx pol] by (simp add: min_def)
  ultimately have "decode_gateway_call A tx = None \<longrightarrow> unat (compute_priority A tx pol) = fee_value A tx pol"
    by (simp add: unat_compute_priority)
  then show ?thesis
    by (auto simp: decode_gateway_call_def Let_def split: option.splits)
qed

text \<open>Every top-of-block priority outranks every target and every backrun bid, whatever the scores;
  but the fallback of a top-of-block bid whose score is zero lies below all of them: such a bid is
  not at the top of the block.\<close>
lemma fallback_below_targets:
  "encode_opportunity_priority t < encode_tob_priority s
   \<and> encode_backrun_bid_priority t v < encode_tob_priority s
   \<and> pm_fallback (mode_of cfg) < encode_opportunity_priority t"
  using slots.tob_above [of "TobRequest s" "ucast s" "TargetRequest t"]
    slots.tob_above [of "TobRequest s" "ucast s" "BidRequest t v"]
  by (simp add: word_less_nat_alt fallback_value unat_encoding)

text \<open>A score of exactly \<open>2 ^ 128\<close> ranks as zero, below every smaller positive score.\<close>
lemma overflowing_score_ranks_lowest:
  assumes "0 < k" "k < 2 ^ 128"
  shows "encode_tob_priority (2 ^ 128) < encode_tob_priority k"
    "encode_backrun_bid_priority t (2 ^ 128) < encode_backrun_bid_priority t k"
proof -
  have "unat (2 ^ 128 :: u256) = 2 ^ 128" by simp
  moreover have "0 < unat k" "unat k < 2 ^ 128"
    using assms by (simp_all add: word_less_nat_alt)
  ultimately show "encode_tob_priority (2 ^ 128) < encode_tob_priority k"
    "encode_backrun_bid_priority t (2 ^ 128) < encode_backrun_bid_priority t k"
    by (simp_all add: word_less_nat_alt unat_encoding)
qed

text \<open>C36: The scores at the edges. Between them every top-of-block priority outranks every target and
  every backrun bid; but a top-of-block bid whose score is zero is handed out, by a pool with the
  fallback of the program, with \<open>0xffff\<close>, which lies below all targets and all top-of-block
  priorities, and from \<open>2 ^ 128\<close> on a score loses its high bits instead of being clamped, so that a
  score of exactly \<open>2 ^ 128\<close> ranks as zero, below every smaller positive score, of a top-of-block bid
  and of a backrun bid for one target.\<close>
theorem scores_at_the_edges:
  assumes tob: "tob_bid A (policy p) tx" "compute_priority A tx (policy p) = 0" "fallback p = pm_fallback (mode_of cfg)"
    and k: "0 < k" "k < 2 ^ 128"
  shows "encode_opportunity_priority t < encode_tob_priority s \<and> encode_backrun_bid_priority t v < encode_tob_priority s
   \<and> (\<exists>r. reinjections (fst (observe_at A h tx now p)) = [r] \<and> rj_hash r = h \<and> rj_tx r = tx \<and> rj_priority r = 0xffff
        \<and> rj_priority r < encode_opportunity_priority t \<and> rj_priority r < encode_tob_priority s)
   \<and> encode_tob_priority (s + 2 ^ 128) = encode_tob_priority s
   \<and> encode_backrun_bid_priority t (s + 2 ^ 128) = encode_backrun_bid_priority t s
   \<and> encode_tob_priority (2 ^ 128) < encode_tob_priority k
   \<and> encode_backrun_bid_priority t (2 ^ 128) < encode_backrun_bid_priority t k"
proof -
  have fb: "fallback p = 0xffff" by (simp add: tob(3) mode_of_def mode_with_def FALLBACK_PRIORITY_def)
  obtain call where "to_gateway A (policy p) tx" "decode_gateway_call A tx = Some call" "is_tob call"
    using tob(1) by (auto simp: tob_bid_def split: option.splits)
  from observe_tob [OF this, of h now] have
    "reinjections (fst (observe_at A h tx now p)) = [\<lparr>rj_hash = h, rj_tx = tx, rj_priority = 0xffff\<rparr>]"
    by (simp add: tob(2) fb)
  moreover have low: "0xffff < encode_opportunity_priority t"
    using fallback_below_targets [of t s v cfg] fb tob(3) by simp
  moreover have "0xffff < encode_tob_priority s"
    by (rule less_trans [OF low]) (use fallback_below_targets [of t s v cfg] in simp)
  ultimately show ?thesis
    using scores_truncated [of s t] overflowing_score_ranks_lowest [OF k] fallback_below_targets [of t s v cfg] by simp
qed

lemma scores_at_the_edges_witness:
  "\<exists>r. reinjections (fst (observe_at sample_alloy 1 (gateway_tx 0 0) 3 (sample_pool 8 8))) = [r] \<and> rj_priority r = 0xffff
     \<and> rj_priority r < encode_opportunity_priority 5"
proof -
  have b: "tob_bid sample_alloy (policy (sample_pool 8 8)) (gateway_tx 0 0)"
    by (simp add: tob_bid_def sample_to sample_decode_call is_tob_def)
  have z: "compute_priority sample_alloy (gateway_tx 0 0) (policy (sample_pool 8 8)) = 0"
    by (simp add: sample_score)
  have f: "fallback (sample_pool 8 8) = pm_fallback (mode_of default_config)"
    by (simp add: mode_of_def mode_with_def FALLBACK_PRIORITY_def)
  have k: "0 < (1 :: u256)" "(1 :: u256) < 2 ^ 128" by simp_all
  show ?thesis
    using scores_at_the_edges [OF b z f k, where h = 1 and now = 3 and t = 5, THEN conjunct2, THEN conjunct2, THEN conjunct1] by blast
qed

end
