(* ===== verification/Sent_Properties.thy ===== *)
theory Sent_Properties
  imports Samples
begin

section \<open>Properties of the dedup cache\<close>

text \<open>Bounds, the bounded queue it implements, and what happens to a hash that returns.\<close>

text \<open>After any sequence of insertions and removals a new cache holds at most its capacity of
  hashes (one, for a configured capacity of zero), and only hashes inserted after their last
  removal.\<close>
lemma sent_cache_bounded:
  "card (sent_keys (sent_run ops (sent_new n))) \<le> max 1 (unat n)
   \<and> sent_keys (sent_run ops (sent_new n)) \<subseteq> surviving ops {}"
  using sent.run_bounded [OF sent_inv_new, of ops n] sent.run_keys [OF sent_inv_new, of ops n]
  by (simp add: sent_run_def) (simp add: sent_new_def unat_max_word max.commute)

text \<open>C22: Along any sequence in which no hash is inserted again after its removal, the cache is a
  bounded queue: its live hashes with their priorities, in the order of the queue, are those of
  the list in which a new hash goes to the end, the oldest leave beyond the capacity, a present
  hash keeps its place and takes the new priority, and removal deletes.\<close>
theorem sent_cache_refines_queue:
  assumes "no_return {} ops"
  shows "sent_abs (sent_run ops (sent_new n)) = fifo_run (max 1 (unat n)) ops []"
proof -
  have "unat (max_entries (sent_new n)) = max 1 (unat n)"
    by (simp add: sent_new_def unat_max_word max.commute)
  then show ?thesis
    using sent_run_refines [OF sent_clean_new assms, of n] by simp
qed

lemma sent_cache_refines_queue_witness:
  "sent_abs (sent_run [Ins 1 10, Ins 2 20, Ins 1 11, Ins 3 30, Del 2] (sent_new 2)) = [(3, 30)]"
  using sent_cache_refines_queue [of "[Ins 1 10, Ins 2 20, Ins 1 11, Ins 3 30, Del 2]" 2]
  by (simp add: fifo_run_def fifo_insert_def fifo_remove_def)

text \<open>Under the same condition the order queue never exceeds twice the capacity after an
  insertion, and the insertion reports exactly the number of hashes it evicted.\<close>
lemma sent_insert_reports:
  assumes fresh: "no_return {} (ops @ [Ins h p])"
    and ins: "sent_insert h p (sent_run ops (sent_new n)) = (ev, s')"
  shows "length (sent_order s') \<le> unat (saturating_mul (max n 1) 2)
    \<and> ev = of_nat (length (sent_abs (sent_run ops (sent_new n)))
        + (if h \<in> sent_keys (sent_run ops (sent_new n)) then 0 else 1) - max 1 (unat n))"
proof -
  let ?s = "sent_run ops (sent_new n)"
  obtain D where D: "sent_clean D ?s" "h \<in> sent_keys ?s \<or> h \<notin> D"
    using sent_run_clean [OF sent_clean_new fresh] by blast
  have cap: "max_entries ?s = max n 1"
    using sent_run_cap [of ops "sent_new n"] by (simp add: sent_new_def unsigned_word_eqI)
  show ?thesis
    using sent_insert_order_bound [OF D ins] sent_insert_refines(3) [OF D ins]
    by (simp add: cap unat_max_word max.commute)
qed

text \<open>C37: Without that condition the queue is not implemented, in two ways. A hash that is inserted and
  removed \<open>k\<close> times in turn leaves \<open>k\<close> entries in the queue of an empty cache, whatever its
  capacity, because compaction runs while the hash is live. And a hash that returns after its
  removal meets its stale entry, so its own insertion can evict it instead of the oldest hash.\<close>
theorem returning_hash_breaks_queue:
  assumes "a \<noteq> b"
  shows "sent_len (sent_run (churn h p k) (sent_new n)) = 0
   \<and> length (sent_order (sent_run (churn h p k) (sent_new n))) = k
   \<and> sent_keys (sent_run [Ins a x, Del a, Ins b y, Ins a z] (sent_new 1)) = {b}"
proof -
  have churned: "sent_run (churn h p k) (sent_new n) = (sent_new n)\<lparr>sent_order := replicate (k + 0) h\<rparr>"
    by (rule sent_churn) (simp_all add: sent_new_def unat_max_word)
  have "sent_keys (sent_run [Ins a x, Del a, Ins b y, Ins a z] (sent_new 1)) = {b}"
    using assms
    by (simp add: sent_new_def sent_insert_def sent_remove_def sent_keys_def Let_def hm_len_fmupd hm_len_fmdrop
        saturating_mul_def)
  then show ?thesis unfolding churned by (simp add: sent_len_def) (simp add: sent_new_def)
qed

lemma returning_hash_breaks_queue_witness:
  "length (sent_order (sent_run (churn 7 9 5) (sent_new 2))) = 5
   \<and> sent_keys (sent_run [Ins 1 10, Del 1, Ins 2 20, Ins 1 30] (sent_new 1)) = {2}"
  using returning_hash_breaks_queue [of 1 2 7 9 5 2 10 20 30] by simp

end
