(* ===== verification/Pool_Queues.thy ===== *)
theory Pool_Queues
  imports Pool_Expiry "HOL-Library.Sublist"
begin

section \<open>How long the order queues of the pool get\<close>

text \<open>
  The capacities bound the cached transactions and the parked bids, not the two queues that keep
  their order: an entry whose transaction is gone stays until it comes to the front. The queues are
  subsequences of the observations, and a prune ends at a front entry that is not expired, so when
  hashes do not return they hold observations of the last time to live only. When one does return,
  its entry keeps its place and its age starts again, and nothing behind it leaves.
\<close>

subsection \<open>Queues and observations\<close>

fun observations :: "'tx pool_call list \<Rightarrow> (txhash \<times> instant) list" where
  "observations [] = []"
| "observations (Observe h tx now # calls) = (h, now) # observations calls"
| "observations (_ # calls) = observations calls"

lemma evict_cache_subseq: "evict_cache mx c ord st = (c', ord', st') \<Longrightarrow> subseq ord' ord"
  by (induction mx c ord st rule: evict_cache.induct) (auto split: if_splits option.splits)

lemma prune_cache_subseq: "prune_cache d now c ord st = (c', ord', st') \<Longrightarrow> subseq ord' ord"
  by (induction d now c ord st rule: prune_cache.induct) (auto split: if_splits option.splits)

lemma evict_pending_subseq: "evict_pending mx pend ord cnt ev = (pend', ord', cnt', ev') \<Longrightarrow> subseq ord' ord"
  by (induction mx pend ord cnt ev rule: evict_pending.induct)
     (auto simp: Let_def split: option.splits if_splits)

lemma prune_pending_subseq: "prune_pending d now pend ord cnt ex = (pend', ord', cnt', ex') \<Longrightarrow> subseq ord' ord"
  by (induction d now pend ord cnt ex rule: prune_pending.induct)
     (auto simp: Let_def split: option.splits if_splits)

text \<open>What a prune leaves at the front of a queue is there and is not expired.\<close>

lemma prune_cache_front:
  "prune_cache d now c ord st = (c', front # ord', st') \<Longrightarrow> \<exists>e. fmlookup c' front = Some e \<and> now - ct_seen_at e < d"
  by (induction d now c ord st rule: prune_cache.induct) (auto split: if_splits option.splits)

lemma prune_pending_front:
  "prune_pending d now pend ord cnt ex = (pend', (t, h) # ord', cnt', ex') \<Longrightarrow>
     \<exists>b \<in> set (vec_of pend' t). pb_hash b = h \<and> now - pb_seen_at b < d"
proof (induction d now pend ord cnt ex rule: prune_pending.induct)
  case (2 d now pend u k ord cnt ex)
  then show ?case
    by (auto simp: Let_def vec_of_def not_le split: option.splits if_splits dest!: position_Some_bound) (blast intro: nth_mem)
qed simp

subsection \<open>Along a history\<close>

text \<open>The queues, the cached transactions and the parked bids come from the observations \<open>O\<close>.\<close>

definition queued_from :: "(txhash \<times> instant) list \<Rightarrow> 'tx pending_pool \<Rightarrow> bool" where
  "queued_from obs p \<longleftrightarrow> pool_inv p
     \<and> subseq (cache_order p) (map fst obs) \<and> subseq (map snd (pending_order p)) (map fst obs)
     \<and> (\<forall>k c. fmlookup (cache p) k = Some c \<longrightarrow> (k, ct_seen_at c) \<in> set obs)
     \<and> (\<forall>t. \<forall>b \<in> set (vec_of (pending p) t). (pb_hash b, pb_seen_at b) \<in> set obs)"

lemma queued_fromD:
  assumes "queued_from obs p"
  shows "pool_inv p" "subseq (cache_order p) (map fst obs)" "subseq (map snd (pending_order p)) (map fst obs)"
    "fmlookup (cache p) k = Some c \<Longrightarrow> (k, ct_seen_at c) \<in> set obs"
    "b \<in> set (vec_of (pending p) t) \<Longrightarrow> (pb_hash b, pb_seen_at b) \<in> set obs"
  using assms by (auto simp: queued_from_def)

lemma queued_fromI:
  assumes "pool_inv p" "subseq (cache_order p) (map fst obs)" "subseq (map snd (pending_order p)) (map fst obs)"
    "\<And>k c. fmlookup (cache p) k = Some c \<Longrightarrow> (k, ct_seen_at c) \<in> set obs"
    "\<And>t b. b \<in> set (vec_of (pending p) t) \<Longrightarrow> (pb_hash b, pb_seen_at b) \<in> set obs"
  shows "queued_from obs p"
  using assms by (auto simp: queued_from_def)

lemma insert_cache_queue: "subseq (cache_order (insert_cache h tx now p)) (cache_order p @ [h])"
proof -
  let ?ord = "if fmlookup (cache p) h = None then cache_order p @ [h] else cache_order p"
  obtain c ord st where ev: "evict_cache (max_cache_entries p) (fmupd h \<lparr>ct_tx = tx, ct_seen_at = now\<rparr> (cache p)) ?ord
      (streamed_targets p) = (c, ord, st)"
    using prod_cases3 by blast
  have "subseq ?ord (cache_order p @ [h])" by (simp add: list_emb_prefix)
  with evict_cache_subseq [OF ev] show ?thesis
    by (auto simp: insert_cache_def ev intro: subseq_order.trans)
qed

lemma push_pending_queue:
  assumes "push_pending b p = (ev, p')"
  shows "subseq (pending_order p') (pending_order p @ [bid_key b])" "cache_order p' = cache_order p"
proof -
  let ?bids = "case fmlookup (pending p) (pb_target b) of None \<Rightarrow> [] | Some v \<Rightarrow> v"
  obtain pend ord' cnt' where
    e: "evict_pending (max_pending_entries p) (fmupd (pb_target b) (?bids @ [b]) (pending p))
      (pending_order p @ [bid_key b]) (pending_count p + 1) 0 = (pend, ord', cnt', ev)"
    and p': "pending_order p' = ord'" "cache_order p' = cache_order p"
    using assms by (auto simp: push_pending_def bid_key_def Let_def split: prod.splits)
  show "subseq (pending_order p') (pending_order p @ [bid_key b])" "cache_order p' = cache_order p"
    using evict_pending_subseq [OF e] by (simp_all add: p')
qed

lemma observe_queues:
  assumes inv: "pool_inv p" and obs: "observe_at A h tx now p = (res, p')"
  shows "subseq (cache_order p') (cache_order p @ [h])" "subseq (map snd (pending_order p')) (map snd (pending_order p) @ [h])"
proof -
  note ins = insert_cache_queue [of h tx now p] insert_cache_inv(4) [OF inv, of h tx now]
  have "subseq (cache_order p') (cache_order p @ [h])
      \<and> subseq (map snd (pending_order p')) (map snd (pending_order p) @ [h])"
  proof (cases rule: observe_cases [where A = A and p = p and tx = tx and h = h and now = now])
    case (parked call ev p2)
    have "p' = p2" using obs by (simp add: observe_parked [OF parked(1,2,3) refl parked(4,5)])
    moreover note q = push_pending_queue [OF parked(5)]
    have "subseq (map snd (pending_order p2)) (map snd (pending_order p) @ [h])"
      using subseq_map [OF q(1), of snd] by (simp add: ins(2) bid_key_def new_bid_def)
    ultimately show ?thesis using ins(1) q(2) by simp
  qed (use obs ins in \<open>auto simp: observe_invalid observe_tob observe_paired [OF _ _ _ refl]
        observe_target [OF _ _ refl] observe_vanilla\<close>)
  then show "subseq (cache_order p') (cache_order p @ [h])"
    "subseq (map snd (pending_order p')) (map snd (pending_order p) @ [h])" by simp_all
qed

lemma queued_observe:
  assumes q: "queued_from obs p" and o: "observe_at A h tx now p = (res, p')"
  shows "queued_from (obs @ [(h, now)]) p'"
proof (rule queued_fromI)
  note D = queued_fromD [OF q]
  show "pool_inv p'" by (rule observe_inv(1) [OF D(1) o])
  have app: "subseq xs (map fst (obs @ [(h, now)]))" if "subseq xs (ys @ [h])" "subseq ys (map fst obs)" for xs ys
  proof -
    have "subseq (ys @ [h]) (map fst obs @ [h])" using that(2) by simp
    with that(1) show ?thesis by (auto intro: subseq_order.trans)
  qed
  show "subseq (cache_order p') (map fst (obs @ [(h, now)]))"
    "subseq (map snd (pending_order p')) (map fst (obs @ [(h, now)]))"
    using app [OF observe_queues(1) [OF D(1) o] D(2)] app [OF observe_queues(2) [OF D(1) o] D(3)] by simp_all
  show "(k, ct_seen_at c) \<in> set (obs @ [(h, now)])" if "fmlookup (cache p') k = Some c" for k c
    using that insert_cache_lookup [OF D(1), of h tx now k c] D(4) [of k c] by (auto simp: observe_cache [OF D(1) o])
  show "(pb_hash b, pb_seen_at b) \<in> set (obs @ [(h, now)])" if "b \<in> set (vec_of (pending p') t)" for t b
    using observe_vec [OF D(1) o that] D(5) [of b t] by auto
qed

lemma queued_prune:
  assumes q: "queued_from obs p" and pr: "prune now p = (ex, p')"
  shows "queued_from obs p'"
proof (rule queued_fromI)
  note D = queued_fromD [OF q]
  note pi = prune_inv [OF D(1) pr]
  obtain c cord st pend pord cnt where
    pc: "prune_cache (ttl p) now (cache p) (cache_order p) (streamed_targets p) = (c, cord, st)"
    and pp: "prune_pending (ttl p) now (pending p) (pending_order p) (pending_count p) 0 = (pend, pord, cnt, ex)"
    and p': "p' = p\<lparr>cache := c, cache_order := cord, streamed_targets := st,
           pending := pend, pending_order := pord, pending_count := cnt\<rparr>"
    using pr by (rule prune_elim)
  show "pool_inv p'" by (rule pi(1))
  show "subseq (cache_order p') (map fst obs)"
    using prune_cache_subseq [OF pc] D(2) by (auto simp: p' intro: subseq_order.trans)
  show "subseq (map snd (pending_order p')) (map fst obs)"
    using subseq_map [OF prune_pending_subseq [OF pp], of snd] D(3) by (auto simp: p' intro: subseq_order.trans)
  show "(k, ct_seen_at c) \<in> set obs" if "fmlookup (cache p') k = Some c" for k c
    using that pi(4) [of k] D(4) [of k c] by (simp add: fmlookup_dom_iff)
  show "(pb_hash b, pb_seen_at b) \<in> set obs" if "b \<in> set (vec_of (pending p') t)" for t b
    using that pi(6) [of t] D(5) [of b t] by auto
qed

lemma queued_forget: "queued_from obs p \<Longrightarrow> queued_from obs (forget it h p)"
proof (rule queued_fromI)
  assume q: "queued_from obs p"
  note D = queued_fromD [OF q]
  note fi = forget_inv [OF D(1), of it h]
  show "pool_inv (forget it h p)" by (rule fi(1))
  show "subseq (cache_order (forget it h p)) (map fst obs)" "subseq (map snd (pending_order (forget it h p))) (map fst obs)"
    using D(2,3) by (simp_all add: fi(6,7))
  show "(k, ct_seen_at c) \<in> set obs" if "fmlookup (cache (forget it h p)) k = Some c" for k c
    using that fi(3) D(4) [of k c] by (simp split: if_splits)
  show "(pb_hash b, pb_seen_at b) \<in> set obs" if "b \<in> set (vec_of (pending (forget it h p)) t)" for t b
    using that fi(4) [of t] D(5) [of b t] by auto
qed

lemma run_queued: "queued_from obs p \<Longrightarrow> queued_from (obs @ observations calls) (pool_run A it calls p)"
proof (induction calls arbitrary: obs p)
  case (Cons c calls)
  show ?case
  proof (cases c)
    case (Observe h tx now)
    obtain res p' where o: "observe_at A h tx now p = (res, p')" by fastforce
    show ?thesis using Cons.IH [OF queued_observe [OF Cons.prems o]] by (simp add: Observe o)
  next
    case (Prune now)
    obtain ex p' where pr: "prune now p = (ex, p')" by fastforce
    show ?thesis using Cons.IH [OF queued_prune [OF Cons.prems pr]] by (simp add: Prune pr)
  next
    case (Forget h)
    show ?thesis using Cons.IH [OF queued_forget [OF Cons.prems, of it h]] by (simp add: Forget)
  qed
qed simp

lemma queued_new: "Suc (unat mp) < 2 ^ 64 \<Longrightarrow> queued_from [] (pool_new pol fb t mc mp)"
  by (simp add: queued_from_def pool_inv_new) (simp add: pool_new_def)

subsection \<open>Hashes that do not return\<close>

lemma observations_once: "observes_once D calls \<Longrightarrow> distinct (map fst (observations calls)) \<and> fst ` set (observations calls) \<inter> D = {}"
  by (induction calls arbitrary: D rule: observations.induct) fastforce+

lemma observations_sorted:
  "clock_ok m calls \<Longrightarrow> sorted (map snd (observations calls)) \<and> (\<forall>x \<in> set (observations calls). m \<le> snd x)"
  by (induction calls arbitrary: m rule: observations.induct) fastforce+

text \<open>A subsequence of the observations whose first entry is young has only young entries.\<close>

lemma young_subseq:
  fixes obs :: "('h \<times> instant) list"
  assumes "distinct (map fst obs)" "sorted (map snd obs)" "subseq (h # hs) (map fst obs)"
    and "(h, seen) \<in> set obs" "now - seen < d"
  shows "length (h # hs) \<le> length (filter (\<lambda>(h, seen). now - seen < d) obs)"
  using assms
proof (induction obs)
  case (Cons x obs)
  obtain k s where x: "x = (k, s)" by (cases x)
  show ?case
  proof (cases "k = h")
    case True
    then have s: "s = seen" using Cons.prems(1,4) by (force simp: x)
    have "now - s' < d" if "(k', s') \<in> set obs" for k' s'
    proof -
      have "seen \<le> s'" using that Cons.prems(2) by (auto simp: x s)
      then show ?thesis using Cons.prems(5) diff_le_mono2 [of seen s' now] by linarith
    qed
    then have "filter (\<lambda>(h, seen). now - seen < d) obs = obs" by (auto simp: filter_id_conv)
    moreover have "length hs \<le> length obs"
      using Cons.prems(3) list_emb_length by (fastforce simp: x True)
    ultimately show ?thesis using Cons.prems(5) by (simp add: x s)
  next
    case False
    then show ?thesis using Cons by (auto simp: x)
  qed
qed simp

lemma queue_bound:
  assumes "observes_once {} calls" "clock_ok 0 calls" "subseq ord (map fst (observations calls))"
    and "ord \<noteq> [] \<Longrightarrow> \<exists>seen. (hd ord, seen) \<in> set (observations calls) \<and> now - seen < d"
  shows "length ord \<le> length (filter (\<lambda>(h, seen). now - seen < d) (observations calls))"
proof (cases ord)
  case (Cons h hs)
  then obtain seen where "(h, seen) \<in> set (observations calls)" "now - seen < d" using assms(4) by auto
  with young_subseq [of "observations calls" h hs seen now d] observations_once [OF assms(1)] observations_sorted [OF assms(2)]
    assms(3) show ?thesis by (simp add: Cons)
qed simp

lemma pruned_queues:
  assumes mp: "Suc (unat mp) < 2 ^ 64" and once: "observes_once {} calls" and clock: "clock_ok 0 calls"
    and pr: "prune now (pool_run A it calls (pool_new pol fb t mc mp)) = (ex, p)"
  shows "length (cache_order p) \<le> length (filter (\<lambda>(h, seen). now - seen < t) (observations calls))"
    "length (pending_order p) \<le> length (filter (\<lambda>(h, seen). now - seen < t) (observations calls))"
proof -
  let ?r = "pool_run A it calls (pool_new pol fb t mc mp)"
  have "queued_from (observations calls) ?r"
    using run_queued [OF queued_new [OF mp], of calls A it] by simp
  note D = queued_fromD [OF queued_prune [OF this pr]]
  have ttl: "ttl ?r = t"
    using pool_run_inv [OF pool_inv_new [OF mp], of A it calls pol fb t mc] by (simp add: pool_config_def pool_new_def)
  obtain c cord st pend pord cnt where
    pc: "prune_cache t now (cache ?r) (cache_order ?r) (streamed_targets ?r) = (c, cord, st)"
    and pp: "prune_pending t now (pending ?r) (pending_order ?r) (pending_count ?r) 0 = (pend, pord, cnt, ex)"
    and p: "p = ?r\<lparr>cache := c, cache_order := cord, streamed_targets := st,
           pending := pend, pending_order := pord, pending_count := cnt\<rparr>"
    using pr by (rule prune_elim) (simp add: ttl)
  show "length (cache_order p) \<le> length (filter (\<lambda>(h, seen). now - seen < t) (observations calls))"
  proof (rule queue_bound [OF once clock D(2)])
    show "\<exists>seen. (hd (cache_order p), seen) \<in> set (observations calls) \<and> now - seen < t" if "cache_order p \<noteq> []"
    proof -
      from that pc have "prune_cache t now (cache ?r) (cache_order ?r) (streamed_targets ?r) = (c, hd cord # tl cord, st)"
        by (simp add: p)
      from prune_cache_front [OF this] obtain e where "fmlookup (cache p) (hd cord) = Some e" "now - ct_seen_at e < t"
        by (auto simp: p)
      with D(4) [of "hd cord" e] show ?thesis by (auto simp: p)
    qed
  qed
  have "length (map snd (pending_order p)) \<le> length (filter (\<lambda>(h, seen). now - seen < t) (observations calls))"
  proof (rule queue_bound [OF once clock D(3)])
    assume ne: "map snd (pending_order p) \<noteq> []"
    then obtain u k ord' where ord: "pending_order p = (u, k) # ord'" by (cases "pending_order p") auto
    then have "pord = (u, k) # ord'" by (simp add: p)
    with pp have "prune_pending t now (pending ?r) (pending_order ?r) (pending_count ?r) 0 = (pend, (u, k) # ord', cnt, ex)"
      by simp
    from prune_pending_front [OF this] obtain b where "b \<in> set (vec_of (pending p) u)" "pb_hash b = k" "now - pb_seen_at b < t"
      by (auto simp: p)
    with D(5) [of b u] show "\<exists>seen. (hd (map snd (pending_order p)), seen) \<in> set (observations calls) \<and> now - seen < t"
      by (auto simp: ord)
  qed
  then show "length (pending_order p) \<le> length (filter (\<lambda>(h, seen). now - seen < t) (observations calls))" by simp
qed

subsection \<open>A candidate that is observed again and again\<close>

text \<open>At every multiple of \<open>d\<close>: a prune, the calls \<open>mid\<close>, and the candidate \<open>a\<close> once more.\<close>

fun refreshed :: "txhash \<Rightarrow> 'tx \<Rightarrow> duration \<Rightarrow> (instant \<Rightarrow> 'tx pool_call list) \<Rightarrow> nat \<Rightarrow> 'tx pool_call list" where
  "refreshed a tx d mid 0 = []"
| "refreshed a tx d mid (Suc k) =
     refreshed a tx d mid k @ Prune (Suc k * d) # mid (Suc k * d) @ [Observe a tx (Suc k * d)]"

text \<open>The pool of such a run: nothing parked, \<open>a\<close> at the front.\<close>

definition holds :: "'tx pending_pool \<Rightarrow> 'tx tx_cache \<Rightarrow> txhash list \<Rightarrow> 'tx pending_pool" where
  "holds p c ord = p\<lparr>cache := c, cache_order := ord\<rparr>"

definition idle :: "'tx alloy \<Rightarrow> 'tx \<Rightarrow> duration \<Rightarrow> 'tx pending_pool \<Rightarrow> bool" where
  "idle A tx d p \<longleftrightarrow> \<not> to_gateway A (policy p) tx \<and> pending p = fmempty \<and> pending_order p = [] \<and> pending_count p = 0
     \<and> streamed_targets p = {||} \<and> d < ttl p \<and> 1 < unat (max_cache_entries p)"

lemma holds_simps [simp]:
  "cache (holds p c ord) = c" "cache_order (holds p c ord) = ord" "holds (holds p c ord) c' ord' = holds p c' ord'"
  by (simp_all add: holds_def)

lemma idle_observe:
  assumes "idle A tx d p" "hm_len (fmupd h \<lparr>ct_tx = tx, ct_seen_at = now\<rparr> c) \<le> 2"
  shows "pool_apply A it (Observe h tx now) (holds p c ord)
    = holds p (fmupd h \<lparr>ct_tx = tx, ct_seen_at = now\<rparr> c) (if fmlookup c h = None then ord @ [h] else ord)"
proof -
  have no_evict: "evict_cache mx c' ord' st = (c', ord', st)" if "hm_len c' \<le> unat mx" for mx c' ord' and st :: "txhash fset"
    using that by (cases ord') auto
  have van: "\<not> to_gateway A (policy (holds p c ord)) tx" "fmlookup (pending (holds p c ord)) h = None"
    using assms(1) by (simp_all add: idle_def holds_def)
  have "pool_apply A it (Observe h tx now) (holds p c ord) = insert_cache h tx now (holds p c ord)"
    by (simp add: observe_vanilla [OF van])
  then show ?thesis
    using assms by (cases p) (simp add: insert_cache_def no_evict holds_def idle_def)
qed

lemma idle_prune:
  assumes "idle A tx d p" "fmlookup c a = Some e" "now - ct_seen_at e \<le> d"
  shows "pool_apply A it (Prune now) (holds p c (a # ord)) = holds p c (a # ord)"
  using assms by (cases p) (simp add: prune_def holds_def idle_def)

lemma forget_scan_empty: "forget_scan keys h fmempty n = (fmempty, n)"
  by (induction keys) simp_all

lemma idle_forget:
  assumes "idle A tx d p"
  shows "pool_apply A it (Forget h) (holds p c ord) = holds p (fmdrop h c) ord"
  using assms by (cases p) (simp add: forget_def holds_def idle_def Let_def forget_scan_empty)

text \<open>The queue grows by one entry each time; the transactions between come and go.\<close>

lemma refreshed_grows:
  assumes p: "idle A tx d p" and ab: "a \<noteq> b"
  shows "pool_run A it (refreshed a tx d (\<lambda>now. [Observe b tx now, Forget b]) k)
      (holds p (fmupd a \<lparr>ct_tx = tx, ct_seen_at = 0\<rparr> fmempty) [a])
    = holds p (fmupd a \<lparr>ct_tx = tx, ct_seen_at = k * d\<rparr> fmempty) (a # replicate k b)"
proof (induction k)
  case (Suc k)
  have drop: "fmdrop b (fmupd b x (fmupd a y fmempty)) = fmupd a y fmempty" for x y :: "'a cached_tx"
    using ab by (intro fmap_ext) simp
  have [simp]: "fmupd a x (fmupd a y fmempty) = fmupd a x fmempty" for x y :: "'a cached_tx"
    by (intro fmap_ext) simp
  show ?case
    using ab by (simp add: Suc.IH idle_prune [OF p] idle_observe [OF p] idle_forget [OF p] drop hm_len_fmupd
        replicate_append_same del: pool_apply.simps)
qed simp

text \<open>And a candidate that was observed behind it never leaves.\<close>

lemma refreshed_keeps:
  assumes p: "idle A tx d p" and ab: "a \<noteq> b"
  shows "pool_run A it (refreshed a tx d (\<lambda>now. []) k)
      (holds p (fmupd a \<lparr>ct_tx = tx, ct_seen_at = 0\<rparr> (fmupd b e fmempty)) [a, b])
    = holds p (fmupd a \<lparr>ct_tx = tx, ct_seen_at = k * d\<rparr> (fmupd b e fmempty)) [a, b]"
proof (induction k)
  case (Suc k)
  have [simp]: "fmupd a x (fmupd a y (fmupd b e fmempty)) = fmupd a x (fmupd b e fmempty)" for x y :: "'a cached_tx"
    by (intro fmap_ext) simp
  show ?case
    using ab by (simp add: Suc.IH idle_prune [OF p] idle_observe [OF p] hm_len_fmupd del: pool_apply.simps)
qed simp

end
