(* ===== verification/Pool_Duplicates.thy ===== *)
theory Pool_Duplicates
  imports Pool_Pairing
begin

section \<open>Bids that are parked more than once\<close>

text \<open>
  A bid that is observed again while it is parked is parked again, under the same hash. \<open>forget\<close>
  takes out the first bid with the hash in the first vector that has one and looks no further.
\<close>

text \<open>Parking changes the vector of the target only.\<close>

lemma early_phase_elsewhere:
  assumes "pool_inv p" "bids_for A (policy p) t as" "t |\<notin>| fmdom (cache p)"
    and "unat (pending_count p) + length as \<le> unat (max_pending_entries p)" "u \<noteq> t"
  shows "vec_of (pending (pool_run A it (arrive as) p)) u = vec_of (pending p) u"
  using assms
proof (induction as arbitrary: p)
  case (Cons a as)
  obtain h tx now where a: "a = (h, tx, now)" by (cases a)
  have bid: "backrun_bid_for A (policy p) tx t" "h \<noteq> t" and rest: "bids_for A (policy p) t as"
    using Cons.prems(2) by (simp_all add: a bids_for_def)
  then obtain call where call: "to_gateway A (policy p) tx" "decode_gateway_call A tx = Some call" "\<not> is_tob call"
      "target_tx_hash call = t"
    by (auto elim: backrun_bid_for_decode)
  have room: "unat (pending_count p) < unat (max_pending_entries p)" using Cons.prems(4) by simp
  obtain p' where obs: "observe_at A h tx now p = (default_result\<lparr>bids_pended := 1\<rparr>, p')"
    and p': "pool_inv p'" "pool_config p' = pool_config p" "t |\<notin>| fmdom (cache p')"
      "unat (pending_count p') = Suc (unat (pending_count p))"
    by (rule observe_bid_early [OF Cons.prems(1) bid Cons.prems(3) room])
  have same: "policy p' = policy p" "max_pending_entries p' = max_pending_entries p"
    using p'(2) by (simp_all add: pool_config_def)
  let ?p1 = "insert_cache h tx now p" and ?b = "new_bid A (policy p) h tx now call"
  note ins = insert_cache_inv [OF Cons.prems(1), where h = h and tx = tx and now = now]
  have mx: "unat (pending_count ?p1) < unat (max_pending_entries ?p1)"
    using ins(2,5) room by (simp add: pool_config_def)
  have "t |\<notin>| fmdom (cache ?p1)" using ins(6) Cons.prems(3) bid(2) by auto
  then have "observe_at A h tx now p = (default_result\<lparr>bids_evicted := 0, bids_pended := 1\<rparr>, snd (push_pending ?b ?p1))"
    using observe_parked [OF call(1-3) refl] push_pending_room [OF ins(1) mx, of ?b] call(4) by simp
  then have "p' = snd (push_pending ?b ?p1)" using obs by simp
  moreover have "pb_target ?b = t" using call(4) by (simp add: new_bid_def)
  ultimately have "vec_of (pending p') u = vec_of (pending p) u"
    using push_pending_room [OF ins(1) mx, of ?b] Cons.prems(5) by (simp add: ins(3))
  moreover have "vec_of (pending (pool_run A it (arrive as) p')) u = vec_of (pending p') u"
    using Cons.IH [OF p'(1) _ p'(3)] rest Cons.prems(4,5) p'(4) by (simp add: same)
  ultimately show ?case by (simp add: a obs)
qed simp

text \<open>The scan stops at the one vector that has the hash.\<close>

lemma forget_scan_first:
  assumes "t \<in> set keys" "vec_of pend t = xs @ b # ys" "pb_hash b = h" "h \<notin> pb_hash ` set xs"
    and "\<And>u. u \<noteq> t \<Longrightarrow> h \<notin> pb_hash ` set (vec_of pend u)"
  shows "fst (forget_scan keys h pend count) = fmupd t (xs @ ys) pend"
  using assms(1)
proof (induction keys)
  case (Cons k keys)
  show ?case
  proof (cases "k = t")
    case True
    have "fmlookup pend t = Some (xs @ b # ys)"
      using assms(2) by (auto simp: vec_of_def split: option.splits)
    moreover have "position (\<lambda>b. pb_hash b = h) (xs @ b # ys) = Some (length xs)"
      using assms(3,4) by (induction xs) auto
    ultimately show ?thesis using True by (simp add: vec_remove_def)
  next
    case False
    have "position (\<lambda>b. pb_hash b = h) (vec_of pend k) = None"
      using assms(5) [OF False] by (auto simp: position_None_iff)
    then show ?thesis
      using Cons False by (cases "fmlookup pend k") (simp_all add: vec_of_def)
  qed
qed simp

lemma forget_takes_first:
  assumes "is_iteration it" "h \<noteq> t" "vec_of (pending p) t = xs @ b # ys" "pb_hash b = h" "h \<notin> pb_hash ` set xs"
    and "\<And>u. u \<noteq> t \<Longrightarrow> h \<notin> pb_hash ` set (vec_of (pending p) u)"
  shows "vec_of (pending (forget it h p)) t = xs @ ys"
proof -
  let ?pend = "fmdrop h (pending p)"
  obtain pend cnt where
    scan: "forget_scan (it ?pend) h ?pend (pending_count p - of_nat (length (vec_of (pending p) h))) = (pend, cnt)"
    and f: "forget it h p = p\<lparr>cache := fmdrop h (cache p), streamed_targets := streamed_targets p |-| {|h|},
        pending := fmfilter (\<lambda>k. fmlookup pend k \<noteq> Some []) pend, pending_count := cnt\<rparr>"
    by (rule forget_elim)
  have "t |\<in>| fmdom (pending p)" using assms(3) by (auto simp: vec_of_def fmlookup_dom_iff split: option.splits)
  then have "t \<in> set (it ?pend)" using assms(1,2) by (simp add: is_iteration_def)
  then have "fst (forget_scan (it ?pend) h ?pend (pending_count p - of_nat (length (vec_of (pending p) h)))) = fmupd t (xs @ ys) ?pend"
    by (rule forget_scan_first) (use assms in auto)
  then have "vec_of pend t = xs @ ys" by (simp add: scan)
  moreover have "vec_of (pending (forget it h p)) t = vec_of pend t" by (simp add: f vec_of_retain)
  ultimately show ?thesis by simp
qed

text \<open>So of a bid parked several times, one goes and the others stay.\<close>

lemma forget_one_of_many:
  assumes inv: "pool_inv p" and bid: "backrun_bid_for A (policy p) btx t" "h \<noteq> t"
    and free: "t |\<notin>| fmdom (cache p)" "\<And>u. h \<notin> pb_hash ` set (vec_of (pending p) u)"
    and room: "unat (pending_count p) + Suc (length ns) \<le> unat (max_pending_entries p)" and it': "is_iteration it'"
  shows "vec_of (pending (forget it' h (pool_run A it (arrive (map (\<lambda>n. (h, btx, n)) (n # ns))) p))) t
    = vec_of (pending p) t @ map (\<lambda>n. parked_of A (policy p) t (h, btx, n)) ns"
proof -
  let ?as = "map (\<lambda>n. (h, btx, n)) (n # ns)"
  let ?p = "pool_run A it (arrive ?as) p"
  have bids: "bids_for A (policy p) t ?as" using bid by (simp add: bids_for_def)
  have len: "unat (pending_count p) + length ?as \<le> unat (max_pending_entries p)" using room by simp
  note phase = inv bids free(1) len
  have "vec_of (pending ?p) t = vec_of (pending p) t @ parked_of A (policy p) t (h, btx, n)
      # map (\<lambda>n. parked_of A (policy p) t (h, btx, n)) ns"
    using early_phase(6) [OF phase, of it] by (simp add: comp_def)
  then show ?thesis
    by (rule forget_takes_first [OF it' bid(2)])
       (use free(2) early_phase_elsewhere [OF phase, where it = it] in \<open>auto simp: parked_of_def\<close>)
qed

end
