(* ===== verification/Pool_Properties.thy ===== *)
theory Pool_Properties
  imports Pool_Queues Pool_Duplicates Samples
begin

section \<open>Properties of the pairing pool\<close>

text \<open>
  Over histories of calls on a new pool, or from any pool that satisfies the representation
  invariant.
\<close>

subsection \<open>Invariants\<close>

text \<open>C10: Whatever sequence of calls a new pool receives, and in whatever order its map of parked
  bids is visited: the counter is exactly the number of parked bids (it never wraps), both
  collections respect their capacities, every streamed target is cached, no empty vector is left
  in the map and every bid lies under its own target.\<close>
theorem pool_invariant:
  fixes A :: "'tx alloy"
  assumes "Suc (unat mp) < 2 ^ 64" and p: "p = pool_run A it calls (pool_new pol fb t mc mp)"
  shows "unat (pending_len p) = hm_total (pending p) \<and> hm_total (pending p) \<le> max 1 (unat mp)
    \<and> cache_len p \<le> max 1 (unat mc) \<and> streamed_targets p |\<subseteq>| fmdom (cache p)
    \<and> no_empty_vec (pending p) \<and> (\<forall>u. \<forall>b \<in> set (vec_of (pending p) u). pb_target b = u)"
proof -
  let ?new = "pool_new pol fb t mc mp :: 'tx pending_pool"
  have inv: "pool_inv p" and "pool_config p = pool_config ?new"
    using pool_run_inv [OF pool_inv_new [OF assms(1)], of A it calls pol fb t mc] by (simp_all add: p)
  then have "unat (max_cache_entries p) = max 1 (unat mc)" "unat (max_pending_entries p) = max 1 (unat mp)"
    by (simp_all add: pool_config_def pool_new_def unat_max_word max.commute)
  then show ?thesis
    using inv by (simp add: pool_inv_def bids_ok_def cache_ok_def pending_len_def cache_len_def)
qed

lemma pool_invariant_witness:
  "unat (pending_len (pool_run sample_alloy ascending [Observe 1 (gateway_tx 5 9) 0, Forget 1, Prune 20]
      (pool_new local_policy 0 10 1 1))) \<le> 1"
  using pool_invariant [of 1 _ sample_alloy ascending "[Observe 1 (gateway_tx 5 9) 0, Forget 1, Prune 20]"
      local_policy 0 10 1] by simp

text \<open>C11: Along any history in which each hash is observed once, the parked bids are the list of the
  specification: a parked bid goes to the end and the oldest leave beyond the capacity, a target
  takes its bids out, expiry drops the expired front, forgetting a hash deletes it as a bid and as
  a target. The map, the queue with its stale entries and the counter represent that list.\<close>
theorem pool_refines_list:
  assumes "Suc (unat mp) < 2 ^ 64" "observes_once {} calls" "is_iteration it"
  shows "represents (pool_run A it calls (pool_new pol fb t mc mp))
    (spec_run A it calls (pool_new pol fb t mc mp) [])"
proof -
  obtain D where "tracked D (pool_run A it calls (pool_new pol fb t mc mp))
      (spec_run A it calls (pool_new pol fb t mc mp) [])"
    using pool_run_tracked [OF tracked_new [OF assms(1)] assms(2,3)] by blast
  then show ?thesis by (simp add: tracked_def)
qed

lemma pool_refines_list_witness:
  "represents (pool_run sample_alloy ascending [Observe 1 (gateway_tx 5 9) 0, Observe 5 transfer_tx 1, Forget 1] (sample_pool 8 8))
    (spec_run sample_alloy ascending [Observe 1 (gateway_tx 5 9) 0, Observe 5 transfer_tx 1, Forget 1] (sample_pool 8 8) [])"
  unfolding sample_pool_def by (rule pool_refines_list) (simp_all add: ascending_iteration)

text \<open>C13: No bid waits for a vanilla transaction that is cached, after any history: whichever of the
  two arrives first, the other one finds it.\<close>
theorem no_bid_left_waiting:
  fixes A :: "'tx alloy"
  assumes "Suc (unat mp) < 2 ^ 64" and p: "p = pool_run A it calls (pool_new pol fb t mc mp)"
    and c: "fmlookup (cache p) k = Some c" "\<not> to_gateway A pol (ct_tx c)"
  shows "vec_of (pending p) k = []"
proof -
  have "pool_config p = pool_config (pool_new pol fb t mc mp :: 'tx pending_pool)"
    using pool_run_inv [OF pool_inv_new [OF assms(1)], of A it calls pol fb t mc] by (simp add: p)
  then have "policy p = pol" by (simp add: pool_config_def pool_new_def)
  moreover have "settled A p"
    unfolding p by (rule run_settled [OF pool_inv_new [OF assms(1)] settled_new])
  ultimately show ?thesis using c by (simp add: settled_def)
qed

lemma no_bid_left_waiting_witness:
  "vec_of (pending (pool_run sample_alloy ascending [Observe 5 transfer_tx 0] (sample_pool 8 8))) 5 = []"
proof -
  have to: "tx_to sample_alloy transfer_tx = Some 7" and neq: "7 \<noteq> gateway local_policy"
    by (simp_all add: transfer_tx_def sample_alloy_def local_policy_def for_network_def)
  have "fmlookup (cache (pool_run sample_alloy ascending [Observe 5 transfer_tx 0] (sample_pool 8 8))) 5
      = Some \<lparr>ct_tx = transfer_tx, ct_seen_at = 0\<rparr>"
    using neq by (simp add: observe_at_def insert_cache_def Let_def hm_len_fmupd to is_allowlisted_gateway_def)
  then show ?thesis
    using no_bid_left_waiting [where A = sample_alloy and mp = 8 and it = ascending and k = 5
        and calls = "[Observe 5 transfer_tx 0]" and pol = local_policy and c = "\<lparr>ct_tx = transfer_tx, ct_seen_at = 0\<rparr>",
        OF _ refl] by (simp add: sample_pool_def sample_to)
qed

subsection \<open>What is handed out\<close>

text \<open>C9: The order of arrival of a vanilla target among its bids does not matter: while there is room,
  however the bids are split into early and late ones, the target is handed out once, with its
  opportunity priority, followed by all bids in their order, each with its priority behind it.\<close>
theorem arrival_order_irrelevant:
  assumes "pool_inv p" "bids_for A (policy p) t (early @ late)" "early @ late \<noteq> []"
    and "\<not> to_gateway A (policy p) tx" "t |\<notin>| fmdom (cache p)" "vec_of (pending p) t = []"
    and "hm_len (cache p) + length (early @ late) < unat (max_cache_entries p)"
    and "unat (pending_count p) + length (early @ late) \<le> unat (max_pending_entries p)"
  shows "pool_outputs A it (arrive early @ [Observe t tx now] @ arrive late) p
    = opportunity_of t tx # map (bid_of A (policy p) t) (early @ late)"
  by (rule arrival_order [OF assms])

lemma arrival_order_irrelevant_witness:
  "pool_outputs sample_alloy ascending
     (arrive [(1, gateway_tx 5 9, 0)] @ [Observe 5 transfer_tx 1] @ arrive [(2, gateway_tx 5 7, 1)]) (sample_pool 8 8)
   = opportunity_of 5 transfer_tx #
     map (bid_of sample_alloy local_policy 5) [(1, gateway_tx 5 9, 0), (2, gateway_tx 5 7, 1)]"
proof -
  let ?p = "sample_pool 8 8"
  have bids: "bids_for sample_alloy (policy ?p) 5 ([(1, gateway_tx 5 9, 0)] @ [(2, gateway_tx 5 7, 1)])"
    using sample_bids_for by simp
  have caps: "8 = unat (max_cache_entries ?p)" "8 = unat (max_pending_entries ?p)"
    by (simp_all add: max_def word_le_nat_alt)
  have "pool_outputs sample_alloy ascending
     (arrive [(1, gateway_tx 5 9, 0)] @ [Observe 5 transfer_tx 1] @ arrive [(2, gateway_tx 5 7, 1)]) ?p
   = opportunity_of 5 transfer_tx #
     map (bid_of sample_alloy (policy ?p) 5) ([(1, gateway_tx 5 9, 0)] @ [(2, gateway_tx 5 7, 1)])"
  proof (rule arrival_order_irrelevant [OF sample_pool_inv bids])
    show "hm_len (cache ?p) + length ([(1, gateway_tx 5 9, 0)] @ [(2, gateway_tx 5 7, 1)]) < unat (max_cache_entries ?p)"
      "unat (pending_count ?p) + length ([(1, gateway_tx 5 9, 0)] @ [(2, gateway_tx 5 7, 1)]) \<le> unat (max_pending_entries ?p)"
      unfolding caps [symmetric] by simp_all
  qed (simp_all add: sample_to)
  then show ?thesis by (simp only: sample_pool_fields append.simps)
qed

text \<open>C35: For a target that is a top-of-block bid itself the order does matter: a backrun bid parked
  before it gets nothing out of its arrival and stays parked, the only bid waiting for it, while a
  bid that arrives after it is paired at once. The hash of the target is new, nothing waits for it, and
  pool and cache have room.\<close>
theorem gateway_target_depends_on_order:
  assumes inv: "pool_inv p" and bid: "backrun_bid_for A (policy p) btx t" "h \<noteq> t"
    and target: "tob_bid A (policy p) tx"
    and fresh: "t |\<notin>| fmdom (cache p)" "vec_of (pending p) t = []"
    and room: "Suc (hm_len (cache p)) < unat (max_cache_entries p)"
      "unat (pending_count p) < unat (max_pending_entries p)"
  shows "pool_outputs A it [Observe h btx n, Observe t tx now] p =
      [\<lparr>rj_hash = t, rj_tx = tx, rj_priority = tob_priority A (policy p) (fallback p) tx\<rparr>]
    \<and> pool_outputs A it [Observe t tx now, Observe h btx n] p =
      [\<lparr>rj_hash = t, rj_tx = tx, rj_priority = tob_priority A (policy p) (fallback p) tx\<rparr>,
       opportunity_of t tx, bid_of A (policy p) t (h, btx, n)]
    \<and> vec_of (pending (pool_run A it [Observe h btx n, Observe t tx now] p)) t = [parked_of A (policy p) t (h, btx, n)]"
proof (intro conjI)
  obtain call where tob: "to_gateway A (policy p) tx" "decode_gateway_call A tx = Some call" "is_tob call"
    using target by (auto simp: tob_bid_def split: option.splits)
  obtain p1 where bid1: "observe_at A h btx n p = (default_result\<lparr>bids_pended := 1\<rparr>, p1)"
    and p1: "pool_config p1 = pool_config p" "pool_inv p1"
      "vec_of (pending p1) t = vec_of (pending p) t @ [parked_of A (policy p) t (h, btx, n)]"
    by (rule observe_bid_early [OF inv bid fresh(1) room(2)])
  have "policy p1 = policy p" "fallback p1 = fallback p" using p1(1) by (simp_all add: pool_config_def)
  note same = this
  show "vec_of (pending (pool_run A it [Observe h btx n, Observe t tx now] p)) t = [parked_of A (policy p) t (h, btx, n)]"
    using tob observe_tob [of A p1 tx call t now] fresh(2)
    by (simp add: bid1 same insert_cache_inv(3) [OF p1(2)] p1(3))
  from same show "pool_outputs A it [Observe h btx n, Observe t tx now] p =
      [\<lparr>rj_hash = t, rj_tx = tx, rj_priority = tob_priority A (policy p) (fallback p) tx\<rparr>]"
    using bid1 tob observe_tob [of A p1 tx call t now] by (simp add: default_result_def tob_priority_def)
  let ?p2 = "insert_cache t tx now p" and ?c = "\<lparr>ct_tx = tx, ct_seen_at = now\<rparr>"
  note obs = observe_tob [OF tob, of t now]
  have c2: "cache ?p2 = fmupd t ?c (cache p)" "streamed_targets ?p2 = streamed_targets p"
    using room(1) insert_cache_room [of p t tx now] by auto
  have unstreamed: "t |\<notin>| streamed_targets ?p2"
    using inv fresh(1) c2(2) by (auto simp: pool_inv_def cache_ok_def)
  have cfg: "policy ?p2 = policy p" "max_cache_entries ?p2 = max_cache_entries p"
    using insert_cache_inv(2) [OF inv, of t tx now] by (simp_all add: pool_config_def)
  have room2: "hm_len (cache ?p2) < unat (max_cache_entries ?p2)"
    using room(1) cfg(2) by (simp add: c2(1) hm_len_fmupd)
  have look: "fmlookup (cache ?p2) t = Some ?c" by (simp add: c2(1))
  have bid2: "backrun_bid_for A (policy ?p2) btx t" using bid(1) by (simp add: cfg(1))
  obtain p3 where late: "observe_at A h btx n ?p2 =
      (default_result\<lparr>reinjections := (if t |\<in>| streamed_targets ?p2 then [] else [opportunity_of t (ct_tx ?c)])
          @ [bid_of A (policy ?p2) t (h, btx, n)], pairs_matched := 1\<rparr>, p3)"
    by (rule observe_bid_late [OF insert_cache_inv(1) [OF inv] bid2 bid(2) look room2])
  show "pool_outputs A it [Observe t tx now, Observe h btx n] p =
      [\<lparr>rj_hash = t, rj_tx = tx, rj_priority = tob_priority A (policy p) (fallback p) tx\<rparr>,
       opportunity_of t tx, bid_of A (policy p) t (h, btx, n)]"
    using unstreamed by (simp add: obs late tob_priority_def)
qed

lemma gateway_target_depends_on_order_witness:
  "pool_outputs sample_alloy ascending [Observe 1 (gateway_tx 5 9) 0, Observe 5 (gateway_tx 0 4) 1] (sample_pool 8 8)
     = [\<lparr>rj_hash = 5, rj_tx = gateway_tx 0 4, rj_priority = tob_priority sample_alloy local_policy 0xffff (gateway_tx 0 4)\<rparr>]
   \<and> vec_of (pending (pool_run sample_alloy ascending [Observe 1 (gateway_tx 5 9) 0, Observe 5 (gateway_tx 0 4) 1] (sample_pool 8 8))) 5
     = [parked_of sample_alloy local_policy 5 (1, gateway_tx 5 9, 0)]"
proof -
  let ?p = "sample_pool 8 8"
  have tob: "tob_bid sample_alloy (policy ?p) (gateway_tx 0 4)"
    by (simp add: tob_bid_def sample_to sample_decode_call is_tob_def)
  have bid: "backrun_bid_for sample_alloy (policy ?p) (gateway_tx 5 9) 5"
    using sample_bid [of 5 9] by simp
  have rest: "(1 :: txhash) \<noteq> 5" "5 |\<notin>| fmdom (cache ?p)" "vec_of (pending ?p) 5 = []" "pool_inv ?p"
    "Suc (hm_len (cache ?p)) < unat (max_cache_entries ?p)" "unat (pending_count ?p) < unat (max_pending_entries ?p)"
    by (simp_all add: sample_pool_inv max_def word_le_nat_alt)
  note g = gateway_target_depends_on_order [OF rest(4) bid rest(1) tob rest(2,3,5,6), where it = ascending and n = 0 and now = 1]
  show ?thesis using conjunct1 [OF g] conjunct2 [OF conjunct2 [OF g]] by (simp only: sample_pool_fields simp_thms)
qed

text \<open>C23: While a target stays cached, its opportunity is handed out at most once, over any sequence of
  calls.\<close>
theorem opportunity_once:
  assumes "pool_inv p" "unat (fallback p) < 2 ^ 128" "cached_throughout A it t calls p"
  shows "length (filter (is_opportunity t) (pool_outputs A it calls p)) \<le> 1"
  by (rule streamed_once [OF assms])

lemma opportunity_once_witness:
  "length (filter (is_opportunity 1) (pool_outputs sample_alloy ascending
     [Observe 1 (gateway_tx 5 9) 3, Prune 4] (sample_pool 8 8))) \<le> 1"
proof (rule opportunity_once [OF sample_pool_inv])
  have "cache (pool_apply sample_alloy ascending (Observe 1 (gateway_tx 5 9) 3) (sample_pool 8 8))
      = fmupd 1 \<lparr>ct_tx = gateway_tx 5 9, ct_seen_at = 3\<rparr> fmempty"
    using sample_parked [of ascending] by simp
  moreover have "snd (prune 4 (snd (observe_at sample_alloy 1 (gateway_tx 5 9) 3 (sample_pool 8 8))))
      = snd (observe_at sample_alloy 1 (gateway_tx 5 9) 3 (sample_pool 8 8))"
    using sample_prune [of ascending] by simp
  ultimately show "cached_throughout sample_alloy ascending 1 [Observe 1 (gateway_tx 5 9) 3, Prune 4] (sample_pool 8 8)"
    by simp
qed simp_all

subsection \<open>Accounting, expiry, forgetting\<close>

text \<open>C24: The counters account for every bid: what a gateway transaction parks and evicts, what a
  vanilla transaction pairs and what a prune expires is exactly the change of the number of parked
  bids.\<close>
theorem bids_accounted:
  assumes "pool_inv p" "observe_at A h tx now p = (res, p')" "prune now' p = (ex, p'')"
  shows "(if to_gateway A (policy p) tx
      then unat (pending_len p') + unat (bids_evicted res) = unat (pending_len p) + unat (bids_pended res)
      else unat (pending_len p') + unat (pairs_matched res) = unat (pending_len p))
    \<and> unat (pending_len p'') + unat ex = unat (pending_len p)"
  using observe_accounting [OF assms(1,2)] prune_accounting [OF assms(1,3)] by simp

lemma bids_accounted_witness:
  "unat (pending_len (snd (observe_at sample_alloy 1 (gateway_tx 5 9) 0 (sample_pool 8 8))))
     + unat (bids_evicted (fst (observe_at sample_alloy 1 (gateway_tx 5 9) 0 (sample_pool 8 8))))
   = unat (bids_pended (fst (observe_at sample_alloy 1 (gateway_tx 5 9) 0 (sample_pool 8 8))))"
proof -
  obtain res p' ex p'' where o: "observe_at sample_alloy 1 (gateway_tx 5 9) 0 (sample_pool 8 8) = (res, p')"
    "prune 1 (sample_pool 8 8) = (ex, p'')"
    by fastforce
  have "pool_inv (sample_pool 8 8)" by (rule sample_pool_inv) simp
  from bids_accounted [OF this o] show ?thesis
    by (simp add: o sample_to) (simp add: pending_len_def)
qed

text \<open>C25: A prune takes out exactly the parked bids that are as old as the time to live and keeps the
  others in their order, along any history in which each hash is observed once and the clock does
  not run backwards.\<close>
theorem prune_removes_exactly_expired:
  fixes A :: "'tx alloy"
  assumes "Suc (unat mp) < 2 ^ 64" "observes_once {} calls" "clock_ok 0 calls" "is_iteration it"
    and "p = pool_run A it calls (pool_new pol fb t mc mp)" "prune now p = (ex, p')"
  shows "vec_of (pending p') u = filter (\<lambda>b. now - pb_seen_at b < t) (vec_of (pending p) u)"
  using prune_exact [OF assms] by (simp add: young_def)

lemma prune_removes_exactly_expired_witness:
  "\<exists>ex p'. prune 13 (pool_run sample_alloy ascending [Observe 1 (gateway_tx 5 9) 3] (sample_pool 8 8)) = (ex, p')
     \<and> vec_of (pending p') 5 = []"
proof -
  let ?p = "pool_run sample_alloy ascending [Observe 1 (gateway_tx 5 9) 3] (sample_pool 8 8)"
  obtain ex p' where pr: "prune 13 ?p = (ex, p')" by fastforce
  have "vec_of (pending p') 5 = filter (\<lambda>b. 13 - pb_seen_at b < 10) (vec_of (pending ?p) 5)"
    using pr unfolding sample_pool_def
    by (rule prune_removes_exactly_expired [OF _ _ _ ascending_iteration refl, rotated -1]) simp_all
  then have "vec_of (pending p') 5 = []"
    unfolding sample_parked by (simp add: vec_of_def)
  with pr show ?thesis by blast
qed

text \<open>C15: Along any history in which each hash is observed once, forgetting a transaction removes it
  wherever it is, as a cached or streamed target, as the target of parked bids and as a parked bid,
  and nothing else, in whatever order the map is visited.\<close>
theorem forget_complete:
  fixes A :: "'tx alloy"
  assumes "Suc (unat mp) < 2 ^ 64" "observes_once {} calls" "is_iteration it"
    and p: "p = pool_run A it calls (pool_new pol fb t mc mp)" and it': "is_iteration it'"
  shows "cache (forget it' h p) = fmdrop h (cache p) \<and> h |\<notin>| streamed_targets (forget it' h p)
    \<and> (\<forall>u. vec_of (pending (forget it' h p)) u
          = (if u = h then [] else filter (\<lambda>b. pb_hash b \<noteq> h) (vec_of (pending p) u)))"
proof -
  let ?q = "spec_run A it calls (pool_new pol fb t mc mp) []"
  obtain D where tr: "tracked D p ?q"
    using pool_run_tracked [OF tracked_new [OF assms(1)] assms(2,3)] unfolding p by blast
  then have r: "represents p ?q" and inv: "pool_inv p" by (simp_all add: tracked_def)
  have "represents (forget it' h p) (spec_forget h ?q)"
    using tracked_forget [OF tr it', of h] by (simp add: tracked_def)
  from represents_vec [OF this] represents_vec [OF r]
  have "vec_of (pending (forget it' h p)) u
      = (if u = h then [] else filter (\<lambda>b. pb_hash b \<noteq> h) (vec_of (pending p) u))" for u
    by (auto simp: spec_waiting_def spec_forget_def filter_empty_conv intro: filter_cong)
  moreover have "h |\<notin>| streamed_targets (forget it' h p)"
    using forget_inv(1,3) [OF inv, of it' h] by (auto simp: pool_inv_def cache_ok_def)
  ultimately show ?thesis using forget_inv(3) [OF inv] by blast
qed

lemma forget_complete_witness:
  "vec_of (pending (forget ascending 1
     (pool_run sample_alloy ascending [Observe 1 (gateway_tx 5 9) 3] (sample_pool 8 8)))) 5 = []"
proof -
  have "\<forall>u. vec_of (pending (forget ascending 1 (pool_run sample_alloy ascending [Observe 1 (gateway_tx 5 9) 3] (sample_pool 8 8)))) u
      = (if u = 1 then [] else filter (\<lambda>b. pb_hash b \<noteq> 1)
           (vec_of (pending (pool_run sample_alloy ascending [Observe 1 (gateway_tx 5 9) 3] (sample_pool 8 8))) u))"
    unfolding sample_pool_def
    by (rule forget_complete [OF _ _ ascending_iteration refl ascending_iteration, THEN conjunct2, THEN conjunct2])
       simp_all
  then show ?thesis by (simp add: sample_parked del: pool_run_simps)
qed

text \<open>C38: A bid that is observed again while it is parked is parked again, and forgetting its hash takes out
  one copy only, the oldest: with \<open>k\<close> further observations \<open>k\<close> copies stay parked, behind the bids that
  waited before, in whatever order the map is visited. The target of the bid is not cached, its hash
  is not parked before, and there is room for all copies.\<close>
theorem duplicate_bid_survives_forget:
  assumes "pool_inv p" "backrun_bid_for A (policy p) btx t" "h \<noteq> t"
    and "t |\<notin>| fmdom (cache p)" "\<And>u. h \<notin> pb_hash ` set (vec_of (pending p) u)"
    and "unat (pending_count p) + Suc (length ns) \<le> unat (max_pending_entries p)" "is_iteration it'"
  shows "vec_of (pending (forget it' h (pool_run A it (arrive (map (\<lambda>n. (h, btx, n)) (n # ns))) p))) t
    = vec_of (pending p) t @ map (\<lambda>n. parked_of A (policy p) t (h, btx, n)) ns"
  by (rule forget_one_of_many [OF assms])

lemma duplicate_bid_survives_forget_witness:
  "map pb_hash (vec_of (pending (forget ascending 1
     (pool_run sample_alloy ascending [Observe 1 (gateway_tx 5 9) 3, Observe 1 (gateway_tx 5 9) 4] (sample_pool 8 8)))) 5) = [1]"
proof -
  let ?p = "sample_pool 8 8"
  have "backrun_bid_for sample_alloy (policy ?p) (gateway_tx 5 9) 5" using sample_bid [of 5 9] by simp
  moreover have "(1 :: txhash) \<noteq> 5" "5 |\<notin>| fmdom (cache ?p)" "\<And>u. 1 \<notin> pb_hash ` set (vec_of (pending ?p) u)" "pool_inv ?p"
    "unat (pending_count ?p) + Suc (length [4 :: instant]) \<le> unat (max_pending_entries ?p)"
    by (simp_all add: sample_pool_inv max_def word_le_nat_alt)
  ultimately show ?thesis
    using duplicate_bid_survives_forget [where p = ?p and A = sample_alloy and h = 1 and btx = "gateway_tx 5 9" and t = 5
        and n = 3 and ns = "[4]" and it = ascending, OF _ _ _ _ _ _ ascending_iteration]
    by (simp add: parked_of_def del: pool_run_simps)
qed

text \<open>C29: The order queues are not bounded by the capacities, but when no hash is observed twice and
  instants do not decrease, then after a prune each of them has at most one entry for every
  transaction observed within the last time to live.\<close>
theorem queues_hold_recent_observations:
  assumes "Suc (unat mp) < 2 ^ 64" "observes_once {} calls" "clock_ok 0 calls"
    and "prune now (pool_run A it calls (pool_new pol fb t mc mp)) = (ex, p)"
  shows "length (cache_order p) \<le> length (filter (\<lambda>(h, seen). now - seen < t) (observations calls))
    \<and> length (pending_order p) \<le> length (filter (\<lambda>(h, seen). now - seen < t) (observations calls))"
  using pruned_queues [OF assms] by simp

lemma queues_hold_recent_observations_witness:
  "length (cache_order (snd (prune 13 (pool_run sample_alloy ascending
      [Observe 1 transfer_tx 0, Observe 2 transfer_tx 1, Forget 2, Observe 3 (gateway_tx 9 4) 12] (sample_pool 8 8))))) \<le> 1"
proof -
  let ?calls = "[Observe 1 transfer_tx 0, Observe 2 transfer_tx 1, Forget 2, Observe 3 (gateway_tx 9 4) 12]"
  have "Suc (unat (8 :: usize)) < 2 ^ 64" "observes_once {} ?calls" "clock_ok 0 ?calls" by simp_all
  note b = queues_hold_recent_observations [OF this, of 13 sample_alloy ascending local_policy "0xffff" 10 8]
  obtain ex p where pr: "prune 13 (pool_run sample_alloy ascending ?calls (sample_pool 8 8)) = (ex, p)"
    by fastforce
  from b [OF pr [unfolded sample_pool_def]] have "length (cache_order p) \<le> 1" by simp
  then show ?thesis unfolding pr by simp
qed

text \<open>C39: A candidate that is observed again keeps its place in the order queue with its new instant, so
  prunes stop there. As long as it returns within the time to live, a candidate observed behind it
  stays in the cache however old it gets, and the queue keeps one entry for every transaction that
  was observed and forgotten meanwhile, without bound, while the cache holds one transaction.\<close>
theorem refreshed_candidate_blocks_prune:
  assumes "\<not> to_gateway A pol tx" "a \<noteq> b" "d < t" "1 < unat mc"
  shows "fmlookup (cache (pool_run A it (Observe a tx 0 # Observe b tx 0 # refreshed a tx d (\<lambda>now. []) k)
      (pool_new pol fb t mc mp))) b = Some \<lparr>ct_tx = tx, ct_seen_at = 0\<rparr>
    \<and> (let p = pool_run A it (Observe a tx 0 # refreshed a tx d (\<lambda>now. [Observe b tx now, Forget b]) k) (pool_new pol fb t mc mp)
       in cache_len p = 1 \<and> cache_order p = a # replicate k b)"
proof -
  let ?new = "pool_new pol fb t mc mp"
  have idle: "idle A tx d ?new" using assms(1,3,4) by (simp add: idle_def pool_new_def unat_max_word)
  have new: "?new = holds ?new fmempty []" by (simp add: holds_def pool_new_def)
  have swap: "fmupd b x (fmupd a y fmempty) = fmupd a y (fmupd b x fmempty)" for x y :: "'a cached_tx"
    using assms(2) by (intro fmap_ext) simp
  have a: "pool_apply A it (Observe a tx 0) ?new = holds ?new (fmupd a \<lparr>ct_tx = tx, ct_seen_at = 0\<rparr> fmempty) [a]"
    by (subst new, subst idle_observe [OF idle]) (simp_all add: hm_len_fmupd)
  have ab: "pool_apply A it (Observe b tx 0) (holds ?new (fmupd a \<lparr>ct_tx = tx, ct_seen_at = 0\<rparr> fmempty) [a])
      = holds ?new (fmupd a \<lparr>ct_tx = tx, ct_seen_at = 0\<rparr> (fmupd b \<lparr>ct_tx = tx, ct_seen_at = 0\<rparr> fmempty)) [a, b]"
    by (subst idle_observe [OF idle]) (use assms(2) in \<open>simp_all add: hm_len_fmupd swap\<close>)
  show ?thesis
    using assms(2)
    by (simp add: a ab refreshed_grows [OF idle assms(2)] refreshed_keeps [OF idle assms(2)] cache_len_def hm_len_fmupd
        del: pool_apply.simps)
qed

lemma refreshed_candidate_blocks_prune_witness:
  "fmlookup (cache (pool_run sample_alloy ascending (Observe 1 transfer_tx 0 # Observe 2 transfer_tx 0 # refreshed 1 transfer_tx 9 (\<lambda>now. []) 5)
      (sample_pool 8 8))) 2 = Some \<lparr>ct_tx = transfer_tx, ct_seen_at = 0\<rparr>"
proof -
  have "\<not> to_gateway sample_alloy local_policy transfer_tx"
    by (simp add: to_gateway_def transfer_tx_def sample_alloy_def local_policy_def for_network_def)
  from refreshed_candidate_blocks_prune [OF this, of 1 2 9 10 8, THEN conjunct1] show ?thesis
    unfolding sample_pool_def by simp
qed

end
