(* ===== verification/Runs.thy ===== *)
theory Runs
  imports Main
begin

section \<open>Runs of a step relation and stuttering simulations\<close>

text \<open>
  Sequences of labelled steps, invariants along them, and the locale \<open>stutter_simulation\<close>: a
  concrete step relation whose every step is matched by a path, possibly empty, of an abstract
  system. Its lemma turns the matching of one step into the inclusion of whole runs.
\<close>

inductive runs :: "('c \<Rightarrow> 'l \<Rightarrow> 'c \<Rightarrow> bool) \<Rightarrow> 'c \<Rightarrow> 'l list \<Rightarrow> 'c \<Rightarrow> bool" for step where
  runs_Nil: "runs step c [] c"
| runs_snoc: "runs step c ls c' \<Longrightarrow> step c' l c'' \<Longrightarrow> runs step c (ls @ [l]) c''"

inductive_cases runs_Nil_cases: "runs step c [] c'"

lemma runs_one: "step c l c' \<Longrightarrow> runs step c [l] c'"
  using runs_snoc [OF runs_Nil] by fastforce

lemma runs_append: "runs step c' ls' c'' \<Longrightarrow> runs step c ls c' \<Longrightarrow> runs step c (ls @ ls') c''"
proof (induction rule: runs.induct)
  case (runs_snoc d ks d' k d'')
  then show ?case using runs.runs_snoc [of step c "ls @ ks" d' k d''] by simp
qed simp

lemma runs_Cons: "step c l c' \<Longrightarrow> runs step c' ls c'' \<Longrightarrow> runs step c (l # ls) c''"
  using runs_append [OF _ runs_one] by fastforce

inductive_cases runs_snoc_cases: "runs step c (ls @ [l]) c''"

lemma runs_split: "runs step c (ls @ ls') c'' \<Longrightarrow> \<exists>c'. runs step c ls c' \<and> runs step c' ls' c''"
proof (induction ls' arbitrary: c'' rule: rev_induct)
  case Nil
  then show ?case by (auto intro: runs_Nil)
next
  case (snoc l ls')
  from snoc.prems have "runs step c ((ls @ ls') @ [l]) c''" by simp
  then obtain d where d: "runs step c (ls @ ls') d" "step d l c''" by (rule runs_snoc_cases) auto
  from snoc.IH [OF d(1)] d(2) show ?case by (blast intro: runs_snoc)
qed

lemma runs_one_step: "runs step c [l] c' \<Longrightarrow> step c l c'"
  using runs_snoc_cases [of step c "[]" l c'] by (auto elim: runs_Nil_cases)

lemma runs_Cons_split: "runs step c (l # ls) c'' \<Longrightarrow> \<exists>c'. step c l c' \<and> runs step c' ls c''"
  using runs_split [of step c "[l]" ls c''] by (auto dest: runs_one_step)

lemma runs_invariant:
  assumes "runs step c ls c'" "Q c" "\<And>d l d'. Q d \<Longrightarrow> step d l d' \<Longrightarrow> Q d'"
  shows "Q c'"
  using assms by (induction rule: runs.induct) blast+

text \<open>A quantity that every step changes by the weight of its label, under an invariant.\<close>

lemma runs_sum:
  fixes f :: "'c \<Rightarrow> 'n::comm_monoid_add"
  assumes "runs step c ls c'" "Q c" "\<And>d l d'. Q d \<Longrightarrow> step d l d' \<Longrightarrow> Q d' \<and> f d' = f d + w l"
  shows "f c' = f c + sum_list (map w ls)"
proof -
  have "Q c' \<and> f c' = f c + sum_list (map w ls)"
    using assms(1,2)
  proof (induction rule: runs.induct)
    case (runs_snoc c ls c' l c'')
    then show ?case using assms(3) [OF _ runs_snoc.hyps(2)] by (simp add: add.assoc)
  qed simp
  then show ?thesis by simp
qed

locale stutter_simulation =
  fixes cstep :: "'c \<Rightarrow> 'l \<Rightarrow> 'c \<Rightarrow> bool"
    and apath :: "'a \<Rightarrow> 'k list \<Rightarrow> 'a \<Rightarrow> bool"
    and abs_of :: "'c \<Rightarrow> 'a"
    and labels_of :: "'l \<Rightarrow> 'k list"
    and good :: "'c \<Rightarrow> bool"
  assumes apath_refl: "apath a [] a"
    and apath_trans: "apath a ks b \<Longrightarrow> apath b ks' c \<Longrightarrow> apath a (ks @ ks') c"
    and good_step: "good p \<Longrightarrow> cstep p l p' \<Longrightarrow> good p'"
    and simulates: "good p \<Longrightarrow> cstep p l p' \<Longrightarrow> apath (abs_of p) (labels_of l) (abs_of p')"
begin

lemma good_run: "runs cstep p ls p' \<Longrightarrow> good p \<Longrightarrow> good p'"
  by (erule runs_invariant) (auto intro: good_step)

lemma run_simulated:
  "runs cstep p ls p' \<Longrightarrow> good p \<Longrightarrow> apath (abs_of p) (concat (map labels_of ls)) (abs_of p')"
proof (induction rule: runs.induct)
  case (runs_Nil p)
  then show ?case by (simp add: apath_refl)
next
  case (runs_snoc p ls p' l p'')
  then show ?case
    using apath_trans [OF runs_snoc.IH [OF runs_snoc.prems] simulates [OF good_run runs_snoc.hyps(2)]]
    by simp
qed

end

end
