(* ===== verification/Sidecar_Process.thy ===== *)
theory Sidecar_Process
  imports Startup Runs
begin

section \<open>The running process\<close>

text \<open>
  What \<open>main\<close> runs after a successful start, \<^verbatim>\<open>src/main.rs\<close>: the HTTP server, the loop as a task,
  the handler of the interrupt signal, all sharing one \<open>Metrics\<close>. The steps of the loop, of the
  requests and of \<open>main\<close> interleave. A batch is taken apart: the events of a batch that arrived
  are processed one by one, and requests and the signal may come between them. The handler of one
  event and the answer to one request are single steps here; \<open>Atomic_Process\<close> takes them apart into
  their atomic reads and writes, and what a request sees of a handler that is going on is stated there.

  The record of the metrics that a configuration of the loop carries is the shared one: every step
  of the task first takes the current metrics and afterwards publishes its own.
\<close>

subsection \<open>State and steps\<close>

datatype main_phase = Serving | Draining | Joining | Exited | Failed

record ('tx, 'r, 'c, 'g, 'v) process =
  pr_main :: main_phase
  pr_metrics :: "('r, 'c, 'g, 'v) metrics"
  pr_task :: "('tx, 'r, 'c, 'g, 'v) config option"
  pr_inbox :: "('tx event \<times> answers) list"

datatype 'tx plabel =
    Interrupt
  | Request string response
  | Drained
  | ServeError
  | Join
  | Task "'tx label"
  | Arrive "('tx event \<times> answers) list"
  | Event "'tx event \<times> answers" "'tx wire"

definition put_metrics :: "('r, 'c, 'g, 'v) metrics \<Rightarrow> ('tx, 'r, 'c, 'g, 'v) config \<Rightarrow> ('tx, 'r, 'c, 'g, 'v) config" where
  "put_metrics m c = c\<lparr>cf_state := (cf_state c)\<lparr>ls_metrics := m\<rparr>\<rparr>"

definition launch :: "('r, 'c, 'g, 'v) started \<Rightarrow> ('tx, 'r, 'c, 'g, 'v) process" where
  "launch s =
     \<lparr>pr_main = Serving, pr_metrics = st_metrics s,
      pr_task = (case st_loop s of Some (path, mode) \<Rightarrow> Some (initial mode (st_metrics s)) | None \<Rightarrow> None),
      pr_inbox = []\<rparr>"

text \<open>The signal is sent on the watch channel; without a loop nobody listens.\<close>

definition send_shutdown :: "('tx, 'r, 'c, 'g, 'v) config \<Rightarrow> ('tx, 'r, 'c, 'g, 'v) config" where
  "send_shutdown c = c\<lparr>cf_shutdown := True, cf_unseen := True\<rparr>"

definition task_done :: "('tx, 'r, 'c, 'g, 'v) config option \<Rightarrow> bool" where
  "task_done t = (case t of None \<Rightarrow> True | Some c \<Rightarrow> cf_phase c = Returned)"

text \<open>The parameters of \<open>process_step\<close> are those of the loop and of the handlers. A label \<open>Task l\<close> is
  a step of the loop other than a batch or the signal.\<close>

inductive process_step :: "'tx alloy \<Rightarrow> ('r, 'c, 'g, 'v) prom \<Rightarrow> ('tx bid_map \<Rightarrow> txhash list) \<Rightarrow>
    (('r, 'c, 'g, 'v) metrics \<Rightarrow> 'e + u8 list) \<Rightarrow> ('e render_error \<Rightarrow> u8 list) \<Rightarrow>
    ('tx, 'r, 'c, 'g, 'v) process \<Rightarrow> 'tx plabel \<Rightarrow> ('tx, 'r, 'c, 'g, 'v) process \<Rightarrow> bool"
  for A P it encode display where
  interrupt: "pr_main p = Serving \<Longrightarrow>
    process_step A P it encode display p Interrupt
      (p\<lparr>pr_main := Draining, pr_task := map_option send_shutdown (pr_task p)\<rparr>)"
| request: "pr_main p \<in> {Serving, Draining} \<Longrightarrow>
    serve P encode display path (pr_metrics p) = Some (resp, m) \<Longrightarrow>
    process_step A P it encode display p (Request path resp) (p\<lparr>pr_metrics := m\<rparr>)"
| drained: "pr_main p = Draining \<Longrightarrow>
    process_step A P it encode display p Drained (p\<lparr>pr_main := Joining\<rparr>)"
| serve_error: "pr_main p \<in> {Serving, Draining} \<Longrightarrow>
    process_step A P it encode display p ServeError (p\<lparr>pr_main := Failed\<rparr>)"
| join: "pr_main p = Joining \<Longrightarrow> task_done (pr_task p) \<Longrightarrow>
    process_step A P it encode display p Join (p\<lparr>pr_main := Exited\<rparr>)"
| task: "pr_main p \<notin> {Exited, Failed} \<Longrightarrow> pr_task p = Some c \<Longrightarrow> pr_inbox p = [] \<Longrightarrow>
    l \<noteq> Signal \<Longrightarrow> (\<forall>b out. l \<noteq> Batch b out) \<Longrightarrow>
    ipc_step A P it (put_metrics (pr_metrics p) c) l c' \<Longrightarrow>
    process_step A P it encode display p (Task l)
      (p\<lparr>pr_task := Some c', pr_metrics := ls_metrics (cf_state c')\<rparr>)"
| arrive: "pr_main p \<notin> {Exited, Failed} \<Longrightarrow> pr_task p = Some c \<Longrightarrow> pr_inbox p = [] \<Longrightarrow>
    cf_phase c = InConnection \<Longrightarrow>
    process_step A P it encode display p (Arrive b) (p\<lparr>pr_inbox := b\<rparr>)"
| event: "pr_main p \<notin> {Exited, Failed} \<Longrightarrow> pr_task p = Some c \<Longrightarrow> pr_inbox p = ea # rest \<Longrightarrow>
    process_event A P it ea (cf_state (put_metrics (pr_metrics p) c)) = (out, failed, st) \<Longrightarrow>
    process_step A P it encode display p (Event ea out)
      (p\<lparr>pr_task := Some (c\<lparr>cf_phase := (if failed then LoopTop else cf_phase c), cf_state := st\<rparr>),
         pr_metrics := ls_metrics st, pr_inbox := (if failed then [] else rest)\<rparr>)"

inductive_cases process_step_Request: "process_step A P it encode display p (Request path resp) p'"

text \<open>What a run served, and what of it concerns the loop.\<close>

fun loop_labels :: "'tx plabel \<Rightarrow> 'tx label list" where
  "loop_labels Interrupt = [Signal]"
| "loop_labels (Task l) = [l]"
| "loop_labels (Event ea out) = [Batch [ea] out]"
| "loop_labels _ = []"

fun served :: "string \<Rightarrow> string \<Rightarrow> 'tx plabel \<Rightarrow> nat" where
  "served path class (Request path' resp) =
     (if path' = path \<and> status_class (status_of resp) = class then 1 else 0)"
| "served path class _ = 0"

definition loop_view :: "'tx plabel list \<Rightarrow> 'tx label list" where
  "loop_view pls = concat (map loop_labels pls)"

subsection \<open>The loop does not see the requests\<close>

definition with_http :: "'v \<Rightarrow> ('tx, 'r, 'c, 'g, 'v) loop_state \<Rightarrow> ('tx, 'r, 'c, 'g, 'v) loop_state" where
  "with_http v st = st\<lparr>ls_metrics := (ls_metrics st)\<lparr>http_requests_total := v\<rparr>\<rparr>"

lemma metric_updates_http:
  "set_ipc_state P s (m\<lparr>http_requests_total := v\<rparr>) = (set_ipc_state P s m)\<lparr>http_requests_total := v\<rparr>"
  "record_event P k w (m\<lparr>http_requests_total := v\<rparr>) = (record_event P k w m)\<lparr>http_requests_total := v\<rparr>"
  "record_insert P (m\<lparr>http_requests_total := v\<rparr>) = (record_insert P m)\<lparr>http_requests_total := v\<rparr>"
  "record_prioritized P w (m\<lparr>http_requests_total := v\<rparr>) = (record_prioritized P w m)\<lparr>http_requests_total := v\<rparr>"
  "record_skipped_non_gateway P (m\<lparr>http_requests_total := v\<rparr>) = (record_skipped_non_gateway P m)\<lparr>http_requests_total := v\<rparr>"
  "record_skipped_invalid_gateway P (m\<lparr>http_requests_total := v\<rparr>) = (record_skipped_invalid_gateway P m)\<lparr>http_requests_total := v\<rparr>"
  "add_backrun_pairs P n (m\<lparr>http_requests_total := v\<rparr>) = (add_backrun_pairs P n m)\<lparr>http_requests_total := v\<rparr>"
  "add_backrun_pended P n (m\<lparr>http_requests_total := v\<rparr>) = (add_backrun_pended P n m)\<lparr>http_requests_total := v\<rparr>"
  "add_backrun_expired P n (m\<lparr>http_requests_total := v\<rparr>) = (add_backrun_expired P n m)\<lparr>http_requests_total := v\<rparr>"
  "add_backrun_evicted P n (m\<lparr>http_requests_total := v\<rparr>) = (add_backrun_evicted P n m)\<lparr>http_requests_total := v\<rparr>"
  "set_backrun_pending P i (m\<lparr>http_requests_total := v\<rparr>) = (set_backrun_pending P i m)\<lparr>http_requests_total := v\<rparr>"
  "set_backrun_cache P i (m\<lparr>http_requests_total := v\<rparr>) = (set_backrun_cache P i m)\<lparr>http_requests_total := v\<rparr>"
  "add_sent_cache_evictions P n (m\<lparr>http_requests_total := v\<rparr>) = (add_sent_cache_evictions P n m)\<lparr>http_requests_total := v\<rparr>"
  "set_sent_cache P i (m\<lparr>http_requests_total := v\<rparr>) = (set_sent_cache P i m)\<lparr>http_requests_total := v\<rparr>"
  "record_send_failure P (m\<lparr>http_requests_total := v\<rparr>) = (record_send_failure P m)\<lparr>http_requests_total := v\<rparr>"
  "record_reconnect P (m\<lparr>http_requests_total := v\<rparr>) = (record_reconnect P m)\<lparr>http_requests_total := v\<rparr>"
  by (simp_all add: metric_updates Let_def)

lemma with_http_fields [simp]:
  "ls_pool (with_http v st) = ls_pool st" "ls_sent (with_http v st) = ls_sent st"
  "ls_metrics (with_http v st) = (ls_metrics st)\<lparr>http_requests_total := v\<rparr>"
  by (simp_all add: with_http_def)

lemma observe_event_http:
  assumes "observe_event A P ans h tx st = (rs, st')"
  shows "observe_event A P ans h tx (with_http v st) = (rs, with_http v st')"
  using assms
  by (auto simp: observe_event_def Let_def with_http_def metric_updates_http split: prod.splits)

lemma send_loop_http:
  "send_loop P ans i rs st = (out, failed, st') \<Longrightarrow>
     send_loop P ans i rs (with_http v st) = (out, failed, with_http v st')"
proof (induction rs arbitrary: i st out)
  case Nil
  then show ?case by simp
next
  case (Cons r rs)
  from Cons.prems show ?case
  proof (cases rule: send_loop_cases)
    case (skip r' rs')
    then show ?thesis using Cons.IH by simp
  next
    case (fail r' rs')
    then show ?thesis by (simp add: with_http_def metric_updates_http)
  next
    case (send r' rs' ev s out')
    have eq: "r' = r" "rs' = rs" using send(1) by simp_all
    show ?thesis
      using Cons.IH [OF send(5) [unfolded eq]] send(2,3,4,6)
      by (simp add: eq with_http_def metric_updates_http del: send_loop.simps(1))
  qed simp
qed

lemma process_event_http:
  assumes "process_event A P it ea st = (out, failed, st')"
  shows "process_event A P it ea (with_http v st) = (out, failed, with_http v st')"
proof -
  obtain ev ans where ea: "ea = (ev, ans)" by (cases ea)
  let ?m = "\<lambda>st. st\<lparr>ls_metrics := record_event P (event_kind (ev_action ev)) (wall_event ans) (ls_metrics st)\<rparr>"
  have re: "?m (with_http v st) = with_http v (?m st)"
    by (simp add: with_http_def metric_updates_http)
  from assms [unfolded ea] show ?thesis
  proof (cases rule: process_event_cases)
    case (echo tx)
    then show ?thesis by (simp add: ea process_event_def with_http_def metric_updates_http)
  next
    case (insert tx rs st1)
    then show ?thesis
      using observe_event_http [OF insert(3), of v] send_loop_http [OF insert(4), of v] re
      by (simp add: ea process_event_def)
  next
    case gone
    then show ?thesis
      by (cases "ev_action ev") (simp_all add: ea process_event_def with_http_def metric_updates_http Let_def)
  qed
qed

lemma process_one:
  "process_event A P it ea st = (out, failed, st') \<Longrightarrow> process_batch A P it [ea] st = (out, failed, st')"
  by simp

lemma process_batch_http:
  "process_batch A P it b st = (out, failed, st') \<Longrightarrow>
     process_batch A P it b (with_http v st) = (out, failed, with_http v st')"
proof (induction b arbitrary: st out)
  case (Cons ea b)
  obtain out1 failed1 st1 where e: "process_event A P it ea st = (out1, failed1, st1)"
    using prod_cases3 by blast
  then show ?case
    using Cons.prems Cons.IH process_event_http [OF e, of v] by (auto split: if_splits prod.splits)
qed simp

definition quiet :: "'v \<Rightarrow> ('tx, 'r, 'c, 'g, 'v) config \<Rightarrow> ('tx, 'r, 'c, 'g, 'v) config" where
  "quiet v c = c\<lparr>cf_state := with_http v (cf_state c)\<rparr>"

lemma quiet_simps [simp]:
  "cf_phase (quiet v c) = cf_phase c" "cf_shutdown (quiet v c) = cf_shutdown c"
  "cf_unseen (quiet v c) = cf_unseen c" "cf_state (quiet v c) = with_http v (cf_state c)"
  by (simp_all add: quiet_def)

lemma put_metrics_simps [simp]:
  "cf_phase (put_metrics m c) = cf_phase c" "cf_shutdown (put_metrics m c) = cf_shutdown c"
  "cf_unseen (put_metrics m c) = cf_unseen c"
  "ls_pool (cf_state (put_metrics m c)) = ls_pool (cf_state c)"
  "ls_sent (cf_state (put_metrics m c)) = ls_sent (cf_state c)"
  "ls_metrics (cf_state (put_metrics m c)) = m"
  by (simp_all add: put_metrics_def)

lemma with_http_with_metrics:
  "(\<And>m. f (m\<lparr>http_requests_total := v\<rparr>) = (f m)\<lparr>http_requests_total := v\<rparr>) \<Longrightarrow>
     with_http v (with_metrics f st) = with_metrics f (with_http v st)"
  by (simp add: with_http_def with_metrics_def)

lemma ipc_step_quiet:
  assumes "ipc_step A P it c l c'"
  shows "ipc_step A P it (quiet v c) l (quiet v c')"
  using assms
proof cases
  case (batch b st out failed st' sd un)
  then show ?thesis
    using ipc_step.batch [OF process_batch_http [OF batch(4), of v], where sd = sd and un = un]
    by (simp add: quiet_def)
qed (simp_all add: quiet_def with_http_with_metrics metric_updates_http ipc_step.intros)

subsection \<open>The process simulates the loop\<close>

text \<open>The loop that a process carries, with the counter of requests set to a fixed value.\<close>

definition loop_of :: "'v \<Rightarrow> ('tx, 'r, 'c, 'g, 'v) process \<Rightarrow> ('tx, 'r, 'c, 'g, 'v) config" where
  "loop_of v p = quiet v (put_metrics (pr_metrics p) (the (pr_task p)))"

definition inbox_ok :: "('tx, 'r, 'c, 'g, 'v) process \<Rightarrow> bool" where
  "inbox_ok p \<longleftrightarrow> (\<exists>c. pr_task p = Some c \<and> (pr_inbox p \<noteq> [] \<longrightarrow> cf_phase c = InConnection))"

lemma serve_http_only:
  assumes "serve P encode display path m = Some (resp, m')"
  shows "m' = record_http P path (status_of resp) m"
  using assms
  by (auto simp: serve_def router_def health_def metrics_endpoint_def Let_def split: if_splits sum.splits)

lemma record_http_overwritten:
  "(record_http P path st m)\<lparr>http_requests_total := v\<rparr> = m\<lparr>http_requests_total := v\<rparr>"
  by (simp add: record_http_def)

lemma ipc_step_signal: "ipc_step A P it c Signal (send_shutdown c)"
  using signal [of A P it "cf_phase c" "cf_shutdown c" "cf_unseen c" "cf_state c"]
  by (cases c) (simp add: send_shutdown_def)

lemma put_metrics_same: "ls_metrics (cf_state c) = m \<Longrightarrow> put_metrics m c = c"
  by (simp add: put_metrics_def)

lemma send_shutdown_simps [simp]:
  "cf_phase (send_shutdown c) = cf_phase c" "cf_shutdown (send_shutdown c)"
  "cf_unseen (send_shutdown c)" "cf_state (send_shutdown c) = cf_state c"
  by (simp_all add: send_shutdown_def)

lemma loop_of_send_shutdown:
  "pr_task p = Some c \<Longrightarrow>
     loop_of v (p\<lparr>pr_main := ph, pr_task := Some (send_shutdown c)\<rparr>) = send_shutdown (loop_of v p)"
  by (simp add: loop_of_def quiet_def put_metrics_def send_shutdown_def with_http_def)

lemma event_simulated:
  assumes "process_event A P it ea (cf_state (put_metrics m c)) = (out, failed, st)" "cf_phase c = InConnection"
  shows "ipc_step A P it (quiet v (put_metrics m c)) (Batch [ea] out)
    (quiet v (c\<lparr>cf_phase := (if failed then LoopTop else cf_phase c), cf_state := st\<rparr>))"
proof -
  have "process_batch A P it [ea] (with_http v (cf_state (put_metrics m c))) = (out, failed, with_http v st)"
    by (rule process_one [OF process_event_http [OF assms(1)]])
  from ipc_step.batch [OF this, of "cf_shutdown c" "cf_unseen c"] assms(2) show ?thesis
    by (cases c; cases failed) (simp_all add: quiet_def put_metrics_def)
qed

lemma process_step_simulated:
  assumes ok: "inbox_ok p" and step: "process_step A P it encode display p l p'"
  shows "inbox_ok p' \<and> ipc_path A P it (loop_of v p) (loop_labels l) (loop_of v p')"
proof -
  obtain c where c: "pr_task p = Some c" "pr_inbox p \<noteq> [] \<Longrightarrow> cf_phase c = InConnection"
    using ok by (auto simp: inbox_ok_def)
  show ?thesis
    using step
  proof cases
    case interrupt
    then show ?thesis
      using c path_one [OF ipc_step_signal, of A P it "loop_of v p"]
      by (simp add: inbox_ok_def loop_of_send_shutdown)
  next
    case (request path resp m)
    have "loop_of v p' = loop_of v p"
      using serve_http_only [OF request(4)]
      by (simp add: request(2) loop_of_def quiet_def put_metrics_def with_http_def record_http_overwritten)
    then show ?thesis using c request(1,2) by (simp add: inbox_ok_def path_Nil)
  next
    case (task c0 l0 c')
    have "ipc_step A P it (loop_of v p) l0 (loop_of v p')"
      using ipc_step_quiet [OF task(8), of v] task(2,4) by (simp add: loop_of_def put_metrics_same)
    then show ?thesis
      using task(1,2,5) path_one by (simp add: inbox_ok_def)
  next
    case (event c0 ea rest out failed st)
    have c0: "c0 = c" using event(4) c(1) by simp
    have conn: "cf_phase c = InConnection" using c(2) event(5) by simp
    have "ipc_step A P it (loop_of v p) (Batch [ea] out) (loop_of v p')"
      using event_simulated [OF event(6) [unfolded c0] conn, of v] event(2) c(1) c0
      by (cases failed) (simp_all add: loop_of_def put_metrics_same)
    then show ?thesis
      using event(1,2) conn by (cases failed) (simp_all add: inbox_ok_def c0 path_one)
  qed (use c in \<open>auto simp: inbox_ok_def loop_of_def intro: path_Nil\<close>)
qed

interpretation procs: stutter_simulation "process_step A P it encode display" "ipc_path A P it" "loop_of v" loop_labels inbox_ok
  for A P it encode display v
proof
  show "ipc_path A P it a [] a" for a by (rule path_Nil)
  show "ipc_path A P it a (ks @ ks') c" if "ipc_path A P it a ks b" "ipc_path A P it b ks' c" for a ks b ks' c
    using that by (rule path_append)
  show "inbox_ok p'" "ipc_path A P it (loop_of v p) (loop_labels l) (loop_of v p')"
    if "inbox_ok p" "process_step A P it encode display p l p'" for p l p'
    using process_step_simulated [OF that, of v] by simp_all
qed

text \<open>A run with a loop: projected, it is a run of the loop on its own.\<close>

lemma run_projected:
  fixes A :: "'tx alloy" and s :: "('r, 'c, 'g, 'v) started"
  assumes run: "runs (process_step A P it encode display) (launch s) pls p"
    and loop: "st_loop s = Some (path, mode)"
  shows "ipc_path A P it (initial mode (st_metrics s)) (loop_view pls)
      (loop_of (http_requests_total (st_metrics s)) p)"
    "inbox_ok p"
proof -
  let ?l = "launch s :: ('tx, 'r, 'c, 'g, 'v) process"
  have ok: "inbox_ok ?l" by (simp add: inbox_ok_def launch_def loop)
  have "loop_of (http_requests_total (st_metrics s)) ?l = initial mode (st_metrics s)"
    by (simp add: loop_of_def launch_def loop quiet_def put_metrics_def with_http_def initial_def new_loop_state_def)
  with procs.run_simulated [OF run ok, of "http_requests_total (st_metrics s)"]
  show "ipc_path A P it (initial mode (st_metrics s)) (loop_view pls) (loop_of (http_requests_total (st_metrics s)) p)"
    by (simp add: loop_view_def)
  show "inbox_ok p" by (rule procs.good_run [OF run ok])
qed

subsection \<open>What the handlers report\<close>

lemma snapshot_http: "snapshot P (m\<lparr>http_requests_total := v\<rparr>) = snapshot P m"
  by (simp add: snapshot_def)

lemma ls_metrics_loop_of:
  "ls_metrics (cf_state (loop_of v p)) = (pr_metrics p)\<lparr>http_requests_total := v\<rparr>"
  by (simp add: loop_of_def)

text \<open>Every request is counted once; no other step touches that counter.\<close>

lemma with_http_same: "with_http (http_requests_total (ls_metrics st)) st = st"
  by (simp add: with_http_def)

lemma with_http_kept:
  assumes "with_http v st = st"
  shows "http_requests_total (ls_metrics st) = v"
proof -
  have "http_requests_total (ls_metrics (with_http v st)) = v" by simp
  then show ?thesis by (simp only: assms)
qed

lemma process_event_keeps_http:
  assumes "process_event A P it ea st = (out, failed, st')"
  shows "http_requests_total (ls_metrics st') = http_requests_total (ls_metrics st)"
proof -
  have "process_event A P it ea st = (out, failed, with_http (http_requests_total (ls_metrics st)) st')"
    using process_event_http [OF assms, of "http_requests_total (ls_metrics st)"] by (simp only: with_http_same)
  then have "with_http (http_requests_total (ls_metrics st)) st' = st'" using assms by simp
  then show ?thesis by (rule with_http_kept)
qed

lemma step_http:
  assumes P: "prom_laws P" and two: "length (snd (vec_desc P (http_requests_total (pr_metrics p)))) = 2"
    and step: "process_step A P it encode display p l p'"
  shows "vec_desc P (http_requests_total (pr_metrics p')) = vec_desc P (http_requests_total (pr_metrics p))"
    "vec_get P [path, class] (http_requests_total (pr_metrics p'))
    = vec_get P [path, class] (http_requests_total (pr_metrics p)) + of_nat (served path class l)"
proof -
  have batch: "http_requests_total (ls_metrics (cf_state c')) = http_requests_total (ls_metrics (cf_state c))"
    if "ipc_step A P it c l c'" "\<forall>b out. l \<noteq> Batch b out" for c l c'
    using that by cases (simp_all add: set_ipc_state_def record_reconnect_def)
  have "vec_desc P (http_requests_total (pr_metrics p')) = vec_desc P (http_requests_total (pr_metrics p))
    \<and> vec_get P [path, class] (http_requests_total (pr_metrics p'))
      = vec_get P [path, class] (http_requests_total (pr_metrics p)) + of_nat (served path class l)"
    using step
  proof cases
    case (request path' resp m)
    show ?thesis
      using serve_effect(2) [OF P request(4)] serve_effect(3) [OF P request(4) two, of "[path, class]"]
      by (simp add: request(1,2))
  next
    case (task c l0 c')
    then show ?thesis using batch [OF task(8,7)] by simp
  next
    case (event c ea rest out failed st)
    show ?thesis using process_event_keeps_http [OF event(6)] by (simp add: event(1,2))
  qed simp_all
  then show "vec_desc P (http_requests_total (pr_metrics p')) = vec_desc P (http_requests_total (pr_metrics p))"
    "vec_get P [path, class] (http_requests_total (pr_metrics p'))
      = vec_get P [path, class] (http_requests_total (pr_metrics p)) + of_nat (served path class l)"
    by simp_all
qed

subsection \<open>Reachable processes\<close>

lemma machine_inv_quiet [simp]: "machine_inv P (quiet v c) = machine_inv P c"
  by (simp add: machine_inv_def loop_inv_def sent_gauge_ok_def shows_state_def)

lemma run_machine_inv:
  assumes run: "runs (process_step A P it encode display) (launch s) pls p"
    and loop: "st_loop s = Some (path, mode)" and P: "prom_laws P" and m: "fresh_metrics P (st_metrics s)"
    and mp: "Suc (unat (pm_max_pending_entries mode)) < 2 ^ 64"
  shows "\<exists>c. pr_task p = Some c \<and> machine_inv P (put_metrics (pr_metrics p) c)"
  using path_machine_inv [OF run_projected(1) [OF run loop] P machine_inv_initial [OF m mp]] run_projected(2) [OF run loop]
  by (auto simp: inbox_ok_def loop_of_def)

text \<open>Where \<open>main\<close> is, against the signal and the loop.\<close>

definition main_ok :: "('tx, 'r, 'c, 'g, 'v) process \<Rightarrow> bool" where
  "main_ok p \<longleftrightarrow>
     (pr_main p \<in> {Draining, Joining, Exited} \<longrightarrow> (\<forall>c. pr_task p = Some c \<longrightarrow> cf_shutdown c))
     \<and> (pr_main p = Exited \<longrightarrow> task_done (pr_task p))"

lemma step_main_ok:
  assumes "main_ok p" "process_step A P it encode display p l p'"
  shows "main_ok p'"
  using assms(2)
proof cases
  case (task c l0 c')
  then show ?thesis
    using assms(1) shutdown_progress [OF task(8)] by (auto simp: main_ok_def)
qed (use assms(1) in \<open>auto simp: main_ok_def\<close>)

lemma run_main_ok: "runs (process_step A P it encode display) (launch s) pls p \<Longrightarrow> main_ok p"
proof (erule runs_invariant)
  show "main_ok (launch s)" by (simp add: main_ok_def launch_def)
qed (rule step_main_ok)

lemma exited_final: "pr_main p \<in> {Exited, Failed} \<Longrightarrow> \<not> process_step A P it encode display p l p'"
  by (auto elim: process_step.cases)

lemma run_signalled:
  assumes "runs (process_step A P it encode display) p0 pls p" "pr_main p0 = Serving"
  shows "(pr_main p \<in> {Draining, Joining, Exited} \<longrightarrow> Interrupt \<in> set pls)
    \<and> (pr_main p = Serving \<longrightarrow> Interrupt \<notin> set pls)"
  using assms
proof (induction rule: runs.induct)
  case (runs_snoc p0 ls p' l p'')
  from runs_snoc.hyps(2) show ?case
    by cases (use runs_snoc.IH runs_snoc.prems in auto)
qed simp

subsection \<open>The process can always end after the signal\<close>

lemma drain_inbox:
  assumes "pr_main p \<notin> {Exited, Failed}" "pr_task p = Some c"
  shows "\<exists>ls p' c'. runs (process_step A P it encode display) p ls p' \<and> length ls \<le> length (pr_inbox p)
    \<and> (\<forall>l \<in> set ls. \<exists>ea out. l = Event ea out)
    \<and> pr_main p' = pr_main p \<and> pr_task p' = Some c' \<and> pr_inbox p' = []"
  using assms
proof (induction "pr_inbox p" arbitrary: p c)
  case Nil
  then show ?case by (intro exI [of _ "[]"] exI [of _ p] exI [of _ c]) (auto intro: runs_Nil)
next
  case (Cons ea rest)
  obtain out failed st where e: "process_event A P it ea (cf_state (put_metrics (pr_metrics p) c)) = (out, failed, st)"
    using prod_cases3 by blast
  let ?c = "c\<lparr>cf_phase := (if failed then LoopTop else cf_phase c), cf_state := st\<rparr>"
  let ?p = "p\<lparr>pr_task := Some ?c, pr_metrics := ls_metrics st, pr_inbox := (if failed then [] else rest)\<rparr>"
  have step: "process_step A P it encode display p (Event ea out) ?p"
    by (rule process_step.event [OF Cons.prems Cons.hyps(2) [symmetric] e])
  show ?case
  proof (cases failed)
    case True
    then show ?thesis
      using runs_one [of "process_step A P it encode display", OF step] Cons.hyps(2)
      by (intro exI [of _ "[Event ea out]"] exI [of _ ?p] exI [of _ ?c]) (auto simp: Suc_le_eq)
  next
    case False
    then have "rest = pr_inbox ?p" "pr_main ?p \<notin> {Exited, Failed}" "pr_task ?p = Some ?c"
      using Cons.prems(1) by simp_all
    from Cons.hyps(1) [OF this] obtain ls p' c' where ls: "runs (process_step A P it encode display) ?p ls p'"
      "length ls \<le> length rest" "\<forall>l \<in> set ls. \<exists>ea out. l = Event ea out"
      "pr_main p' = pr_main p" "pr_task p' = Some c'" "pr_inbox p' = []"
      using False by auto
    then show ?thesis
      using runs_Cons [of "process_step A P it encode display", OF step ls(1)] Cons.hyps(2) [symmetric]
      by (intro exI [of _ "Event ea out # ls"] exI [of _ p'] exI [of _ c']) auto
  qed
qed

lemma task_run:
  assumes "ipc_path A P it c ls c'" "\<forall>l \<in> set ls. l \<noteq> Signal \<and> (\<forall>b out. l \<noteq> Batch b out)"
    and "pr_main p \<notin> {Exited, Failed}" "pr_task p = Some c0" "pr_inbox p = []" "put_metrics (pr_metrics p) c0 = c"
  shows "\<exists>p' c1. runs (process_step A P it encode display) p (map Task ls) p'
    \<and> pr_main p' = pr_main p \<and> pr_inbox p' = [] \<and> pr_task p' = Some c1 \<and> put_metrics (pr_metrics p') c1 = c'"
  using assms
proof (induction arbitrary: rule: ipc_path.induct)
  case (path_Nil c)
  then show ?case by (intro exI [of _ p] exI [of _ c0]) (auto intro: runs_Nil)
next
  case (path_snoc c ls c' l c'')
  from path_snoc.prems(1) have "\<forall>l \<in> set ls. l \<noteq> Signal \<and> (\<forall>b out. l \<noteq> Batch b out)"
    and l: "l \<noteq> Signal" "\<forall>b out. l \<noteq> Batch b out"
    by simp_all
  from path_snoc.IH [OF this(1) path_snoc.prems(2-)] obtain p' c1 where
    p': "runs (process_step A P it encode display) p (map Task ls) p'" "pr_main p' = pr_main p" "pr_inbox p' = []"
      "pr_task p' = Some c1" "put_metrics (pr_metrics p') c1 = c'"
    by blast
  have "process_step A P it encode display p' (Task l) (p'\<lparr>pr_task := Some c'', pr_metrics := ls_metrics (cf_state c'')\<rparr>)"
    using p' path_snoc.hyps(2) path_snoc.prems(2) l by (intro process_step.task) auto
  from runs_snoc [of "process_step A P it encode display", OF p'(1) this] p'(2,3) show ?case
    by (intro exI [of _ "p'\<lparr>pr_task := Some c'', pr_metrics := ls_metrics (cf_state c'')\<rparr>"] exI [of _ c''])
       (simp add: put_metrics_same)
qed

lemma loop_ends:
  fixes A :: "'tx alloy" and s :: "('r, 'c, 'g, 'v) started"
  assumes run: "runs (process_step A P it encode display) (launch s) pls p"
    and P: "prom_laws P" and m: "fresh_metrics P (st_metrics s)"
    and mp: "\<And>path mode. st_loop s = Some (path, mode) \<Longrightarrow> Suc (unat (pm_max_pending_entries mode)) < 2 ^ 64"
    and main: "pr_main p \<in> {Draining, Joining}"
  shows "\<exists>ls p'. runs (process_step A P it encode display) p ls p' \<and> length ls \<le> length (pr_inbox p) + 3
    \<and> (\<forall>l \<in> set ls. (\<exists>ea out. l = Event ea out) \<or> l \<in> Task ` {Internal, Changed, ConnectFail})
    \<and> pr_main p' = pr_main p \<and> task_done (pr_task p')"
proof (cases "st_loop s")
  case None
  have "pr_task p = None"
    by (rule runs_invariant [OF run, where Q = "\<lambda>p. pr_task p = None"])
       (auto simp: launch_def None elim: process_step.cases)
  then show ?thesis by (intro exI [of _ "[]"] exI [of _ p]) (simp add: runs_Nil task_done_def)
next
  case (Some pm)
  obtain path mode where loop: "st_loop s = Some (path, mode)" using Some by (cases pm) simp
  let ?step = "process_step A P it encode display"
  obtain c where c: "pr_task p = Some c"
    using run_machine_inv [OF run loop P m mp [OF loop]] by blast
  have live: "pr_main p \<notin> {Exited, Failed}" using main by auto
  obtain ls1 p1 c1 where d: "runs ?step p ls1 p1" "length ls1 \<le> length (pr_inbox p)"
      "\<forall>l \<in> set ls1. \<exists>ea out. l = Event ea out"
    and p1: "pr_main p1 = pr_main p" "pr_task p1 = Some c1" "pr_inbox p1 = []"
    using drain_inbox [OF live c, of A P it encode display] by blast
  have run1: "runs ?step (launch s) (pls @ ls1) p1" by (rule runs_append [OF d(1) run])
  have inv: "machine_inv P (put_metrics (pr_metrics p1) c1)"
    using run_machine_inv [OF run1 loop P m mp [OF loop]] p1(2) by auto
  have "cf_shutdown c1" using run_main_ok [OF run1] p1 main by (auto simp: main_ok_def)
  then have sd: "cf_shutdown (put_metrics (pr_metrics p1) c1)" by simp
  obtain ls2 c2 where e: "ipc_path A P it (put_metrics (pr_metrics p1) c1) ls2 c2" "length ls2 \<le> 3"
    "set ls2 \<subseteq> {Internal, Changed, ConnectFail}" "cf_phase c2 = Returned"
    using shutdown_returns [OF inv sd P, of A it] by blast
  obtain p2 c3 where t: "runs ?step p1 (map Task ls2) p2" "pr_main p2 = pr_main p1"
    "pr_task p2 = Some c3" "put_metrics (pr_metrics p2) c3 = c2"
    using task_run [OF e(1) _ _ p1(2,3) refl, of encode display] e(3) live p1(1) by auto
  have "task_done (pr_task p2)" using t(3,4) e(4) by (auto simp: task_done_def)
  then show ?thesis
    using runs_append [OF t(1) d(1)] d(2,3) e(2,3) t(2) p1(1)
    by (intro exI [of _ "ls1 @ map Task ls2"] exI [of _ p2]) auto
qed

lemma process_ends:
  fixes A :: "'tx alloy" and s :: "('r, 'c, 'g, 'v) started"
  assumes run: "runs (process_step A P it encode display) (launch s) pls p"
    and P: "prom_laws P" and m: "fresh_metrics P (st_metrics s)"
    and mp: "\<And>path mode. st_loop s = Some (path, mode) \<Longrightarrow> Suc (unat (pm_max_pending_entries mode)) < 2 ^ 64"
    and main: "pr_main p \<in> {Draining, Joining}"
  shows "\<exists>ls p'. runs (process_step A P it encode display) p ls p' \<and> length ls \<le> length (pr_inbox p) + 5
    \<and> (\<forall>l \<in> set ls. (\<exists>ea out. l = Event ea out) \<or> l \<in> {Drained, Join} \<union> Task ` {Internal, Changed, ConnectFail})
    \<and> pr_main p' = Exited"
proof -
  let ?step = "process_step A P it encode display"
  obtain ls p1 where l: "runs ?step p ls p1" "length ls \<le> length (pr_inbox p) + 3"
    "\<forall>l \<in> set ls. (\<exists>ea out. l = Event ea out) \<or> l \<in> Task ` {Internal, Changed, ConnectFail}"
    "pr_main p1 = pr_main p" "task_done (pr_task p1)"
    using loop_ends [OF run P m _ main] mp by blast
  let ?ds = "(if pr_main p1 = Draining then [Drained] else [])"
  let ?p2 = "p1\<lparr>pr_main := Joining\<rparr>"
  have main1: "pr_main p1 \<in> {Draining, Joining}" using main l(4) by simp
  have "runs ?step p1 ?ds ?p2"
  proof (cases "pr_main p1 = Draining")
    case True
    then show ?thesis using runs_one [of ?step, OF process_step.drained [OF True]] by simp
  next
    case False
    then have "?p2 = p1" using main1 by (cases p1) auto
    then show ?thesis using False runs_Nil [of ?step p1] by simp
  qed
  moreover have "?step ?p2 Join (?p2\<lparr>pr_main := Exited\<rparr>)"
    by (rule process_step.join) (simp_all add: l(5))
  ultimately have "runs ?step p1 (?ds @ [Join]) (?p2\<lparr>pr_main := Exited\<rparr>)"
    by (rule runs_snoc)
  from runs_append [OF this l(1)] show ?thesis
    using l(2,3) by (intro exI [of _ "ls @ ?ds @ [Join]"] exI [of _ "?p2\<lparr>pr_main := Exited\<rparr>"]) auto
qed

subsection \<open>From the configuration\<close>

lemma metrics_new_fresh: "prom_laws P \<Longrightarrow> metrics_new P = Some m \<Longrightarrow> fresh_metrics P m"
  using metrics_new_returns [of P] by (simp add: returns_def)

lemma startup_started:
  assumes "startup bind_address cfg m = Inr s"
  shows "st_metrics s = m" "st_loop s = map_option (\<lambda>path. (path, mode_of cfg)) (txpool_socket cfg)"
  using assms by (auto simp: startup_result split: option.splits)

lemma run_without_loop:
  assumes "runs (process_step A P it encode display) p0 pls p" "pr_task p0 = None"
  shows "pr_task p = None \<and> wire_of (loop_view pls) = [] \<and> snapshot P (pr_metrics p) = snapshot P (pr_metrics p0)"
  using assms
proof (induction rule: runs.induct)
  case (runs_Nil p)
  then show ?case by (simp add: loop_view_def)
next
  case (runs_snoc p0 ls p' l p'')
  have ih: "pr_task p' = None" "wire_of (loop_view ls) = []" "snapshot P (pr_metrics p') = snapshot P (pr_metrics p0)"
    using runs_snoc by simp_all
  from runs_snoc.hyps(2) show ?case
  proof cases
    case (request path resp m)
    then show ?thesis
      using ih serve_http_only [OF request(4)] by (simp add: loop_view_def snapshot_record_http)
  qed (use ih in \<open>simp_all add: loop_view_def wire_of_def\<close>)
qed

lemma exit_shows_disabled:
  fixes A :: "'tx alloy" and s :: "('r, 'c, 'g, 'v) started"
  assumes run: "runs (process_step A P it encode display) (launch s) pls p"
    and returned: "task_done (pr_task p)" and P: "prom_laws P" and m: "fresh_metrics P (st_metrics s)"
    and mp: "\<And>path mode. st_loop s = Some (path, mode) \<Longrightarrow> Suc (unat (pm_max_pending_entries mode)) < 2 ^ 64"
  shows "hs_ipc_state (snapshot P (pr_metrics p)) = ''disabled''"
proof (cases "st_loop s")
  case None
  have "snapshot P (st_metrics s) = blank_snapshot Disabled" using m unfolding fresh_metrics_def by blast
  then show ?thesis
    using run_without_loop [OF run] by (simp add: launch_def None blank_snapshot_def)
next
  case (Some pm)
  obtain path mode where loop: "st_loop s = Some (path, mode)" using Some by (cases pm) simp
  obtain c where c: "pr_task p = Some c" "machine_inv P (put_metrics (pr_metrics p) c)"
    using run_machine_inv [OF run loop P m mp [OF loop]] by blast
  then have "cf_phase c = Returned" using returned by (simp add: task_done_def)
  then have "shows_state P Disabled (pr_metrics p)" using c(2) by (simp add: machine_inv_def)
  then show ?thesis by (simp add: shows_state_def snapshot_def ipc_state_from_gauge_def)
qed

end
