(* ===== verification/Sample_Run.thy ===== *)
theory Sample_Run
  imports Samples Sidecar_Process
begin

section \<open>A small run\<close>

text \<open>
  One run of the loop, and of the process around it, at which the properties over runs are
  exercised: connect, receive a top-of-block bid, send it.
\<close>

definition sample_metrics :: "(string list, u64, i64, sample_vec) metrics" where
  "sample_metrics = the (metrics_new sample_prom)"

lemma sample_metrics_new: "metrics_new sample_prom = Some sample_metrics"
  using metrics_new_returns [OF sample_prom_laws]
  by (auto simp: returns_def sample_metrics_def split: option.splits)

lemma sample_metrics_fresh: "fresh_metrics sample_prom sample_metrics"
  by (rule metrics_new_fresh [OF sample_prom_laws sample_metrics_new])

definition sample_mode :: priority_mode where
  "sample_mode = mode_of (default_config\<lparr>cfg_network := Localnet\<rparr>)"

definition calm :: answers where
  "calm = \<lparr>wall_event = 0, prune_at = 0, observe_time = 0, send_ok = (\<lambda>i. True), wall_send = (\<lambda>i. 0)\<rparr>"

text \<open>Connect, receive one top-of-block bid, send it.\<close>

definition sample_event :: "sample_tx event" where
  "sample_event = \<lparr>ev_hash = 3, ev_action = InsertEv (gateway_tx 0 4)\<rparr>"

definition sample_message :: "txhash \<times> sample_tx ipc_tx" where
  "sample_message = (3, \<lparr>ipc_payload = gateway_tx 0 4, ipc_priority = encode_tob_priority 4, extra_data = []\<rparr>)"

lemma sample_mode_fields:
  "pm_policy sample_mode = local_policy" "pm_fallback sample_mode = 0xffff"
  "Suc (unat (pm_max_pending_entries sample_mode)) < 2 ^ 64"
  using mode_of_room [of "default_config\<lparr>cfg_network := Localnet\<rparr>"]
  by (simp_all add: sample_mode_def mode_of_def mode_with_def local_policy_def FALLBACK_PRIORITY_def)

lemma sample_batch:
  fixes st :: "(sample_tx, string list, u64, i64, sample_vec) loop_state"
  assumes "ls_pool st = ls_pool (new_loop_state sample_mode m)" "ls_sent st = ls_sent (new_loop_state sample_mode m)"
  shows "\<exists>st'. process_batch sample_alloy sample_prom it [(sample_event, calm)] st = ([sample_message], False, st')"
proof -
  let ?st = "st\<lparr>ls_metrics := record_event sample_prom ''insert'' (wall_event calm) (ls_metrics st)\<rparr>"
  obtain rs st1 where o: "observe_event sample_alloy sample_prom calm 3 (gateway_tx 0 4) ?st = (rs, st1)" by fastforce
  have p: "policy (ls_pool st) = local_policy" "prune 0 (ls_pool st) = (0, ls_pool st)"
    by (simp_all add: assms new_loop_state_def pool_new_def sample_mode_fields prune_def)
  have rs: "rs = [\<lparr>rj_hash = 3, rj_tx = gateway_tx 0 4, rj_priority = encode_tob_priority 4\<rparr>]"
    using observe_event_effect(2) [OF o]
      observe_tob [of sample_alloy "ls_pool st" "gateway_tx 0 4" "\<lparr>bid_amount = 4, target_tx_hash = 0\<rparr>" 3 0]
    by (simp add: calm_def p sample_to sample_decode_call is_tob_def sample_score)
  have sent: "ls_sent st1 = sent_new (pm_sent_cache_max sample_mode)"
    using observe_event_effect(3) [OF o] assms(2) by (simp add: new_loop_state_def)
  have "sent_len (ls_sent st1) + length rs \<le> unat (max_entries (ls_sent st1))"
    by (simp add: sent rs) (simp add: sent_new_def sent_len_def unat_max_word)
  then have "\<exists>st'. send_loop sample_prom calm 0 rs st1 = (map (\<lambda>r. (rj_hash r, to_ipc r)) rs, False, st')"
    by (intro send_loop_all) (simp_all add: calm_def rs sent)
  then obtain st' where s: "send_loop sample_prom calm 0 rs st1 = ([sample_message], False, st')"
    by (auto simp: rs to_ipc_def sample_message_def)
  have new: "\<not> sent_contains (ls_sent st) 3"
    by (simp add: assms(2) new_loop_state_def sent_contains_keys)
  have "process_event sample_alloy sample_prom it (sample_event, calm) st = ([sample_message], False, st')"
    using o s new by (simp add: process_event_def sample_event_def)
  then show ?thesis by simp
qed

definition sample_labels :: "sample_tx label list" where
  "sample_labels = [Internal, Internal, ConnectOk] @ [Batch [(sample_event, calm)] [sample_message]]"

lemma sample_run:
  "\<exists>c. ipc_path sample_alloy sample_prom ascending (initial sample_mode sample_metrics) sample_labels c
     \<and> cf_phase c = InConnection"
proof -
  let ?st = "with_metrics (\<lambda>m. record_reconnect sample_prom (set_ipc_state sample_prom Connected m))
        (with_metrics (set_ipc_state sample_prom Connecting)
          (with_metrics (set_ipc_state sample_prom Connecting) (new_loop_state sample_mode sample_metrics)))"
  obtain st' where b: "process_batch sample_alloy sample_prom ascending [(sample_event, calm)] ?st
      = ([sample_message], False, st')"
    using sample_batch [of ?st sample_metrics ascending] by auto
  show ?thesis
    unfolding sample_labels_def
    by (rule exI, rule conjI, rule path_snoc [OF initial_connected batch [OF b]]) simp
qed

lemma sample_labels_simps:
  "inserts (received sample_labels) = {(3, gateway_tx 0 4)}" "gone (received sample_labels) = {}"
  "wire_of sample_labels = [sample_message]" "reconnects sample_labels = 1"
  by (simp_all add: reconnects_def sample_labels_def received_def wire_of_def sample_event_def)

text \<open>The same run inside the process.\<close>

definition sample_config :: app_config where
  "sample_config = default_config\<lparr>cfg_network := Localnet, txpool_socket := Some ''sock''\<rparr>"

definition sample_started :: "(string list, u64, i64, sample_vec) started" where
  "sample_started = \<lparr>st_metrics = sample_metrics, st_loop = Some (''sock'', sample_mode)\<rparr>"

definition sample_plabels :: "sample_tx plabel list" where
  "sample_plabels = map Task [Internal, Internal, ConnectOk]
     @ [Arrive [(sample_event, calm)], Event (sample_event, calm) [sample_message]]"

lemma sample_startup: "startup (\<lambda>b. None :: unit option) sample_config sample_metrics = Inr sample_started"
  by (simp add: startup_result sample_config_def sample_started_def sample_mode_def mode_of_def mode_with_def)

lemma sample_loop_view: "loop_view sample_plabels = sample_labels"
  by (simp add: loop_view_def sample_plabels_def sample_labels_def)

lemma sample_process_run:
  "\<exists>p. runs (process_step sample_alloy sample_prom ascending encode display) (launch sample_started) sample_plabels p
     \<and> pr_main p = Serving"
proof -
  let ?step = "process_step sample_alloy sample_prom ascending encode display"
  let ?l = "launch sample_started :: (sample_tx, _, _, _, _) process"
  have l: "pr_main ?l \<notin> {Exited, Failed}" "pr_task ?l = Some (initial sample_mode sample_metrics)" "pr_inbox ?l = []"
    "put_metrics (pr_metrics ?l) (initial sample_mode sample_metrics) = initial sample_mode sample_metrics"
    by (simp_all add: launch_def sample_started_def put_metrics_def initial_def new_loop_state_def)
  obtain p1 c1 where p1: "runs ?step ?l (map Task [Internal, Internal, ConnectOk]) p1" "pr_main p1 = pr_main ?l"
      "pr_inbox p1 = []" "pr_task p1 = Some c1"
    and eq: "put_metrics (pr_metrics p1) c1 = \<lparr>cf_phase = InConnection, cf_shutdown = False, cf_unseen = False,
      cf_state = with_metrics (\<lambda>m. record_reconnect sample_prom (set_ipc_state sample_prom Connected m))
        (with_metrics (set_ipc_state sample_prom Connecting)
          (with_metrics (set_ipc_state sample_prom Connecting) (new_loop_state sample_mode sample_metrics)))\<rparr>"
    using task_run [OF initial_connected _ l, where A = sample_alloy and P = sample_prom and it = ascending
        and encode = encode and display = display] by auto
  have c1: "cf_phase (put_metrics (pr_metrics p1) c1) = InConnection"
      "ls_pool (cf_state (put_metrics (pr_metrics p1) c1)) = ls_pool (new_loop_state sample_mode sample_metrics)"
      "ls_sent (cf_state (put_metrics (pr_metrics p1) c1)) = ls_sent (new_loop_state sample_mode sample_metrics :: (sample_tx, _, _, _, _) loop_state)"
    unfolding eq by simp_all
  obtain st where "process_batch sample_alloy sample_prom ascending [(sample_event, calm)]
      (cf_state (put_metrics (pr_metrics p1) c1)) = ([sample_message], False, st)"
    using sample_batch [OF c1(2,3)] by blast
  then have ev: "process_event sample_alloy sample_prom ascending (sample_event, calm)
      (cf_state (put_metrics (pr_metrics (p1\<lparr>pr_inbox := [(sample_event, calm)]\<rparr>)) c1)) = ([sample_message], False, st)"
    by (simp split: prod.splits if_splits)
  have live: "pr_main p1 \<notin> {Exited, Failed}" using p1(2) by (simp add: launch_def)
  have "cf_phase c1 = InConnection" using c1(1) by simp
  note arr = process_step.arrive [OF live p1(4,3) this, where A = sample_alloy and P = sample_prom and it = ascending
      and encode = encode and display = display and b = "[(sample_event, calm)]"]
  let ?p2 = "p1\<lparr>pr_inbox := [(sample_event, calm)]\<rparr>"
  have "pr_main ?p2 \<notin> {Exited, Failed}" "pr_task ?p2 = Some c1" "pr_inbox ?p2 = (sample_event, calm) # []"
    using live p1(4) by simp_all
  from process_step.event [OF this ev, where encode = encode and display = display]
  obtain p3 where e: "?step ?p2 (Event (sample_event, calm) [sample_message]) p3" "pr_main p3 = pr_main p1" by auto
  have "runs ?step ?l sample_plabels p3"
    unfolding sample_plabels_def
    using runs_append [OF runs_snoc [of ?step, OF runs_one [of ?step, OF arr] e(1)] p1(1)] by simp
  with e(2) p1(2) show ?thesis by (auto simp: launch_def)
qed

end
