(* ===== verification/Loop_Properties.thy ===== *)
theory Loop_Properties
  imports Sample_Run
begin

section \<open>Properties of the loop and of its metrics\<close>

text \<open>Over runs of the transition system from the start of the program, or over one batch.\<close>

subsection \<open>Bounds and states over whole runs\<close>

text \<open>C16: At every moment of every run of a started program the candidate cache and the parked bids are
  at most 4096 each and the dedup cache at most 16384, and the representation invariants of the
  pool and of the dedup cache hold.\<close>
theorem system_bounded:
  assumes "prom_laws P" "fresh_metrics P m" "ipc_path A P it (initial (mode_of cfg) m) ls c"
  shows "cache_len (ls_pool (cf_state c)) \<le> 4096 \<and> unat (pending_len (ls_pool (cf_state c))) \<le> 4096
    \<and> sent_len (ls_sent (cf_state c)) \<le> 16384 \<and> loop_inv (cf_state c)"
  using system_bounds [OF assms] by (simp add: machine_inv_def)

lemma system_bounded_witness:
  "\<exists>c. ipc_path sample_alloy sample_prom ascending (initial sample_mode sample_metrics) sample_labels c
     \<and> cache_len (ls_pool (cf_state c)) \<le> 4096"
  using sample_run system_bounded [OF sample_prom_laws sample_metrics_fresh] unfolding sample_mode_def by blast

text \<open>The connection state that \<open>/health\<close> and the gauge report is that of the loop: connecting
  while it connects or waits to retry, connected while it reads, disabled before it starts and
  after it returned.\<close>
lemma connection_state_shown:
  assumes P: "prom_laws P" and m: "fresh_metrics P m"
    and mp: "Suc (unat (pm_max_pending_entries mode)) < 2 ^ 64"
    and path: "ipc_path A P it (initial mode m) ls c" and phase: "phase_shows (cf_phase c) = {s}"
  shows "hs_ipc_state (snapshot P (ls_metrics (cf_state c))) = ipc_as_str s
    \<and> gauge_get P (txpool_ipc_state (ls_metrics (cf_state c))) = ipc_gauge s"
proof -
  have "machine_inv P c"
    using path_machine_inv [OF path P machine_inv_initial [OF m mp]] by simp
  then have "shows_state P s (ls_metrics (cf_state c))" using phase by (simp add: machine_inv_def)
  then show ?thesis by (simp add: shows_state_def snapshot_def ipc_state_roundtrip)
qed

subsection \<open>What goes out\<close>

text \<open>C5: Over a whole run, every message written to the node is a transaction the node reported before,
  with the priority it earned: a top-of-block bid, a backrun bid behind its target, or the target
  of a reported backrun bid as its opportunity. Other traffic is never reprioritised.\<close>
theorem messages_justified:
  assumes "ipc_path A P it (initial mode m) ls c" "Suc (unat (pm_max_pending_entries mode)) < 2 ^ 64"
    and "x \<in> set (wire_of ls)"
  shows "message_ok A (pm_policy mode) (pm_fallback mode) (inserts (received ls)) x"
  by (rule run_messages_ok [OF assms])

lemma messages_justified_witness:
  "message_ok sample_alloy local_policy 0xffff {(3, gateway_tx 0 4)} sample_message"
proof -
  obtain c where "ipc_path sample_alloy sample_prom ascending (initial sample_mode sample_metrics) sample_labels c"
    using sample_run by blast
  from messages_justified [OF this sample_mode_fields(3), of sample_message]
  show ?thesis by (simp add: sample_labels_simps sample_mode_fields)
qed

text \<open>A backrun bid and its vanilla target that the node reports one after the other, in either order,
  are both written back, the target first, as the opportunity, and the bid behind it with the
  priority of its score: the same two messages whichever was reported first. The second report
  must come before the first expires, with room in the pool and in the dedup cache, both hashes
  new, and the node taking both messages.\<close>
lemma pair_written_in_either_order:
  assumes inv: "loop_inv st" and bid: "backrun_bid_for A (policy (ls_pool st)) btx t" "h \<noteq> t"
    and target: "\<not> to_gateway A (policy (ls_pool st)) tx"
    and new: "t |\<notin>| fmdom (cache (ls_pool st))" "vec_of (pending (ls_pool st)) t = []"
      "h \<notin> sent_keys (ls_sent st)" "t \<notin> sent_keys (ls_sent st)"
    and room: "Suc (cache_len (ls_pool st)) < unat (max_cache_entries (ls_pool st))"
      "unat (pending_len (ls_pool st)) < unat (max_pending_entries (ls_pool st))"
      "sent_len (ls_sent st) + 2 \<le> unat (max_entries (ls_sent st))"
    and clock: "prune_at ans2 - observe_time ans1 < ttl (ls_pool st)" and ok: "\<And>i. send_ok ans2 i"
  shows "let msgs = [(t, \<lparr>ipc_payload = tx, ipc_priority = encode_opportunity_priority t, extra_data = []\<rparr>),
        (h, \<lparr>ipc_payload = btx, ipc_priority =
          encode_backrun_bid_priority t (compute_priority A btx (policy (ls_pool st))), extra_data = []\<rparr>)];
      bid_ev = \<lparr>ev_hash = h, ev_action = InsertEv btx\<rparr>; target_ev = \<lparr>ev_hash = t, ev_action = InsertEv tx\<rparr>
    in (\<exists>st'. process_batch A P it [(bid_ev, ans1), (target_ev, ans2)] st = (msgs, False, st'))
     \<and> (\<exists>st'. process_batch A P it [(target_ev, ans1), (bid_ev, ans2)] st = (msgs, False, st'))"
proof -
  have "pair_room t (ls_pool st)"
    using inv new(1,2) room(1,2) by (simp add: pair_room_def loop_inv_def cache_len_def pending_len_def)
  note pairs = pair_bid_first [OF inv bid target this new(3,4) room(3) clock ok]
    pair_target_first [OF bid target this new(3,4) room(3) clock ok]
  then show ?thesis by (simp add: Let_def opportunity_of_def bid_of_def to_ipc_def)
qed

text \<open>C12: Over a whole run, across reconnects, a hash is written to the node at most once unless the node
  reports its transaction gone, as long as the messages written fit in the dedup cache.\<close>
theorem hash_sent_once:
  assumes "ipc_path A P it (initial mode m) ls c" "h \<notin> gone (received ls)"
    and "length (wire_of ls) \<le> max 1 (unat (pm_sent_cache_max mode))"
  shows "sends h (wire_of ls) \<le> 1"
  by (rule run_sent_once [OF assms])

lemma hash_sent_once_witness: "sends 3 [sample_message] \<le> 1"
proof -
  obtain c where "ipc_path sample_alloy sample_prom ascending (initial sample_mode sample_metrics) sample_labels c"
    using sample_run by blast
  from hash_sent_once [OF this, of 3] show ?thesis by (simp add: sample_labels_simps)
qed

text \<open>After a batch that was processed to its end the candidate cache holds only hashes that were
  inserted after the node last reported them gone: a committed, dropped or evicted transaction is
  no target any more.\<close>
lemma gone_hash_not_cached:
  assumes "loop_inv st" "process_batch A P it batch st = (out, False, st')"
  shows "cache_keys (ls_pool st') \<subseteq> surviving (store_ops batch) (cache_keys (ls_pool st))"
  using process_batch_keys [OF _ assms(2)] assms(1) by (simp add: loop_inv_def)

text \<open>C14: When a vanilla transaction is reported for which bids wait, the wire carries the transaction as
  its opportunity and then every waiting bid, in the order they were parked. This holds if the
  transaction is new, neither a cached candidate nor in the dedup cache, if the waiting bids (those
  that the prune before leaves) are different transactions, none of them in the dedup cache, if the
  dedup cache has room for all these messages, and if the node takes every one of them.\<close>
theorem target_then_bids_on_wire:
  assumes "loop_inv st" "prune (prune_at ans) (ls_pool st) = (ex, p)"
    and "\<not> to_gateway A (policy p) tx" "fmlookup (pending p) h = Some bids"
    and "h |\<notin>| fmdom (cache p)" "h \<notin> sent_keys (ls_sent st)"
    and "distinct (h # map pb_hash bids)" "\<And>b. b \<in> set bids \<Longrightarrow> pb_hash b \<notin> sent_keys (ls_sent st)"
    and "sent_len (ls_sent st) + Suc (length bids) \<le> unat (max_entries (ls_sent st))"
    and "\<And>i. send_ok ans i"
  shows "\<exists>st'. process_event A P it (\<lparr>ev_hash = h, ev_action = InsertEv tx\<rparr>, ans) st =
    ((h, to_ipc (opportunity_of h tx)) # map (\<lambda>b. (pb_hash b, to_ipc (bid_reinjection h b))) bids, False, st')"
  using assms by (rule target_on_wire)

lemma target_then_bids_on_wire_witness:
  "\<exists>st st'. process_event sample_alloy sample_prom ascending
      (\<lparr>ev_hash = 5, ev_action = InsertEv transfer_tx\<rparr>, calm\<lparr>prune_at := 4\<rparr>) st
    = ([(5, to_ipc (opportunity_of 5 transfer_tx)),
        (1, \<lparr>ipc_payload = gateway_tx 5 9, ipc_priority = encode_backrun_bid_priority 5 9, extra_data = []\<rparr>)], False, st')"
proof -
  let ?p = "pool_run sample_alloy ascending [Observe 1 (gateway_tx 5 9) 3] (sample_pool 8 8)"
  let ?b = "\<lparr>pb_hash = 1, pb_tx = gateway_tx 5 9, pb_scalar = 9, pb_target = 5, pb_seen_at = 3\<rparr>"
  let ?st = "\<lparr>ls_pool = ?p, ls_sent = sent_new 8, ls_metrics = sample_metrics\<rparr>"
  have "\<exists>st'. process_event sample_alloy sample_prom ascending
      (\<lparr>ev_hash = 5, ev_action = InsertEv transfer_tx\<rparr>, calm\<lparr>prune_at := 4\<rparr>) ?st
    = ((5, to_ipc (opportunity_of 5 transfer_tx)) # map (\<lambda>b. (pb_hash b, to_ipc (bid_reinjection 5 b))) [?b], False, st')"
  proof (rule target_then_bids_on_wire [where p = ?p])
    show "loop_inv ?st"
      using pool_run_inv [of "sample_pool 8 8" sample_alloy ascending "[Observe 1 (gateway_tx 5 9) 3]"]
      by (simp add: loop_inv_def sent_inv_new sample_pool_def pool_inv_new)
    show "prune (prune_at (calm\<lparr>prune_at := 4\<rparr>)) (ls_pool ?st) = (0, ?p)"
      by (simp add: calm_def sample_prune del: pool_run_simps)
    show "\<not> to_gateway sample_alloy (policy ?p) transfer_tx" "fmlookup (pending ?p) 5 = Some [?b]"
      "5 |\<notin>| fmdom (cache ?p)"
      unfolding sample_parked by (simp_all add: sample_to)
    show "sent_len (ls_sent ?st) + Suc (length [?b]) \<le> unat (max_entries (ls_sent ?st))"
      by (simp add: sent_new_def sent_len_def max_def word_le_nat_alt)
  qed (simp_all add: calm_def)
  then show ?thesis by (auto simp: to_ipc_def bid_reinjection_def)
qed

subsection \<open>What is reported\<close>

text \<open>The metrics can be constructed: no registration meets a name that is taken, so none of the
  19 panics, and the new metrics report a disabled loop, zeros and no timestamps.\<close>
lemma metrics_construction:
  assumes "prom_laws P"
  shows "\<exists>m. metrics_new P = Some m \<and> snapshot P m = blank_snapshot Disabled
    \<and> rev (registered P (registry m)) = metric_names \<and> length metric_names = 19"
  using metrics_new_returns [OF assms] by (auto simp: returns_def fresh_metrics_def metric_names_def split: option.splits)

text \<open>C34: The gauges of the pairing pool are right after every insert that is not an echo. A commit, drop or
  eviction changes the pool and leaves them as they were, so they can lag behind it.\<close>
theorem backrun_gauges_follow_inserts:
  assumes P: "prom_laws P" and run: "process_event A P it (ev, ans) st = (out, failed, st')"
  shows "(if \<exists>tx. ev_action ev = InsertEv tx
      then sent_contains (ls_sent st) (ev_hash ev) \<or> pool_gauges_ok P st'
      else ls_pool st' = forget it (ev_hash ev) (ls_pool st)
        \<and> backrun_pending (ls_metrics st') = backrun_pending (ls_metrics st)
        \<and> backrun_cache (ls_metrics st') = backrun_cache (ls_metrics st))"
proof (cases "\<exists>tx. ev_action ev = InsertEv tx")
  case True
  then show ?thesis using insert_pool_gauges [OF P run] by auto
next
  case False
  with run show ?thesis
    by (cases rule: process_event_cases) (simp_all add: record_event_def set_sent_cache_def Let_def)
qed

lemma backrun_gauges_follow_inserts_witness:
  "\<exists>st out failed st'. process_event sample_alloy sample_prom ascending (\<lparr>ev_hash = 1, ev_action = CommitEv\<rparr>, calm) st = (out, failed, st')
     \<and> pool_gauges_ok sample_prom st \<and> cache_len (ls_pool st') = 0
     \<and> gauge_get sample_prom (backrun_cache (ls_metrics st')) = 1"
proof -
  let ?st = "\<lparr>ls_pool = pool_run sample_alloy ascending [Observe 1 (gateway_tx 5 9) 3] (sample_pool 8 8), ls_sent = sent_new 8,
    ls_metrics = set_backrun_pending sample_prom 1 (set_backrun_cache sample_prom 1 sample_metrics)\<rparr>"
  obtain out failed st' where run: "process_event sample_alloy sample_prom ascending
      (\<lparr>ev_hash = 1, ev_action = CommitEv\<rparr>, calm) ?st = (out, failed, st')"
    using prod_cases3 by blast
  have g: "gauge_get sample_prom (backrun_cache (ls_metrics ?st)) = 1" "pool_gauges_ok sample_prom ?st"
    unfolding pool_gauges_ok_def
    by (simp_all only: loop_state.simps sample_parked)
       (simp_all add: set_backrun_pending_def set_backrun_cache_def sample_prom_def pending_len_def cache_len_def hm_len_fmupd)
  have "ls_pool st' = forget ascending 1 (ls_pool ?st)" "backrun_cache (ls_metrics st') = backrun_cache (ls_metrics ?st)"
    using backrun_gauges_follow_inserts [OF sample_prom_laws run] by simp_all
  moreover have "cache_len (forget ascending 1 (ls_pool ?st)) = 0"
    by (simp only: loop_state.simps sample_parked) (simp add: cache_len_def forget_def hm_len_fmdrop hm_len_fmupd split: prod.splits)
  ultimately show ?thesis using run g by (metis (no_types))
qed

subsection \<open>Failures, shutdown\<close>

text \<open>A send loop that fails: what it wrote comes before the reinjection that failed, whose hash is not
  remembered.\<close>
lemma send_loop_failed:
  "send_loop P ans i rs st = (out, True, st') \<Longrightarrow> \<exists>sent r lost. rs = sent @ r # lost
     \<and> set out \<subseteq> (\<lambda>r. (rj_hash r, to_ipc r)) ` set sent \<and> rj_hash r \<notin> sent_keys (ls_sent st')"
proof (induction rs arbitrary: i st out)
  case (Cons r rs)
  have later: ?case if "set out \<subseteq> insert (rj_hash r, to_ipc r) (set out')" "send_loop P ans j rs st1 = (out', True, st')" for j st1 out'
  proof -
    note l = that
    obtain sent r' lost where "rs = sent @ r' # lost" "set out' \<subseteq> (\<lambda>r. (rj_hash r, to_ipc r)) ` set sent"
      "rj_hash r' \<notin> sent_keys (ls_sent st')"
      using Cons.IH [OF l(2)] by blast
    then show ?thesis using l(1) by (intro exI [of _ "r # sent"] exI [of _ r'] exI [of _ lost]) auto
  qed
  from Cons.prems show ?case
  proof (cases rule: send_loop_cases)
    case (send r' rs' ev s out')
    then show ?thesis using later [of out'] by simp
  next
    case (fail r' rs')
    then show ?thesis by (intro exI [of _ "[]"] exI [of _ r] exI [of _ rs]) (simp add: sent_contains_keys)
  qed (use later [of out i st] in auto)
qed simp

text \<open>What an arriving target leaves in the pool: its bids are out, it is marked, and a second report of
  it brings nothing back.\<close>
lemma arrived_target:
  assumes "\<not> to_gateway A (policy p) tx" "fmlookup (pending p) h = Some bids" "observe_at A h tx now p = (res, p')"
  shows "\<exists>opp. reinjections res = opp @ map (bid_reinjection h) bids" "vec_of (pending p') h = []"
    "h |\<in>| fmdom (cache p') \<Longrightarrow> h |\<in>| streamed_targets p'" "reinjections (fst (observe_at A h tx now' p')) = []"
proof -
  note o = observe_target [OF assms(1,2) refl, of now, unfolded assms(3)]
  show "\<exists>opp. reinjections res = opp @ map (bid_reinjection h) bids" "vec_of (pending p') h = []"
    "h |\<in>| fmdom (cache p') \<Longrightarrow> h |\<in>| streamed_targets p'"
    using o by (auto simp: mark_streamed_def)
  have "\<not> to_gateway A (policy p') tx" "fmlookup (pending p') h = None" using o assms(1) by simp_all
  then show "reinjections (fst (observe_at A h tx now' p')) = []"
    by (simp add: observe_vanilla default_result_def)
qed

text \<open>A batch with a failed send is one step, back to connecting.\<close>
lemma failed_batch_step:
  assumes pre: "process_batch A P it pre st = (out, False, st1)" and fail: "process_event A P it (ev, ans) st1 = (out', True, st2)"
  shows "ipc_step A P it \<lparr>cf_phase = InConnection, cf_shutdown = sd, cf_unseen = un, cf_state = st\<rparr>
      (Batch (pre @ (ev, ans) # rest) ws) c
    \<longleftrightarrow> ws = out @ out' \<and> c = \<lparr>cf_phase = LoopTop, cf_shutdown = sd, cf_unseen = un, cf_state = st2\<rparr>" (is "?step \<longleftrightarrow> ?result")
proof -
  have run: "process_batch A P it (pre @ (ev, ans) # rest) st = (out @ out', True, st2)"
    using pre
  proof (induction pre arbitrary: st out)
    case Nil
    then show ?case using fail by simp
  next
    case (Cons ea pre)
    then show ?case by (auto split: prod.splits if_splits)
  qed
  show ?thesis
  proof
    assume ?step
    then show ?result using run by (auto elim!: ipc_step_Batch)
  next
    assume ?result
    then show ?step using ipc_step.batch [OF run, of sd un] by simp
  qed
qed

text \<open>C32: A failed send ends the connection: the messages of the batch are those written before the
  failure, the events after it are dropped, the loop goes back to connecting, and the failure is
  counted once. The pool keeps the effect of the transaction whose reinjection failed, although not
  all of its reinjections were written: those from some reinjection on were not. If it is a target
  for which bids wait, the bids are taken out and the target, while it is cached, is marked as handed
  out, and a second report of the target brings none of them back.\<close>
theorem failed_send_drops_rest:
  assumes P: "prom_laws P" and pre: "process_batch A P it pre st = (out, False, st1)"
    and fail: "process_event A P it (ev, ans) st1 = (out', True, st2)"
    and prune: "prune (prune_at ans) (ls_pool st1) = (ex, p)"
  shows "(ipc_step A P it \<lparr>cf_phase = InConnection, cf_shutdown = sd, cf_unseen = un, cf_state = st\<rparr>
        (Batch (pre @ (ev, ans) # rest) ws) c
      \<longleftrightarrow> ws = out @ out' \<and> c = \<lparr>cf_phase = LoopTop, cf_shutdown = sd, cf_unseen = un, cf_state = st2\<rparr>)
    \<and> failure_count P (ls_metrics st2) = failure_count P (ls_metrics st) + 1
    \<and> (\<exists>tx res. ev_action ev = InsertEv tx
        \<and> observe_at A (ev_hash ev) tx (observe_time ans) p = (res, ls_pool st2)
        \<and> (\<exists>written r lost. reinjections res = written @ r # lost
            \<and> set out' \<subseteq> (\<lambda>r. (rj_hash r, to_ipc r)) ` set written \<and> rj_hash r \<notin> sent_keys (ls_sent st2))
        \<and> (\<forall>bids. \<not> to_gateway A (policy p) tx \<and> fmlookup (pending p) (ev_hash ev) = Some bids \<longrightarrow>
            (\<exists>opp. reinjections res = opp @ map (bid_reinjection (ev_hash ev)) bids)
            \<and> vec_of (pending (ls_pool st2)) (ev_hash ev) = []
            \<and> (ev_hash ev |\<in>| fmdom (cache (ls_pool st2)) \<longrightarrow> ev_hash ev |\<in>| streamed_targets (ls_pool st2))
            \<and> (\<forall>now. reinjections (fst (observe_at A (ev_hash ev) tx now (ls_pool st2))) = [])))"
proof (intro conjI)
  show "ipc_step A P it \<lparr>cf_phase = InConnection, cf_shutdown = sd, cf_unseen = un, cf_state = st\<rparr>
        (Batch (pre @ (ev, ans) # rest) ws) c
      \<longleftrightarrow> ws = out @ out' \<and> c = \<lparr>cf_phase = LoopTop, cf_shutdown = sd, cf_unseen = un, cf_state = st2\<rparr>"
    by (rule failed_batch_step [OF pre fail])
  show "failure_count P (ls_metrics st2) = failure_count P (ls_metrics st) + 1"
    using process_batch_metrics(2) [OF P pre] process_event_metrics(2) [OF P fail] by simp
  from fail obtain tx rs st3 where tx: "ev_action ev = InsertEv tx" and o: "observe_event A P ans (ev_hash ev) tx
      (st1\<lparr>ls_metrics := record_event P (event_kind (ev_action ev)) (wall_event ans) (ls_metrics st1)\<rparr>) = (rs, st3)"
    and s: "send_loop P ans 0 rs st3 = (out', True, st2)"
    by (cases rule: process_event_cases) auto
  obtain res p' where obs: "observe_at A (ev_hash ev) tx (observe_time ans) p = (res, p')" by fastforce
  have "ls_pool st2 = p'" "rs = reinjections res"
    using observe_event_effect(1) [OF o, where it = it] observe_event_effect(2) [OF o] send_loop_effect [OF s] prune obs by simp_all
  with send_loop_failed [OF s] obs arrived_target [OF _ _ obs] tx
  show "\<exists>tx res. ev_action ev = InsertEv tx
        \<and> observe_at A (ev_hash ev) tx (observe_time ans) p = (res, ls_pool st2)
        \<and> (\<exists>written r lost. reinjections res = written @ r # lost
            \<and> set out' \<subseteq> (\<lambda>r. (rj_hash r, to_ipc r)) ` set written \<and> rj_hash r \<notin> sent_keys (ls_sent st2))
        \<and> (\<forall>bids. \<not> to_gateway A (policy p) tx \<and> fmlookup (pending p) (ev_hash ev) = Some bids \<longrightarrow>
            (\<exists>opp. reinjections res = opp @ map (bid_reinjection (ev_hash ev)) bids)
            \<and> vec_of (pending (ls_pool st2)) (ev_hash ev) = []
            \<and> (ev_hash ev |\<in>| fmdom (cache (ls_pool st2)) \<longrightarrow> ev_hash ev |\<in>| streamed_targets (ls_pool st2))
            \<and> (\<forall>now. reinjections (fst (observe_at A (ev_hash ev) tx now (ls_pool st2))) = []))"
    by (intro exI [of _ tx] exI [of _ res]) simp
qed

text \<open>A bid is parked, its target arrives, the first send succeeds and the second one fails: the target is
  written, the bid is not, and both the bid and the event behind are gone.\<close>
lemma failed_send_drops_rest_witness:
  "\<exists>st st2. process_batch sample_alloy sample_prom ascending
      [(\<lparr>ev_hash = 5, ev_action = InsertEv transfer_tx\<rparr>, calm\<lparr>prune_at := 4, send_ok := \<lambda>i. i = 0\<rparr>), (sample_event, calm)] st
      = ([(5, to_ipc (opportunity_of 5 transfer_tx))], True, st2)
    \<and> map pb_hash (vec_of (pending (ls_pool st)) 5) = [1] \<and> vec_of (pending (ls_pool st2)) 5 = []
    \<and> reinjections (fst (observe_at sample_alloy 5 transfer_tx 6 (ls_pool st2))) = []"
proof -
  let ?p = "pool_run sample_alloy ascending [Observe 1 (gateway_tx 5 9) 3] (sample_pool 8 8)"
  let ?b = "\<lparr>pb_hash = 1, pb_tx = gateway_tx 5 9, pb_scalar = 9, pb_target = 5, pb_seen_at = 3\<rparr>"
  let ?st = "\<lparr>ls_pool = ?p, ls_sent = sent_new 8, ls_metrics = sample_metrics\<rparr>"
  let ?ans = "calm\<lparr>prune_at := 4, send_ok := \<lambda>i. i = 0\<rparr>"
  let ?ev = "\<lparr>ev_hash = 5, ev_action = InsertEv transfer_tx\<rparr>"
  have prune: "prune (prune_at ?ans) (ls_pool ?st) = (0, ?p)" by (simp add: sample_prune del: pool_run_simps)
  have waiting: "\<not> to_gateway sample_alloy (policy ?p) transfer_tx" "fmlookup (pending ?p) 5 = Some [?b]" "5 |\<notin>| fmdom (cache ?p)"
    unfolding sample_parked by (simp_all add: sample_to)
  obtain rs st1 where o: "observe_event sample_alloy sample_prom ?ans 5 transfer_tx
      (?st\<lparr>ls_metrics := record_event sample_prom ''insert'' (wall_event ?ans) (ls_metrics ?st)\<rparr>) = (rs, st1)" by fastforce
  have "rs = [opportunity_of 5 transfer_tx, bid_reinjection 5 ?b]"
    using observe_event_effect(2) [OF o] prune
      target_flush [OF sample_parked_inv prune [unfolded loop_state.simps] _ waiting(2,3), of sample_alloy transfer_tx] waiting(1)
    by (simp del: pool_run_simps)
  moreover have "ls_sent st1 = sent_new 8" using observe_event_effect(3) [OF o] by simp
  moreover have "\<exists>s. sent_insert 5 prio (sent_new 8) = (0, s) \<and> \<not> sent_contains s 1" for prio
    by (simp add: sent_insert_def sent_new_def sent_contains_def Let_def hm_len_fmupd max_def word_le_nat_alt)
  then obtain s where "sent_insert 5 (encode_opportunity_priority 5) (sent_new 8) = (0, s)" "\<not> sent_contains s 1" by blast
  moreover have "\<not> sent_contains (sent_new 8) 5" by (simp add: sent_contains_keys)
  ultimately obtain st2 where run: "process_event sample_alloy sample_prom ascending (?ev, ?ans) ?st
      = ([(5, to_ipc (opportunity_of 5 transfer_tx))], True, st2)"
    using o by (auto simp: process_event_def opportunity_of_def bid_reinjection_def Let_def)
  note f = failed_send_drops_rest [OF sample_prom_laws _ run, of "[]" ?st "[]" 0 ?p False False "[(sample_event, calm)]"
      "[(5, to_ipc (opportunity_of 5 transfer_tx))]" "\<lparr>cf_phase = LoopTop, cf_shutdown = False, cf_unseen = False, cf_state = st2\<rparr>"]
  have "process_batch sample_alloy sample_prom ascending [] ?st = ([], False, ?st)" by simp
  note g = f [OF this prune]
  have "ipc_step sample_alloy sample_prom ascending \<lparr>cf_phase = InConnection, cf_shutdown = False, cf_unseen = False, cf_state = ?st\<rparr>
      (Batch ([] @ (?ev, ?ans) # [(sample_event, calm)]) [(5, to_ipc (opportunity_of 5 transfer_tx))])
      \<lparr>cf_phase = LoopTop, cf_shutdown = False, cf_unseen = False, cf_state = st2\<rparr>"
    using conjunct1 [OF g] by simp
  then have batch: "process_batch sample_alloy sample_prom ascending [(?ev, ?ans), (sample_event, calm)] ?st
      = ([(5, to_ipc (opportunity_of 5 transfer_tx))], True, st2)"
    by (cases rule: ipc_step.cases) (simp_all split: if_splits)
  have lost: "vec_of (pending (ls_pool st2)) 5 = [] \<and> reinjections (fst (observe_at sample_alloy 5 transfer_tx 6 (ls_pool st2))) = []"
    using conjunct2 [OF conjunct2 [OF g]] waiting(1,2) by auto
  have "map pb_hash (vec_of (pending ?p) 5) = [1]" using waiting(2) by (simp add: vec_of_def)
  with batch lost show ?thesis by (intro exI [of _ ?st] exI [of _ st2]) simp
qed

text \<open>C20: Once the shutdown signal is sent, from every moment of every run the loop can return within
  three steps of its own with nothing arriving from the node, and it then reports itself disabled;
  and every step it takes keeps the signal and brings it closer to returning, unless it reads a
  batch on the open connection or the signal is sent again.\<close>
theorem shutdown_honoured:
  assumes P: "prom_laws P" and m: "fresh_metrics P m"
    and mp: "Suc (unat (pm_max_pending_entries mode)) < 2 ^ 64"
    and path: "ipc_path A P it (initial mode m) ls c" and sd: "cf_shutdown c"
  shows "(\<exists>ls' c'. ipc_path A P it c ls' c' \<and> length ls' \<le> 3 \<and> set ls' \<subseteq> {Internal, Changed, ConnectFail}
      \<and> cf_phase c' = Returned \<and> hs_ipc_state (snapshot P (ls_metrics (cf_state c'))) = ''disabled'')
    \<and> (\<forall>l c'. ipc_step A P it c l c' \<longrightarrow> cf_shutdown c'
        \<and> (phase_rank (cf_phase c') < phase_rank (cf_phase c)
           \<or> (l = Signal \<or> (\<exists>b out. l = Batch b out)) \<and> cf_phase c' = cf_phase c))"
proof
  have inv: "machine_inv P c"
    using path_machine_inv [OF path P machine_inv_initial [OF m mp]] by simp
  obtain ls' c' where "ipc_path A P it c ls' c'" "length ls' \<le> 3" "set ls' \<subseteq> {Internal, Changed, ConnectFail}"
    "cf_phase c' = Returned" "shows_state P Disabled (ls_metrics (cf_state c'))"
    using shutdown_returns [OF inv sd P, of A it] by blast
  moreover from this(5) have "hs_ipc_state (snapshot P (ls_metrics (cf_state c'))) = ''disabled''"
    by (simp add: shows_state_def snapshot_def ipc_state_from_gauge_def)
  ultimately show "\<exists>ls' c'. ipc_path A P it c ls' c' \<and> length ls' \<le> 3 \<and> set ls' \<subseteq> {Internal, Changed, ConnectFail}
      \<and> cf_phase c' = Returned \<and> hs_ipc_state (snapshot P (ls_metrics (cf_state c'))) = ''disabled''"
    by blast
  show "\<forall>l c'. ipc_step A P it c l c' \<longrightarrow> cf_shutdown c'
        \<and> (phase_rank (cf_phase c') < phase_rank (cf_phase c)
           \<or> (l = Signal \<or> (\<exists>b out. l = Batch b out)) \<and> cf_phase c' = cf_phase c)"
    using shutdown_progress [OF _ sd] by blast
qed

lemma shutdown_honoured_witness:
  "\<exists>ls c. ipc_path sample_alloy sample_prom ascending (initial sample_mode sample_metrics) ls c \<and> cf_phase c = Returned
     \<and> hs_ipc_state (snapshot sample_prom (ls_metrics (cf_state c))) = ''disabled''"
proof -
  have sig: "ipc_path sample_alloy sample_prom ascending (initial sample_mode sample_metrics) [Signal]
      ((initial sample_mode sample_metrics)\<lparr>cf_shutdown := True, cf_unseen := True\<rparr>)"
    unfolding initial_def by (simp add: path_one [OF signal])
  from shutdown_honoured [OF sample_prom_laws sample_metrics_fresh sample_mode_fields(3) sig, THEN conjunct1]
  obtain ls c where "ipc_path sample_alloy sample_prom ascending
      ((initial sample_mode sample_metrics)\<lparr>cf_shutdown := True, cf_unseen := True\<rparr>) ls c" "cf_phase c = Returned"
    "hs_ipc_state (snapshot sample_prom (ls_metrics (cf_state c))) = ''disabled''" by auto
  then show ?thesis using path_append [OF sig] by blast
qed

end
