(* ===== verification/Pool_Window.thy ===== *)
theory Pool_Window
  imports Pool_Expiry
begin

section \<open>A stretch within the bounds of the pool\<close>

text \<open>
  While everything the pool holds is younger than the time to live and fits its capacities,
  nothing expires and nothing is evicted: a cached transaction stays until it is forgotten, a
  parked bid stays until its target arrives, and what arrives is paired with it. These are the
  facts behind the pairing of a bid and its target across other traffic.
\<close>

text \<open>At most \<open>n\<close> cached transactions and parked bids, observed at instants of \<open>T\<close>.\<close>

definition within :: "instant set \<Rightarrow> nat \<Rightarrow> 'tx pending_pool \<Rightarrow> bool" where
  "within T n p \<longleftrightarrow> pool_inv p \<and> hm_len (cache p) \<le> n \<and> hm_total (pending p) \<le> n
     \<and> (\<forall>k c. fmlookup (cache p) k = Some c \<longrightarrow> ct_seen_at c \<in> T)
     \<and> (\<forall>u. \<forall>b \<in> set (vec_of (pending p) u). pb_seen_at b \<in> T)"

lemma withinD:
  assumes "within T n p"
  shows "pool_inv p" "hm_len (cache p) \<le> n" "hm_total (pending p) \<le> n"
    "fmlookup (cache p) k = Some c \<Longrightarrow> ct_seen_at c \<in> T" "b \<in> set (vec_of (pending p) u) \<Longrightarrow> pb_seen_at b \<in> T"
  using assms by (auto simp: within_def)

lemma withinI:
  assumes "pool_inv p" "hm_len (cache p) \<le> n" "hm_total (pending p) \<le> n"
    "\<And>k c. fmlookup (cache p) k = Some c \<Longrightarrow> ct_seen_at c \<in> T" "\<And>b u. b \<in> set (vec_of (pending p) u) \<Longrightarrow> pb_seen_at b \<in> T"
  shows "within T n p"
  using assms by (auto simp: within_def)

lemma within_new: "Suc (unat mp) < 2 ^ 64 \<Longrightarrow> within {} 0 (pool_new pol fb t mc mp)"
  by (rule withinI) (simp_all add: pool_inv_new, simp_all add: pool_new_def)

lemma within_mono: "within T n p \<Longrightarrow> T \<subseteq> T' \<Longrightarrow> n \<le> n' \<Longrightarrow> within T' n' p"
  by (auto simp: within_def)

subsection \<open>A prune takes nothing\<close>

lemma within_prune:
  assumes w: "within T n p" and young: "\<forall>s \<in> T. now - s < ttl p" and pr: "prune now p = (ex, p')"
  shows "within T n p'" "cache p' = cache p" "vec_of (pending p') u = vec_of (pending p) u"
    "streamed_targets p' |\<subseteq>| streamed_targets p" "pool_config p' = pool_config p"
proof -
  note D = withinD [OF w]
  note pi = prune_inv [OF D(1) pr]
  have kept: "fmlookup (cache p') k = fmlookup (cache p) k" for k
  proof (cases "fmlookup (cache p) k")
    case None
    then have "k |\<notin>| fmdom (cache p')" using pi(3) by (metis fmdom_notI fsubsetD)
    then show ?thesis using None by (simp add: fmdom_notD)
  next
    case (Some c)
    then show ?thesis using prune_young(3) [OF pr Some] young D(4) [OF Some] by simp
  qed
  then show cache: "cache p' = cache p" by (rule fmap_ext)
  have vec: "vec_of (pending p') u = vec_of (pending p) u" for u
    using young D(5) by (intro prune_keeps_young [OF pr]) (simp add: young_def)
  then show "vec_of (pending p') u = vec_of (pending p) u" .
  show "streamed_targets p' |\<subseteq>| streamed_targets p"
    using prune_streamed_subset [OF pr] by (simp add: less_eq_fset.rep_eq)
  show "within T n p'"
    by (rule withinI) (use pi(1,8) D cache vec in \<open>auto intro: order_trans\<close>)
  show "pool_config p' = pool_config p" by (rule pi(2))
qed

subsection \<open>An observation evicts nothing\<close>

lemma within_insert:
  assumes w: "within T n p" and room: "n < unat (max_cache_entries p)"
  shows "cache (insert_cache h tx now p) = fmupd h \<lparr>ct_tx = tx, ct_seen_at = now\<rparr> (cache p)"
    "streamed_targets (insert_cache h tx now p) = streamed_targets p"
proof -
  have "hm_len (cache p) < unat (max_cache_entries p)" "hm_len (cache p) \<le> unat (max_cache_entries p)"
    using withinD(2) [OF w] room by simp_all
  then show "cache (insert_cache h tx now p) = fmupd h \<lparr>ct_tx = tx, ct_seen_at = now\<rparr> (cache p)"
    "streamed_targets (insert_cache h tx now p) = streamed_targets p"
    using insert_cache_room [of p h] by simp_all
qed

lemma observe_total:
  assumes inv: "pool_inv p" and obs: "observe_at A h tx now p = (res, p')"
  shows "hm_total (pending p') \<le> Suc (hm_total (pending p))"
proof (cases rule: observe_cases [where A = A and p = p and tx = tx and h = h and now = now])
  case (parked call ev p2)
  then show ?thesis
    using obs push_pending_inv(7) [OF insert_cache_inv(1) [OF inv] parked(5)]
    by (simp add: observe_parked [OF parked(1,2,3) refl parked(4,5)])
next
  case (target bids)
  then show ?thesis
    using obs hm_total_fmdrop_le [of h "pending p"] by (auto simp: observe_target [OF target refl])
qed (use obs in \<open>auto simp: observe_invalid observe_tob observe_paired [OF _ _ _ refl] observe_vanilla\<close>)

lemma within_observe:
  assumes w: "within T n p" and room: "n < unat (max_cache_entries p)" and obs: "observe_at A h tx now p = (res, p')"
  shows "within (insert now T) (Suc n) p'" "k |\<in>| fmdom (cache p') \<longleftrightarrow> k = h \<or> k |\<in>| fmdom (cache p)"
proof -
  note D = withinD [OF w]
  have cache: "cache p' = fmupd h \<lparr>ct_tx = tx, ct_seen_at = now\<rparr> (cache p)"
    by (simp add: observe_cache [OF D(1) obs] within_insert [OF w room])
  show "k |\<in>| fmdom (cache p') \<longleftrightarrow> k = h \<or> k |\<in>| fmdom (cache p)" by (simp add: cache)
  show "within (insert now T) (Suc n) p'"
  proof (rule withinI)
    show "pool_inv p'" by (rule observe_inv(1) [OF D(1) obs])
    show "hm_len (cache p') \<le> Suc n" using D(2) by (simp add: cache hm_len_fmupd)
    show "hm_total (pending p') \<le> Suc n" using observe_total [OF D(1) obs] D(3) by simp
    show "ct_seen_at c \<in> insert now T" if "fmlookup (cache p') k = Some c" for k c
      using that D(4) [of k c] by (auto simp: cache split: if_splits)
    show "pb_seen_at b \<in> insert now T" if "b \<in> set (vec_of (pending p') u)" for b u
      using observe_vec [OF D(1) obs that] D(5) [of b u] by auto
  qed
qed

subsection \<open>What an observation does to a pair\<close>

text \<open>The hashes a result reinjects.\<close>

definition reinjected :: "'tx observe_result \<Rightarrow> txhash set" where
  "reinjected res = rj_hash ` set (reinjections res)"

lemma observe_bid:
  assumes w: "within T n p" and room: "n < unat (max_cache_entries p)" "n < unat (max_pending_entries p)"
    and obs: "observe_at A h tx now p = (res, p')" and bid: "backrun_bid_for A (policy p) tx t"
  shows "if t |\<in>| fmdom (cache p') then h \<in> reinjected res \<and> (t \<in> reinjected res \<or> t |\<in>| streamed_targets p)
    else \<exists>b \<in> set (vec_of (pending p') t). pb_hash b = h"
proof -
  note D = withinD [OF w]
  obtain call where call: "to_gateway A (policy p) tx" "decode_gateway_call A tx = Some call" "\<not> is_tob call"
    "target_tx_hash call = t"
    using bid by (rule backrun_bid_for_decode)
  let ?p1 = "insert_cache h tx now p"
  note ins = within_insert [OF w room(1), of h tx now]
  have dom: "t |\<in>| fmdom (cache p') \<longleftrightarrow> t |\<in>| fmdom (cache ?p1)" by (simp add: observe_cache [OF D(1) obs])
  show ?thesis
  proof (cases "t |\<in>| fmdom (cache ?p1)")
    case True
    then obtain c where c: "fmlookup (cache ?p1) t = Some c" by (auto simp: fmlookup_dom_iff)
    have "t |\<in>| streamed_targets p \<or> opportunity ?p1 t = [\<lparr>rj_hash = t, rj_tx = ct_tx c, rj_priority = encode_opportunity_priority t\<rparr>]"
      by (simp add: opportunity_def c ins(2))
    then show ?thesis
      using obs True observe_paired [OF call(1-3) refl, of h now] by (auto simp: dom call(4) reinjected_def)
  next
    case False
    have cap: "max_pending_entries ?p1 = max_pending_entries p" "pending_count ?p1 = pending_count p" "pending ?p1 = pending p"
      using insert_cache_inv(2,3,5) [OF D(1), of h tx now] by (simp_all add: pool_config_def)
    have "unat (pending_count ?p1) < unat (max_pending_entries ?p1)"
      using D(1,3) room(2) by (simp add: cap pool_inv_def bids_ok_def)
    note push = push_pending_room [OF insert_cache_inv(1) [OF D(1)] this, of "new_bid A (policy p) h tx now call"]
    have "p' = ?p1\<lparr>pending := fmupd t (vec_of (pending p) t @ [new_bid A (policy p) h tx now call]) (pending p),
        pending_order := pending_order ?p1 @ [(t, h)], pending_count := pending_count ?p1 + 1\<rparr>"
      using obs observe_parked [OF call(1-3) refl _ push] False by (simp add: call(4) new_bid_def cap)
    then show ?thesis using False by (simp add: dom new_bid_def)
  qed
qed

lemma observe_target_arrives:
  assumes w: "within T n p" and room: "n < unat (max_cache_entries p)"
    and obs: "observe_at A t tx now p = (res, p')" and van: "\<not> to_gateway A (policy p) tx"
  shows "vec_of (pending p') t = []"
    "b \<in> set (vec_of (pending p) t) \<Longrightarrow> pb_hash b \<in> reinjected res \<and> (t \<in> reinjected res \<or> t |\<in>| streamed_targets p)"
proof -
  let ?p1 = "insert_cache t tx now p"
  note ins = within_insert [OF w room, of t tx now]
  have opp: "t |\<in>| streamed_targets p \<or> opportunity ?p1 t = [\<lparr>rj_hash = t, rj_tx = tx, rj_priority = encode_opportunity_priority t\<rparr>]"
    by (simp add: opportunity_def ins)
  show "vec_of (pending p') t = []"
    using obs by (cases "fmlookup (pending p) t")
      (auto simp: observe_target [OF van _ refl] observe_vanilla [OF van] vec_of_def)
  show "pb_hash b \<in> reinjected res \<and> (t \<in> reinjected res \<or> t |\<in>| streamed_targets p)"
    if waiting: "b \<in> set (vec_of (pending p) t)"
  proof -
    obtain bids where bids: "fmlookup (pending p) t = Some bids" "b \<in> set bids"
      using waiting by (cases "fmlookup (pending p) t") (auto simp: vec_of_def)
    then show ?thesis
      using obs opp by (auto simp: observe_target [OF van bids(1) refl] reinjected_def bid_reinjection_def image_image image_Un)
  qed
qed

text \<open>Any other observation leaves the bids of the target where they are.\<close>

lemma observe_others:
  assumes w: "within T n p" and room: "n < unat (max_pending_entries p)"
    and obs: "observe_at A h tx now p = (res, p')" and other: "h \<noteq> t"
  shows "set (vec_of (pending p) t) \<subseteq> set (vec_of (pending p') t)"
    "t |\<in>| fmdom (cache p) \<Longrightarrow> t |\<in>| fmdom (cache p') \<Longrightarrow> vec_of (pending p) t = [] \<Longrightarrow> vec_of (pending p') t = []"
proof -
  note D = withinD [OF w]
  have "set (vec_of (pending p) t) \<subseteq> set (vec_of (pending p') t)
    \<and> (t |\<in>| fmdom (cache p) \<longrightarrow> t |\<in>| fmdom (cache p') \<longrightarrow> vec_of (pending p) t = [] \<longrightarrow> vec_of (pending p') t = [])"
  proof (cases rule: observe_cases [where A = A and p = p and tx = tx and h = h and now = now])
    case (parked call ev p2)
    let ?p1 = "insert_cache h tx now p"
    have cap: "max_pending_entries ?p1 = max_pending_entries p" "pending_count ?p1 = pending_count p" "pending ?p1 = pending p"
      using insert_cache_inv(2,3,5) [OF D(1), of h tx now] by (simp_all add: pool_config_def)
    have "unat (pending_count ?p1) < unat (max_pending_entries ?p1)"
      using D(1,3) room by (simp add: cap pool_inv_def bids_ok_def)
    note push = push_pending_room [OF insert_cache_inv(1) [OF D(1)] this, of "new_bid A (policy p) h tx now call"]
    let ?t = "target_tx_hash call"
    have "p' = p2" using obs by (simp add: observe_parked [OF parked(1,2,3) refl parked(4,5)])
    then have "pending p' = fmupd ?t (vec_of (pending p) ?t @ [new_bid A (policy p) h tx now call]) (pending p)"
      using parked(5) unfolding push by (auto simp: cap new_bid_def)
    then show ?thesis
      using parked(4) by (auto simp: observe_cache [OF D(1) obs])
  next
    case (target bids)
    then show ?thesis using obs other by (auto simp: observe_target [OF target refl])
  qed (use obs in \<open>auto simp: observe_invalid observe_tob observe_paired [OF _ _ _ refl] observe_vanilla\<close>)
  then show "set (vec_of (pending p) t) \<subseteq> set (vec_of (pending p') t)"
    "t |\<in>| fmdom (cache p) \<Longrightarrow> t |\<in>| fmdom (cache p') \<Longrightarrow> vec_of (pending p) t = [] \<Longrightarrow> vec_of (pending p') t = []"
    by blast+
qed

lemma observe_marks:
  assumes w: "within T n p" and room: "n < unat (max_cache_entries p)" and obs: "observe_at A h tx now p = (res, p')"
    and t: "t |\<in>| streamed_targets p'"
  shows "t |\<in>| streamed_targets p \<or> t \<in> reinjected res"
proof -
  note ins = within_insert [OF w room, of h tx now]
  have opp: "u |\<in>| fmdom (cache (insert_cache h tx now p)) \<Longrightarrow> 
      u |\<in>| streamed_targets p \<or> u \<in> rj_hash ` set (opportunity (insert_cache h tx now p) u)" for u
    by (auto simp: opportunity_def ins(2) fmlookup_dom_iff)
  show ?thesis
  proof (cases rule: observe_cases [where A = A and p = p and tx = tx and h = h and now = now])
    case (parked call ev p2)
    then show ?thesis
      using obs t push_pending_inv(4) [OF insert_cache_inv(1) [OF withinD(1) [OF w]] parked(5)]
      by (simp add: observe_parked [OF parked(1,2,3) refl parked(4,5)] ins(2))
  next
    case (paired call)
    then show ?thesis
      using obs t opp [of t] by (auto simp: observe_paired [OF paired(1,2,3) refl paired(4)] mark_streamed_def ins(2) reinjected_def
          split: if_splits)
  next
    case (target bids)
    then show ?thesis
      using obs t opp [of t] by (auto simp: observe_target [OF target refl] mark_streamed_def ins(2) reinjected_def split: if_splits)
  qed (use obs t in \<open>auto simp: observe_invalid observe_tob observe_vanilla ins(2)\<close>)
qed

subsection \<open>Forgetting another transaction\<close>

lemma forget_scan_keeps:
  "forget_scan keys h pend cnt = (pend', cnt') \<Longrightarrow> b \<in> set (vec_of pend t) \<Longrightarrow> pb_hash b \<noteq> h \<Longrightarrow> b \<in> set (vec_of pend' t)"
proof (induction keys h pend cnt rule: forget_scan.induct)
  case (2 key keys h pend cnt)
  show ?case
  proof (cases "position (same_hash h) (vec_of pend key)")
    case None
    then show ?thesis using 2 by (auto simp: vec_of_def position_same_hash split: option.splits)
  next
    case (Some i)
    then obtain v where v: "fmlookup pend key = Some v" "vec_of pend key = v"
      by (cases "fmlookup pend key") (auto simp: vec_of_def)
    then have "pend' = fmupd key (vec_remove i v) pend"
      using "2.prems"(1) Some by (simp add: position_same_hash)
    moreover have i: "i < length v" "pb_hash (v ! i) = h" using position_Some_bound [OF Some] by (simp_all add: v same_hash_def)
    then have "b \<in> set (vec_remove i v)" if "b \<in> set v"
      using that "2.prems"(3) i arg_cong [OF filter_vec_remove [of i v "\<lambda>x. x = b"], of set] by auto
    ultimately show ?thesis using "2.prems"(2) v by auto
  qed
qed simp

lemma forget_keeps:
  assumes "b \<in> set (vec_of (pending p) t)" "pb_hash b \<noteq> h" "t \<noteq> h"
  shows "b \<in> set (vec_of (pending (forget it h p)) t)"
proof -
  obtain pend cnt where scan: "forget_scan (it (fmdrop h (pending p))) h (fmdrop h (pending p))
      (pending_count p - of_nat (length (vec_of (pending p) h))) = (pend, cnt)"
    and f: "forget it h p = p\<lparr>cache := fmdrop h (cache p), streamed_targets := streamed_targets p |-| {|h|},
        pending := fmfilter (\<lambda>k. fmlookup pend k \<noteq> Some []) pend, pending_count := cnt\<rparr>"
    by (rule forget_elim)
  have "b \<in> set (vec_of (fmdrop h (pending p)) t)" using assms by (simp add: vec_of_fmdrop)
  from forget_scan_keeps [OF scan this assms(2)] show ?thesis by (simp add: f vec_of_retain)
qed

lemma within_forget:
  assumes "within T n p"
  shows "within T n (forget it h p)"
proof (rule withinI)
  note D = withinD [OF assms]
  note fi = forget_inv [OF D(1), of it h]
  show "pool_inv (forget it h p)" by (rule fi(1))
  show "hm_len (cache (forget it h p)) \<le> n" using D(2) by (auto simp: fi(3) hm_len_fmdrop)
  show "hm_total (pending (forget it h p)) \<le> n" using fi(8) D(3) by simp
  show "ct_seen_at c \<in> T" if "fmlookup (cache (forget it h p)) k = Some c" for k c
    using that D(4) [of k c] by (simp add: fi(3) split: if_splits)
  show "pb_seen_at b \<in> T" if "b \<in> set (vec_of (pending (forget it h p)) u)" for b u
    using that fi(4) [of u] D(5) [of b u] by auto
qed

end
