(* ===== verification/Ipc_Complete.thy ===== *)
theory Ipc_Complete
  imports Ipc_Machine Ipc_Pairing Pool_Window
begin

section \<open>Nothing is lost within the bounds\<close>

text \<open>
  The converse of \<open>message_ok\<close>: what must go out does. When the node takes every message, everything
  the pool reinjects is on the wire, now or before. When moreover a run stays within the time to
  live and the capacities, a bid and its target are both written, whatever is reported before,
  between and after them, and whichever comes first.
\<close>

lemma send_complete:
  assumes "send_loop P ans i rs st = (out, failed, st')" "\<And>i. send_ok ans i" "sent_inv (ls_sent st)"
  shows "\<not> failed \<and> rj_hash ` set rs \<subseteq> sent_keys (ls_sent st) \<union> fst ` set out
    \<and> sent_keys (ls_sent st') \<subseteq> sent_keys (ls_sent st) \<union> fst ` set out \<and> sent_inv (ls_sent st')"
  using assms
proof (induction rs arbitrary: i st out)
  case (Cons r rs)
  from Cons.prems(1) show ?case
  proof (cases rule: send_loop_cases)
    case (send r' rs' ev s out')
    have eq: "r' = r" "rs' = rs" using send(1) by simp_all
    note k = sent_insert_inv [OF Cons.prems(3) send(4)]
    show ?thesis
      using Cons.IH [OF send(5) [unfolded eq] Cons.prems(2)] k send(6) by (auto simp: eq)
  next
    case (skip r' rs')
    then show ?thesis using Cons.IH [OF _ Cons.prems(2,3)] by (fastforce simp: sent_contains_keys)
  next
    case (fail r' rs')
    then show ?thesis using Cons.prems(2) by simp
  qed simp
qed simp

text \<open>What every event keeps, given the events before it, holds after a run, if it does not look at the
  metrics. All events to come are \<open>all\<close>.\<close>

definition event_keeps :: "'tx alloy \<Rightarrow> ('r, 'c, 'g, 'v) prom \<Rightarrow> ('tx bid_map \<Rightarrow> txhash list) \<Rightarrow> ('tx event \<times> answers) list \<Rightarrow>
    (('tx event \<times> answers) list \<Rightarrow> 'tx wire \<Rightarrow> ('tx, 'r, 'c, 'g, 'v) loop_state \<Rightarrow> bool) \<Rightarrow> bool" where
  "event_keeps A P it all Q \<longleftrightarrow> (\<forall>pre ea post W st out failed st'. all = pre @ ea # post \<longrightarrow> Q pre W st \<longrightarrow>
     process_event A P it ea st = (out, failed, st') \<longrightarrow> \<not> failed \<and> Q (pre @ [ea]) (W @ out) st')"

lemma batch_event_invariant:
  assumes "event_keeps A P it (evs @ batch @ rest) Q" "Q evs W st" "process_batch A P it batch st = (out, failed, st')"
  shows "Q (evs @ batch) (W @ out) st'"
  using assms
proof (induction batch arbitrary: evs W st out)
  case (Cons ea batch)
  obtain out1 failed1 st1 where e: "process_event A P it ea st = (out1, failed1, st1)"
    using prod_cases3 by blast
  have p1: "\<not> failed1" "Q (evs @ [ea]) (W @ out1) st1"
    using Cons.prems(1) [unfolded event_keeps_def, rule_format, of evs ea "batch @ rest", OF _ Cons.prems(2) e] by simp_all
  then obtain out2 where r: "process_batch A P it batch st1 = (out2, failed, st')" "out = out1 @ out2"
    using Cons.prems(3) e by (auto split: prod.splits)
  have "event_keeps A P it ((evs @ [ea]) @ batch @ rest) Q" using Cons.prems(1) by simp
  from Cons.IH [OF this p1(2) r(1)] show ?case by (simp add: r(2))
qed simp

lemma path_event_invariant:
  assumes "ipc_path A P it c ls c'" "Q [] [] (cf_state c)" "event_keeps A P it (received ls @ rest) Q"
    and keep: "\<And>evs W st st'. Q evs W st \<Longrightarrow> ls_pool st' = ls_pool st \<Longrightarrow> ls_sent st' = ls_sent st \<Longrightarrow> Q evs W st'"
  shows "Q (received ls) (wire_of ls) (cf_state c')"
  using assms(1,2,3)
proof (induction arbitrary: rest rule: ipc_path.induct)
  case (path_snoc c ls c' l c'')
  have steps: "event_keeps A P it (received ls @ label_events l @ rest) Q"
    using path_snoc.prems(2) by (simp add: received_def)
  note ih = path_snoc.IH [OF path_snoc.prems(1) this]
  show ?case
  proof (cases "\<exists>b out. l = Batch b out")
    case False
    then show ?thesis using step_keeps_state [OF path_snoc.hyps(2)] keep [OF ih] by simp
  next
    case True
    then obtain b out where l: "l = Batch b out" by blast
    from path_snoc.hyps(2) [unfolded l] obtain failed where
      "process_batch A P it b (cf_state c') = (out, failed, cf_state c'')"
      by (elim ipc_step_Batch) auto
    from batch_event_invariant [where Q = Q, OF _ ih this, of rest] steps show ?thesis by (simp add: l received_def wire_of_def)
  qed
qed simp

subsection \<open>Top-of-block bids\<close>

definition tobs_written :: "'tx alloy \<Rightarrow> policy_config \<Rightarrow> ('tx event \<times> answers) list \<Rightarrow> 'tx wire \<Rightarrow>
    ('tx, 'r, 'c, 'g, 'v) loop_state \<Rightarrow> bool" where
  "tobs_written A pol evs W st \<longleftrightarrow>
     loop_inv st \<and> policy (ls_pool st) = pol \<and> sent_keys (ls_sent st) \<subseteq> fst ` set W
     \<and> (\<forall>(h, tx) \<in> inserts evs. tob_bid A pol tx \<longrightarrow> h \<in> fst ` set W)"

lemma tobs_written_event:
  assumes Q: "tobs_written A pol evs W st" and ok: "\<And>i. send_ok (snd ea) i"
    and run: "process_event A P it ea st = (out, failed, st')"
  shows "\<not> failed \<and> tobs_written A pol (evs @ [ea]) (W @ out) st'"
proof -
  obtain ev ans where ea: "ea = (ev, ans)" by (cases ea)
  have inv: "loop_inv st" and pol: "policy (ls_pool st) = pol" and keys: "sent_keys (ls_sent st) \<subseteq> fst ` set W"
    and old: "\<And>h tx. (h, tx) \<in> inserts evs \<Longrightarrow> tob_bid A pol tx \<Longrightarrow> h \<in> fst ` set W"
    using Q by (auto simp: tobs_written_def)
  note inv' = process_event_inv [OF inv run]
  have pol': "policy (ls_pool st') = pol" using inv' pol by (simp add: loop_config_def pool_config_def)
  from run [unfolded ea] show ?thesis
  proof (cases rule: process_event_cases)
    case (echo tx)
    then have "ev_hash ev \<in> fst ` set W" using keys by (auto simp: sent_contains_keys)
    then show ?thesis
      using echo inv' pol' keys old unfolding tobs_written_def by (auto simp: ea inserts_append)
  next
    case (insert tx rs st1)
    have sent: "sent_inv (ls_sent st1)" "ls_sent st1 = ls_sent st"
      using inv observe_event_effect(3) [OF insert(3)] by (simp_all add: loop_inv_def)
    have c: "\<not> failed" "rj_hash ` set rs \<subseteq> fst ` set (W @ out)" "sent_keys (ls_sent st') \<subseteq> fst ` set (W @ out)"
      using send_complete [OF insert(4) _ sent(1)] ok keys unfolding ea snd_conv sent(2) set_append image_Un by blast+
    have new: "ev_hash ev \<in> rj_hash ` set rs" if "tob_bid A pol tx"
    proof -
      obtain ex p1 where pr: "prune (prune_at ans) (ls_pool st) = (ex, p1)" by fastforce
      have "policy p1 = pol" using prune_inv(2) [OF _ pr] inv pol by (simp add: loop_inv_def pool_config_def)
      moreover obtain call where "to_gateway A pol tx" "decode_gateway_call A tx = Some call" "is_tob call"
        using \<open>tob_bid A pol tx\<close> by (auto simp: tob_bid_def split: option.splits)
      ultimately show ?thesis
        using observe_event_effect(2) [OF insert(3)] pr observe_tob [of A p1 tx call "ev_hash ev" "observe_time ans"] by simp
    qed
    have "g \<in> fst ` set (W @ out)" if "(g, tx') \<in> inserts (evs @ [ea])" "tob_bid A pol tx'" for g tx'
      using that old [of g tx'] new c(2) insert(1) by (auto simp: ea inserts_append)
    then show ?thesis using c(1,3) inv' pol' unfolding tobs_written_def by blast
  next
    case gone
    then have "inserts [ea] = {}" by (cases "ev_action ev") (simp_all add: ea)
    then show ?thesis
      using gone inv inv' pol' keys old unfolding tobs_written_def by (auto simp: inserts_append loop_inv_def)
  qed
qed

lemma run_tobs_written:
  assumes path: "ipc_path A P it (initial mode m) ls c" and mp: "Suc (unat (pm_max_pending_entries mode)) < 2 ^ 64"
    and ok: "\<forall>(ev, ans) \<in> set (received ls). \<forall>i. send_ok ans i" and bid: "(h, tx) \<in> inserts (received ls)" "tob_bid A (pm_policy mode) tx"
  shows "h \<in> fst ` set (wire_of ls)"
proof -
  have "tobs_written A (pm_policy mode) (received ls) (wire_of ls) (cf_state c)"
  proof (rule path_event_invariant [where rest = "[]", OF path])
    show "tobs_written A (pm_policy mode) [] [] (cf_state (initial mode m))"
      using loop_inv_new [OF mp, of m] by (simp add: tobs_written_def initial_def) (simp add: new_loop_state_def pool_new_def)
    show "event_keeps A P it (received ls @ []) (tobs_written A (pm_policy mode))"
      unfolding event_keeps_def
    proof (intro allI impI)
      fix pre ea post W st out failed st'
      assume evs: "received ls @ [] = pre @ ea # post" and Q: "tobs_written A (pm_policy mode) pre W st"
        and e: "process_event A P it ea st = (out, failed, st')"
      have "send_ok (snd ea) i" for i using ok evs by (cases ea) simp
      from tobs_written_event [OF Q this e]
      show "\<not> failed \<and> tobs_written A (pm_policy mode) (pre @ [ea]) (W @ out) st'" .
    qed
  qed (simp add: tobs_written_def loop_inv_def)
  then show ?thesis using bid by (auto simp: tobs_written_def)
qed

subsection \<open>A bid and its target\<close>

lemma message_ok_reported: "message_ok A pol fb S x \<Longrightarrow> fst x \<in> fst ` S"
  by (cases x) (auto simp: message_ok_def intro: rev_image_eqI)

text \<open>The hashes that a list of events reports, and the instants at which they are observed.\<close>

definition reported :: "('tx event \<times> answers) list \<Rightarrow> txhash set" where
  "reported evs = fst ` inserts evs"

definition instants :: "('tx event \<times> answers) list \<Rightarrow> instant set" where
  "instants evs = observe_time ` snd ` set evs"

lemma reported_simps [simp]:
  "reported [] = {}" "reported (evs @ evs') = reported evs \<union> reported evs'"
  "reported [(ev, ans)] = (case ev_action ev of InsertEv tx \<Rightarrow> {ev_hash ev} | _ \<Rightarrow> {})"
  by (auto simp: reported_def inserts_append split: event_type.splits)

lemma instants_simps [simp]:
  "instants [] = {}" "instants (evs @ evs') = instants evs \<union> instants evs'" "instants [(ev, ans)] = {observe_time ans}"
  by (auto simp: instants_def)

text \<open>After the events \<open>evs\<close> and the messages \<open>W\<close>: the target is cached once it was reported, a cached
  target has no bids waiting, and a reported bid waits or is on the wire with its target.\<close>

definition paired_up :: "'tx alloy \<Rightarrow> txhash \<Rightarrow> txhash \<Rightarrow> ('tx event \<times> answers) list \<Rightarrow> 'tx wire \<Rightarrow>
    ('tx, 'r, 'c, 'g, 'v) loop_state \<Rightarrow> bool" where
  "paired_up A h t evs W st \<longleftrightarrow>
     within (instants evs) (length evs) (ls_pool st) \<and> sent_inv (ls_sent st) \<and> pool_sourced A (inserts evs) (ls_pool st)
     \<and> fst ` set W \<subseteq> reported evs \<and> sent_keys (ls_sent st) \<subseteq> fst ` set W
     \<and> (t \<in> reported evs \<longrightarrow> t |\<in>| fmdom (cache (ls_pool st)))
     \<and> (t |\<in>| fmdom (cache (ls_pool st)) \<longrightarrow> vec_of (pending (ls_pool st)) t = [])
     \<and> (h \<in> reported evs \<longrightarrow> {h, t} \<subseteq> fst ` set W \<or> (\<exists>b \<in> set (vec_of (pending (ls_pool st)) t). pb_hash b = h))
     \<and> (t |\<in>| streamed_targets (ls_pool st) \<longrightarrow> t \<in> fst ` set W)"

lemma paired_upD:
  assumes "paired_up A h t evs W st"
  shows "within (instants evs) (length evs) (ls_pool st)" "sent_inv (ls_sent st)" "pool_sourced A (inserts evs) (ls_pool st)"
    "fst ` set W \<subseteq> reported evs" "sent_keys (ls_sent st) \<subseteq> fst ` set W"
    "t \<in> reported evs \<Longrightarrow> t |\<in>| fmdom (cache (ls_pool st))"
    "t |\<in>| fmdom (cache (ls_pool st)) \<Longrightarrow> vec_of (pending (ls_pool st)) t = []"
    "h \<in> reported evs \<Longrightarrow> {h, t} \<subseteq> fst ` set W \<or> (\<exists>b \<in> set (vec_of (pending (ls_pool st)) t). pb_hash b = h)"
    "t |\<in>| streamed_targets (ls_pool st) \<Longrightarrow> t \<in> fst ` set W"
  using assms unfolding paired_up_def by blast+

text \<open>What a run is asked for: one event, one state before it.\<close>

definition event_fits :: "'tx alloy \<Rightarrow> txhash \<Rightarrow> txhash \<Rightarrow> ('tx event \<times> answers) list \<Rightarrow> 'tx event \<times> answers \<Rightarrow>
    'tx pending_pool \<Rightarrow> bool" where
  "event_fits A h t evs = (\<lambda>(ev, ans) p.
     (\<forall>i. send_ok ans i) \<and> (\<forall>s \<in> instants evs. prune_at ans - s < ttl p)
     \<and> length evs < unat (max_cache_entries p) \<and> length evs < unat (max_pending_entries p)
     \<and> (case ev_action ev of
          InsertEv tx \<Rightarrow> (ev_hash ev = h \<longrightarrow> backrun_bid_for A (policy p) tx t) \<and> (ev_hash ev = t \<longrightarrow> \<not> to_gateway A (policy p) tx)
        | _ \<Rightarrow> ev_hash ev \<notin> {h, t}))"

lemma paired_insert:
  assumes P: "paired_up A h t evs W st" and ne: "h \<noteq> t" and fits: "event_fits A h t evs (ev, ans) (ls_pool st)"
    and ev: "ev_action ev = InsertEv tx" and new: "ev_hash ev \<notin> sent_keys (ls_sent st)"
    and run: "process_event A P it (ev, ans) st = (out, failed, st')"
  shows "\<not> failed \<and> paired_up A h t (evs @ [(ev, ans)]) (W @ out) st'"
proof -
  note D = paired_upD [OF P]
  let ?k = "ev_hash ev" and ?T = "instants evs" and ?n = "length evs"
  obtain ex p1 where pr: "prune (prune_at ans) (ls_pool st) = (ex, p1)" by fastforce
  obtain res p2 where obs: "observe_at A ?k tx (observe_time ans) p1 = (res, p2)" by fastforce
  have "\<lparr>ev_hash = ?k, ev_action = InsertEv tx\<rparr> = ev" using ev by (cases ev) simp
  with process_insert [OF _ pr obs, where P = P and it = it] new run obtain st1 where
    send: "send_loop P ans 0 (reinjections res) st1 = (out, failed, st')" and st1: "ls_pool st1 = p2" "ls_sent st1 = ls_sent st"
    by (metis sent_contains_keys)
  have f: "\<And>i. send_ok ans i" "\<forall>s \<in> ?T. prune_at ans - s < ttl (ls_pool st)"
    "?n < unat (max_cache_entries (ls_pool st))" "?n < unat (max_pending_entries (ls_pool st))"
    "?k = h \<Longrightarrow> backrun_bid_for A (policy (ls_pool st)) tx t" "?k = t \<Longrightarrow> \<not> to_gateway A (policy (ls_pool st)) tx"
    using fits by (simp_all add: event_fits_def ev)
  note w1 = within_prune [OF D(1) f(2) pr]
  have cfg: "max_cache_entries p1 = max_cache_entries (ls_pool st)" "max_pending_entries p1 = max_pending_entries (ls_pool st)"
    "policy p1 = policy (ls_pool st)"
    using w1(5) by (simp_all add: pool_config_def)
  have room: "?n < unat (max_cache_entries p1)" "?n < unat (max_pending_entries p1)" using f(3,4) by (simp_all add: cfg)
  note w2 = within_observe [OF w1(1) room(1) obs]
  have sent: "\<not> failed" "reinjected res \<subseteq> fst ` set (W @ out)" "sent_keys (ls_sent st') \<subseteq> fst ` set (W @ out)" "sent_inv (ls_sent st')"
    using send_complete [OF send f(1)] D(2,5) unfolding st1 reinjected_def set_append image_Un by blast+
  have pool: "ls_pool st' = p2" using send_loop_effect [OF send] st1 by simp
  have streamed: "u \<in> fst ` set (W @ out)" if "u = t" "u |\<in>| streamed_targets p1" for u
    using that w1(4) D(9) by auto
  have "paired_up A h t (evs @ [(ev, ans)]) (W @ out) st'"
    unfolding paired_up_def pool
  proof (intro conjI impI)
    show "within (instants (evs @ [(ev, ans)])) (length (evs @ [(ev, ans)])) p2" using w2(1) by simp
    show "sent_inv (ls_sent st')" by (rule sent(4))
    note src = process_event_sourced [OF D(3) run]
    show "pool_sourced A (inserts (evs @ [(ev, ans)])) p2" using src(1) by (simp add: pool inserts_append)
    show "fst ` set (W @ out) \<subseteq> reported (evs @ [(ev, ans)])"
    proof -
      have "fst x \<in> reported (evs @ [(ev, ans)])" if "x \<in> set out" for x
        using message_ok_reported [OF src(2) [OF that]] by (simp only: reported_def inserts_append)
      then show ?thesis using D(4) by auto
    qed
    show "sent_keys (ls_sent st') \<subseteq> fst ` set (W @ out)" by (rule sent(3))
    show "t |\<in>| fmdom (cache p2)" if "t \<in> reported (evs @ [(ev, ans)])"
      using that D(6) by (auto simp: w2(2) w1(2) ev)
    show "vec_of (pending p2) t = []" if "t |\<in>| fmdom (cache p2)"
    proof (cases "?k = t")
      case True
      then show ?thesis using observe_target_arrives(1) [OF w1(1) room(1) obs [unfolded True]] f(6) by (simp add: cfg)
    next
      case False
      then have t: "t |\<in>| fmdom (cache (ls_pool st))" using that by (auto simp: w2(2) w1(2))
      then show ?thesis using observe_others(2) [OF w1(1) room(2) obs False] that D(7) [OF t] by (simp add: w1(2,3))
    qed
    show "{h, t} \<subseteq> fst ` set (W @ out) \<or> (\<exists>b \<in> set (vec_of (pending p2) t). pb_hash b = h)"
      if h: "h \<in> reported (evs @ [(ev, ans)])"
    proof (cases "?k = t")
      case True
      then have "h \<in> reported evs" using h ne by (simp add: ev)
      with D(8) consider "{h, t} \<subseteq> fst ` set W" | b where "b \<in> set (vec_of (pending p1) t)" "pb_hash b = h"
        by (auto simp: w1(3))
      then show ?thesis
      proof cases
        case 2
        from observe_target_arrives(2) [OF w1(1) room(1) obs [unfolded True] _ 2(1)] f(6) True
        have "h \<in> reinjected res" "t \<in> reinjected res \<or> t |\<in>| streamed_targets p1" by (simp_all add: cfg 2(2))
        then show ?thesis using sent(2) streamed by blast
      qed auto
    next
      case other: False
      show ?thesis
      proof (cases "h \<in> reported evs")
        case True
        with D(8) consider "{h, t} \<subseteq> fst ` set W" | b where "b \<in> set (vec_of (pending p1) t)" "pb_hash b = h"
          by (auto simp: w1(3))
        then show ?thesis using observe_others(1) [OF w1(1) room(2) obs other] by cases auto
      next
        case False
        then have "backrun_bid_for A (policy p1) tx t" "?k = h" using h f(5) by (auto simp: ev cfg)
        with observe_bid [OF w1(1) room obs, of t] show ?thesis
          using sent(2) streamed by (auto split: if_splits)
      qed
    qed
    show "t \<in> fst ` set (W @ out)" if "t |\<in>| streamed_targets p2"
      using observe_marks [OF w1(1) room(1) obs that] streamed sent(2) by blast
  qed
  with sent(1) show ?thesis by simp
qed

lemma paired_event:
  assumes P: "paired_up A h t evs W st" and ne: "h \<noteq> t" and fits: "event_fits A h t evs ea (ls_pool st)"
    and run: "process_event A P it ea st = (out, failed, st')"
  shows "\<not> failed \<and> paired_up A h t (evs @ [ea]) (W @ out) st'"
proof -
  obtain ev ans where ea: "ea = (ev, ans)" by (cases ea)
  note D = paired_upD [OF P]
  have w: "within (instants (evs @ [ea])) (length (evs @ [ea])) (ls_pool st)"
    by (rule within_mono [OF D(1)]) auto
  from run [unfolded ea] show ?thesis
  proof (cases rule: process_event_cases)
    case (echo tx)
    have rep: "ev_hash ev \<in> reported evs" using echo(2) D(4,5) by (auto simp: sent_contains_keys)
    then have "inserts evs \<subseteq> inserts (evs @ [ea])" "reported (evs @ [ea]) = reported evs"
      by (auto simp: ea inserts_append echo(1))
    then show ?thesis
      using P w echo(3,4,5) pool_sourced_mono unfolding paired_up_def by auto
  next
    case (insert tx rs st1)
    then show ?thesis
      using paired_insert [OF P ne fits [unfolded ea] insert(1) _ run [unfolded ea]] by (simp add: ea sent_contains_keys)
  next
    case gone
    then have k: "ev_hash ev \<noteq> h" "ev_hash ev \<noteq> t" and rep: "reported (evs @ [ea]) = reported evs" "inserts (evs @ [ea]) = inserts evs"
      using fits by (cases "ev_action ev"; simp add: event_fits_def ea inserts_append)+
    note fi = forget_inv [OF withinD(1) [OF D(1)], of it "ev_hash ev"]
    have "paired_up A h t (evs @ [ea]) W st'"
      unfolding paired_up_def rep
    proof (intro conjI impI)
      show "within (instants (evs @ [ea])) (length (evs @ [ea])) (ls_pool st')"
        using within_forget [OF w] gone(4) by simp
      show "pool_sourced A (inserts evs) (ls_pool st')" using forget_sourced [OF D(3)] gone(4) by simp
      show "vec_of (pending (ls_pool st')) t = []" if "t |\<in>| fmdom (cache (ls_pool st'))"
        using that D(7) fi(4) [of t] by (auto simp: gone(4) fi(3))
      show "{h, t} \<subseteq> fst ` set W \<or> (\<exists>b \<in> set (vec_of (pending (ls_pool st')) t). pb_hash b = h)" if "h \<in> reported evs"
        using D(8) [OF that] forget_keeps [of _ "ls_pool st" t "ev_hash ev" it] k by (auto simp: gone(4))
      show "t \<in> fst ` set W" if "t |\<in>| streamed_targets (ls_pool st')"
        using that D(9) by (cases rule: forget_elim [of it "ev_hash ev" "ls_pool st"]) (auto simp: gone(4))
    qed (use D k gone(4) in \<open>auto simp: fi(3)\<close>)
    with gone(2,3) show ?thesis by simp
  qed
qed

text \<open>A run of the loop.\<close>

definition events_fit :: "'tx alloy \<Rightarrow> txhash \<Rightarrow> txhash \<Rightarrow> policy_config \<times> u256 \<times> duration \<times> usize \<times> usize \<Rightarrow>
    ('tx event \<times> answers) list \<Rightarrow> bool" where
  "events_fit A h t = (\<lambda>(pol, fb, d, mc, mp) evs.
     (\<forall>(ev, ans) \<in> set evs. (\<forall>i. send_ok ans i) \<and> (\<forall>s \<in> instants evs. prune_at ans - s < d)
        \<and> (case ev_action ev of
             InsertEv tx \<Rightarrow> (ev_hash ev = h \<longrightarrow> backrun_bid_for A pol tx t) \<and> (ev_hash ev = t \<longrightarrow> \<not> to_gateway A pol tx)
           | _ \<Rightarrow> ev_hash ev \<notin> {h, t}))
     \<and> length evs \<le> unat mc \<and> length evs \<le> unat mp)"

lemma events_fitD:
  assumes "events_fit A h t (pool_config p) (evs @ ea # rest)"
  shows "event_fits A h t evs ea p"
  using assms by (cases ea) (auto simp: events_fit_def event_fits_def pool_config_def instants_def)

lemma listed_events:
  "(ev, ans) \<in> set evs \<Longrightarrow> ev_action ev = InsertEv tx \<Longrightarrow> (ev_hash ev, tx) \<in> inserts evs"
  "(ev, ans) \<in> set evs \<Longrightarrow> \<forall>tx. ev_action ev \<noteq> InsertEv tx \<Longrightarrow> ev_hash ev \<in> gone evs"
proof (induction evs)
  case (Cons ea evs)
  { case 1 then show ?case using Cons.IH(1) inserts_Cons [of ea evs] by (cases ea) (auto split: event_type.splits) }
  { case 2 then show ?case using Cons.IH(2) gone_Cons [of ea evs] by (cases ea) (auto split: event_type.splits) }
qed simp_all

lemma paired_run:
  assumes path: "ipc_path A P it (initial mode m) ls c" and mp: "Suc (unat (pm_max_pending_entries mode)) < 2 ^ 64"
    and fit: "events_fit A h t (pm_policy mode, pm_fallback mode, pm_ttl mode, max (pm_max_cache_entries mode) 1,
      max (pm_max_pending_entries mode) 1) (received ls)"
    and ne: "h \<noteq> t" and rep: "h \<in> reported (received ls)" "t \<in> reported (received ls)"
  shows "{h, t} \<subseteq> fst ` set (wire_of ls)"
proof -
  let ?c = "initial mode m"
  let ?cfg = "(pm_policy mode, pm_fallback mode, pm_ttl mode, max (pm_max_cache_entries mode) 1, max (pm_max_pending_entries mode) 1)"
  let ?Q = "\<lambda>evs W st. paired_up A h t evs W st \<and> pool_config (ls_pool st) = ?cfg"
  have "?Q (received ls) (wire_of ls) (cf_state c)"
  proof (rule path_event_invariant [where rest = "[]" and Q = ?Q, OF path])
    show "?Q [] [] (cf_state ?c)"
      using within_new [OF mp] sourced_new [OF mp, of A]
      by (simp add: paired_up_def initial_def new_loop_state_def sent_inv_new) (simp add: pool_config_def pool_new_def)
    show "event_keeps A P it (received ls @ []) ?Q"
      unfolding event_keeps_def
    proof (intro allI impI)
      fix pre ea post W st out failed st'
      assume evs: "received ls @ [] = pre @ ea # post" and Q: "?Q pre W st"
        and e: "process_event A P it ea st = (out, failed, st')"
      have "event_fits A h t pre ea (ls_pool st)"
        using fit evs Q by (intro events_fitD [where rest = post]) simp
      note p = paired_event [OF conjunct1 [OF Q] ne this e]
      obtain calls ops where "ls_pool st' = pool_run A it calls (ls_pool st)"
        using e by (rule process_event_effect)
      then show "\<not> failed \<and> ?Q (pre @ [ea]) (W @ out) st'"
        using p Q pool_run_inv [OF withinD(1) [OF paired_upD(1) [OF conjunct1 [OF Q]]], of A it calls] by simp
    qed
  qed (simp add: paired_up_def)
  then have "paired_up A h t (received ls) (wire_of ls) (cf_state c)" by blast
  note D = paired_upD [OF this]
  show ?thesis using D(8) [OF rep(1)] D(7) [OF D(6) [OF rep(2)]] by simp
qed

end
