(* ===== verification/Block_Order.thy ===== *)
theory Block_Order
  imports Ipc_Machine Priority_Slots
begin

section \<open>The block that the written priorities describe\<close>

text \<open>
  The purpose of the program, end to end: the node builds its block by descending priority, and
  the messages of a run place every target directly in front of its bids. The node is not part of
  the program. A block is any list of transactions with their priorities, in descending order,
  each transaction once, made of messages that the loop wrote and of other transactions, whose
  priorities the node keeps small.
\<close>

type_synonym entry = "txhash \<times> u256"

definition written :: "'tx wire \<Rightarrow> entry set" where
  "written W = (\<lambda>(h, x). (h, ipc_priority x)) ` set W"

definition block_of :: "'tx wire \<Rightarrow> entry list \<Rightarrow> bool" where
  "block_of W L \<longleftrightarrow> sorted_wrt (\<lambda>x y. snd y \<le> snd x) L \<and> distinct (map fst L)
     \<and> (\<forall>x \<in> set L. x \<in> written W \<or> unat (snd x) < 2 ^ 129)"

text \<open>The priorities between a target and the bottom of its group.\<close>

definition behind :: "txhash \<Rightarrow> entry \<Rightarrow> bool" where
  "behind t x \<longleftrightarrow> encode_backrun_bid_priority t 0 \<le> snd x \<and> snd x < encode_opportunity_priority t"

text \<open>The hashes that reported backrun bids name.\<close>

definition bid_targets :: "'tx alloy \<Rightarrow> policy_config \<Rightarrow> (txhash \<times> 'tx) set \<Rightarrow> txhash set" where
  "bid_targets A pol S = {t. \<exists>(k, tx) \<in> S. backrun_bid_for A pol tx t}"

subsection \<open>Sorted lists\<close>

lemma sorted_partition:
  assumes "sorted_wrt (\<lambda>x y. f y \<le> f x) xs" "\<And>x y. x \<in> set xs \<Longrightarrow> y \<in> set xs \<Longrightarrow> Q x \<Longrightarrow> \<not> Q y \<Longrightarrow> f y < (f x :: 'b::linorder)"
  shows "xs = filter Q xs @ filter (\<lambda>x. \<not> Q x) xs"
  using assms
proof (induction xs)
  case (Cons x xs)
  have ih: "xs = filter Q xs @ filter (\<lambda>x. \<not> Q x) xs"
    using Cons.prems by (intro Cons.IH) auto
  show ?case
  proof (cases "Q x")
    case False
    then have "\<not> Q y" if "y \<in> set xs" for y
      using that Cons.prems(1) Cons.prems(2) [of y x] by (auto simp: not_less)
    then have "filter Q xs = []" by (simp add: filter_empty_conv)
    with False ih show ?thesis by simp
  qed (use ih in simp)
qed simp

lemma sorted_strict_split:
  assumes "sorted_wrt (\<lambda>x y. f y \<le> f x) (xs @ z # ys)" "\<And>x. x \<in> set xs \<union> set ys \<Longrightarrow> f x \<noteq> (f z :: 'b::linorder)"
  shows "x \<in> set xs \<Longrightarrow> f z < f x" "y \<in> set ys \<Longrightarrow> f y < f z"
  using assms by (fastforce simp: sorted_wrt_append order_le_less)+

text \<open>If no other entry has the priority of the target, its bids stand right behind it.\<close>

lemma block_split:
  assumes sorted: "sorted_wrt (\<lambda>x y. snd y \<le> snd x) L"
    and L: "L = xs @ (t, encode_opportunity_priority t) # ys"
    and alone: "\<And>x. x \<in> set xs \<union> set ys \<Longrightarrow> snd x \<noteq> encode_opportunity_priority t"
  shows "L = xs @ (t, encode_opportunity_priority t) # filter (behind t) L @ filter (\<lambda>x. \<not> behind t x) ys"
    and "x \<in> set xs \<Longrightarrow> encode_opportunity_priority t < snd x"
proof -
  have d: "snd x \<noteq> snd (t, encode_opportunity_priority t)" if "x \<in> set xs \<union> set ys" for x
    using alone [OF that] by simp
  show above: "x \<in> set xs \<Longrightarrow> encode_opportunity_priority t < snd x" for x
    using sorted_strict_split(1) [where f = snd, OF sorted [unfolded L] d] by simp
  have below: "y \<in> set ys \<Longrightarrow> snd y < encode_opportunity_priority t" for y
    using sorted_strict_split(2) [where f = snd, OF sorted [unfolded L] d] by simp
  have "filter (behind t) xs = []"
    using above by (fastforce simp: filter_empty_conv behind_def)
  then have f: "filter (behind t) L = filter (behind t) ys"
    by (simp add: L behind_def)
  have "ys = filter (behind t) ys @ filter (\<lambda>x. \<not> behind t x) ys"
  proof (rule sorted_partition [where f = snd])
    show "sorted_wrt (\<lambda>x y. snd y \<le> snd x) ys"
      using sorted by (simp add: L sorted_wrt_append)
    show "snd y < snd x" if "x \<in> set ys" "y \<in> set ys" "behind t x" "\<not> behind t y" for x y
      using that below [of y] by (auto simp: behind_def not_le)
  qed
  with f L show "L = xs @ (t, encode_opportunity_priority t) # filter (behind t) L @ filter (\<lambda>x. \<not> behind t x) ys"
    by simp
qed

subsection \<open>Whose priority it is\<close>

lemma opportunity_floor: "backrun_id t \<noteq> 0 \<Longrightarrow> 2 ^ 129 \<le> unat (encode_backrun_bid_priority t s)"
  "backrun_id t \<noteq> 0 \<Longrightarrow> 2 ^ 129 \<le> unat (encode_opportunity_priority t)"
proof -
  assume "backrun_id t \<noteq> 0"
  then have "1 \<le> unat (backrun_id t)" by (simp add: Suc_le_eq word_neq_0_conv unat_gt_0)
  then show "2 ^ 129 \<le> unat (encode_backrun_bid_priority t s)" "2 ^ 129 \<le> unat (encode_opportunity_priority t)"
    by (simp_all add: unat_encode_bid unat_encode_opportunity)
qed

lemma behind_slot:
  assumes "encode_backrun_bid_priority t 0 \<le> encode_request r" "encode_request r < encode_opportunity_priority t"
  shows "\<exists>u s. r = BidRequest u s \<and> backrun_id u = backrun_id t"
proof -
  have "slot_of_request r < TargetSlot (group_of t)" "\<not> slot_of_request r < BidSlot (group_of t) 0"
    using assms slots.enc_less [of r "TargetRequest t"] slots.enc_less [of r "BidRequest t 0"] by (auto simp: not_less)
  then show ?thesis by (cases r) (auto simp: group_of_eq_iff not_less)
qed

lemma not_opportunity:
  "encode_tob_priority s \<noteq> encode_opportunity_priority t"
  "encode_backrun_bid_priority u s \<noteq> encode_opportunity_priority t"
  using slots.enc_eq_iff [of "TobRequest s" "TargetRequest t"] slots.enc_eq_iff [of "BidRequest u s" "TargetRequest t"]
  by simp_all

lemma same_opportunity: "encode_opportunity_priority h = encode_opportunity_priority t \<longleftrightarrow> backrun_id h = backrun_id t"
  using slots.enc_eq_iff [of "TargetRequest h" "TargetRequest t"] by (simp add: group_of_eq_iff)

lemma bid_in_range:
  "encode_backrun_bid_priority t 0 \<le> encode_backrun_bid_priority t s"
  "encode_backrun_bid_priority t s < encode_opportunity_priority t"
  by (simp_all add: word_le_nat_alt word_less_nat_alt unat_encode_bid unat_encode_opportunity)

lemma tob_above_target: "encode_opportunity_priority t < encode_tob_priority s"
  using slots.enc_less [of "TargetRequest t" "TobRequest s"] by simp

text \<open>A message with the priority of the target \<open>t\<close> has a reported bid behind it.\<close>

lemma message_target:
  assumes "message_ok A pol fb S (t, x)" "ipc_priority x = encode_opportunity_priority t"
    and "unat fb < 2 ^ 129" "backrun_id t \<noteq> 0"
  shows "t \<in> bid_targets A pol S"
  using assms opportunity_floor(2) [of t] not_opportunity [symmetric]
  by (auto simp: message_ok_def bid_targets_def tob_priority_def split: if_splits)

text \<open>A message in the range of a target's bids is such a bid; a message at its priority is the target.\<close>

lemma written_behind:
  assumes ok: "message_ok A pol fb S (h, x)" and fb: "unat fb < 2 ^ 129" and t: "backrun_id t \<noteq> 0"
    and inj: "inj_on backrun_id (bid_targets A pol S)" "t \<in> bid_targets A pol S"
  shows "behind t (h, ipc_priority x) \<Longrightarrow> backrun_bid_for A pol (ipc_payload x) t \<and> (h, ipc_payload x) \<in> S
      \<and> ipc_priority x = encode_backrun_bid_priority t (compute_priority A (ipc_payload x) pol)"
    and "ipc_priority x = encode_opportunity_priority t \<Longrightarrow> h = t"
proof -
  let ?s = "compute_priority A (ipc_payload x) pol"
  have S: "(h, ipc_payload x) \<in> S" using ok by (simp add: message_ok_def)
  have tgt: "u \<in> bid_targets A pol S" if "backrun_bid_for A pol (ipc_payload x) u" for u
    using S that by (auto simp: bid_targets_def)
  have small: "fb \<noteq> encode_opportunity_priority t" "\<not> behind t (h, fb)"
    using opportunity_floor(2) [OF t] opportunity_floor(1) [OF t, of 0] fb
    by (auto simp: behind_def word_le_nat_alt)
  have not_fb: "ipc_priority x = tob_priority A pol fb (ipc_payload x) \<Longrightarrow> ipc_priority x = fb \<or> ipc_priority x = encode_request (TobRequest ?s)"
    by (simp add: tob_priority_def)
  consider (tob) "ipc_priority x = fb \<or> ipc_priority x = encode_request (TobRequest ?s)"
    | (bid) u where "backrun_bid_for A pol (ipc_payload x) u" "ipc_priority x = encode_request (BidRequest u ?s)"
    | (target) "h \<in> bid_targets A pol S" "ipc_priority x = encode_request (TargetRequest h)"
    using ok not_fb by (auto simp: message_ok_def bid_targets_def)
  note kinds = this
  have other: "encode_request (TobRequest a) \<noteq> encode_opportunity_priority t"
    "encode_request (BidRequest u a) \<noteq> encode_opportunity_priority t" for u a
    using not_opportunity by simp_all
  show "behind t (h, ipc_priority x) \<Longrightarrow> backrun_bid_for A pol (ipc_payload x) t \<and> (h, ipc_payload x) \<in> S
      \<and> ipc_priority x = encode_backrun_bid_priority t ?s"
    using kinds
  proof cases
    case (bid u)
    assume b: "behind t (h, ipc_priority x)"
    have "encode_backrun_bid_priority t 0 \<le> encode_request (BidRequest u ?s)"
      "encode_request (BidRequest u ?s) < encode_opportunity_priority t"
      using b bid(2) by (auto simp: behind_def)
    from behind_slot [OF this] have "u = t"
      using inj_onD [OF inj(1) _ tgt [OF bid(1)] inj(2)] by simp
    with bid S show ?thesis by simp
  qed (use small(2) behind_slot [of t "TobRequest ?s"] behind_slot [of t "TargetRequest h"] in \<open>auto simp: behind_def\<close>)
  show "ipc_priority x = encode_opportunity_priority t \<Longrightarrow> h = t"
    using kinds
  proof cases
    case target
    assume "ipc_priority x = encode_opportunity_priority t"
    with target(2) have "backrun_id h = backrun_id t" by (simp add: same_opportunity)
    then show ?thesis using inj_onD [OF inj(1)] target(1) inj(2) by simp
  qed (use small(1) other other [symmetric] in auto)
qed

text \<open>In a block made of a run's messages: behind a target all its bids, best first.\<close>

lemma run_block:
  assumes path: "ipc_path A P it (initial mode m) ls c" and mp: "Suc (unat (pm_max_pending_entries mode)) < 2 ^ 64"
    and fb: "unat (pm_fallback mode) < 2 ^ 129" and block: "block_of (wire_of ls) L"
    and inj: "inj_on backrun_id (bid_targets A (pm_policy mode) (inserts (received ls)))" and t: "backrun_id t \<noteq> 0"
    and L: "L = xs @ (t, encode_opportunity_priority t) # ys"
  shows "L = xs @ (t, encode_opportunity_priority t) # filter (behind t) L @ filter (\<lambda>x. \<not> behind t x) ys"
    and "x \<in> set xs \<Longrightarrow> encode_opportunity_priority t < snd x"
    and "(h, p) \<in> set (filter (behind t) L) \<Longrightarrow> \<exists>tx. (h, tx) \<in> inserts (received ls)
        \<and> backrun_bid_for A (pm_policy mode) tx t
        \<and> p = encode_backrun_bid_priority t (compute_priority A tx (pm_policy mode))"
proof -
  let ?S = "inserts (received ls)"
  have src: "\<exists>x. (h, x) \<in> set (wire_of ls) \<and> p = ipc_priority x
      \<and> message_ok A (pm_policy mode) (pm_fallback mode) ?S (h, x)"
    if "(h, p) \<in> set L" "2 ^ 129 \<le> unat p" for h p
  proof -
    have "(h, p) \<in> written (wire_of ls)" using block that by (auto simp: block_of_def)
    then obtain x where "(h, x) \<in> set (wire_of ls)" "p = ipc_priority x" by (auto simp: written_def)
    then show ?thesis using run_messages_ok [OF path mp] by blast
  qed
  have tL: "(t, encode_opportunity_priority t) \<in> set L" by (simp add: L)
  obtain x where x: "encode_opportunity_priority t = ipc_priority x" "message_ok A (pm_policy mode) (pm_fallback mode) ?S (t, x)"
    using src [OF tL opportunity_floor(2) [OF t]] by blast
  have tt: "t \<in> bid_targets A (pm_policy mode) ?S"
    by (rule message_target [OF x(2) x(1) [symmetric] fb t])
  note behind = written_behind [OF _ fb t inj tt]
  have alone: "snd e \<noteq> encode_opportunity_priority t" if "e \<in> set xs \<union> set ys" for e
  proof
    assume p: "snd e = encode_opportunity_priority t"
    have e: "(fst e, snd e) \<in> set L" using that by (auto simp: L)
    obtain y where "snd e = ipc_priority y" "message_ok A (pm_policy mode) (pm_fallback mode) ?S (fst e, y)"
      using src [OF e] opportunity_floor(2) [OF t] p by auto
    with p have "fst e = t" using behind(2) by metis
    moreover have "fst e \<noteq> t" using that block by (auto simp: block_of_def L)
    ultimately show False by simp
  qed
  have sorted: "sorted_wrt (\<lambda>x y. snd y \<le> snd x) L" using block by (simp add: block_of_def)
  show "L = xs @ (t, encode_opportunity_priority t) # filter (behind t) L @ filter (\<lambda>x. \<not> behind t x) ys"
    by (rule block_split(1) [OF sorted L alone])
  show "x \<in> set xs \<Longrightarrow> encode_opportunity_priority t < snd x" for x
    by (rule block_split(2) [OF sorted L alone])
  show "\<exists>tx. (h, tx) \<in> ?S \<and> backrun_bid_for A (pm_policy mode) tx t
        \<and> p = encode_backrun_bid_priority t (compute_priority A tx (pm_policy mode))"
    if b: "(h, p) \<in> set (filter (behind t) L)" for h p
  proof -
    have "2 ^ 129 \<le> unat p"
      using b opportunity_floor(1) [OF t, of 0] by (auto simp: behind_def word_le_nat_alt)
    then obtain y where "p = ipc_priority y" "message_ok A (pm_policy mode) (pm_fallback mode) ?S (h, y)"
      using src [of h p] b by auto
    then show ?thesis using behind(1) b by fastforce
  qed
qed

end
