(* ===== verification/Auction.thy ===== *)
theory Auction
  imports Ipc_Complete Block_Order
begin

section \<open>The auction: who wins which place\<close>

text \<open>
  Completeness and the order of the block together. A run writes every pair and every top-of-block
  bid it is due (\<open>Ipc_Complete\<close>); a block that takes all of them in the order of their priorities
  (\<open>Block_Order\<close>) starts with the best top-of-block bid, and behind each target stands the best of
  the bids for it.
\<close>

lemma bid_targetsI: "(k, tx) \<in> S \<Longrightarrow> backrun_bid_for A pol tx t \<Longrightarrow> t \<in> bid_targets A pol S"
  by (auto simp: bid_targets_def)

subsection \<open>The messages of a pair and of a top-of-block bid\<close>

text \<open>What a run must be so that a reported pair is written: the node takes every message, no prune
  comes a time to live after an observation, and there are no more events than the pool has room for.\<close>

definition within_bounds :: "priority_mode \<Rightarrow> ('tx event \<times> answers) list \<Rightarrow> bool" where
  "within_bounds mode evs \<longleftrightarrow>
     (\<forall>(ev, ans) \<in> set evs. \<forall>i. send_ok ans i)
     \<and> (\<forall>(ev, ans) \<in> set evs. \<forall>(ev', ans') \<in> set evs. prune_at ans' - observe_time ans < pm_ttl mode)
     \<and> length evs \<le> unat (pm_max_cache_entries mode) \<and> length evs \<le> unat (pm_max_pending_entries mode)"

lemma pair_written:
  assumes run: "ipc_path A P it (initial mode m) ls c" and mp: "Suc (unat (pm_max_pending_entries mode)) < 2 ^ 64"
    and within: "within_bounds mode (received ls)" and stay: "h \<notin> gone (received ls)" "t \<notin> gone (received ls)"
    and bid: "\<forall>tx. (h, tx) \<in> inserts (received ls) \<longleftrightarrow> tx = btx" "backrun_bid_for A (pm_policy mode) btx t"
    and target: "\<forall>tx. (t, tx) \<in> inserts (received ls) \<longleftrightarrow> tx = ttx" "\<not> to_gateway A (pm_policy mode) ttx"
    and unnamed: "h \<notin> bid_targets A (pm_policy mode) (inserts (received ls))"
  shows "(t, \<lparr>ipc_payload = ttx, ipc_priority = encode_opportunity_priority t, extra_data = []\<rparr>) \<in> set (wire_of ls)
    \<and> (h, \<lparr>ipc_payload = btx, ipc_priority = encode_backrun_bid_priority t (compute_priority A btx (pm_policy mode)),
        extra_data = []\<rparr>) \<in> set (wire_of ls)"
proof -
  have sends: "\<forall>(ev, ans) \<in> set (received ls). \<forall>i. send_ok ans i"
    and window: "\<forall>(ev, ans) \<in> set (received ls). \<forall>(ev', ans') \<in> set (received ls). prune_at ans' - observe_time ans < pm_ttl mode"
    and size: "length (received ls) \<le> unat (pm_max_cache_entries mode)" "length (received ls) \<le> unat (pm_max_pending_entries mode)"
    using within unfolding within_bounds_def by blast+
  have ne: "h \<noteq> t" using bid target by (auto simp: backrun_bid_for_def)
  have cap: "unat x \<le> unat (max x 1)" for x :: usize by (simp add: unat_max_word)
  have "events_fit A h t (pm_policy mode, pm_fallback mode, pm_ttl mode, max (pm_max_cache_entries mode) 1,
      max (pm_max_pending_entries mode) 1) (received ls)"
    unfolding events_fit_def prod.case
  proof (intro conjI ballI, clarify)
    fix ev ans assume e: "(ev, ans) \<in> set (received ls)"
    have "case ev_action ev of
        InsertEv tx \<Rightarrow> (ev_hash ev = h \<longrightarrow> backrun_bid_for A (pm_policy mode) tx t) \<and> (ev_hash ev = t \<longrightarrow> \<not> to_gateway A (pm_policy mode) tx)
      | _ \<Rightarrow> ev_hash ev \<notin> {h, t}"
      using listed_events [OF e] stay bid target by (auto split: event_type.splits)
    moreover have "prune_at ans - observe_time ans' < pm_ttl mode" if "(ev', ans') \<in> set (received ls)" for ev' ans'
      using bspec [OF window that] e by auto
    then have "\<forall>s \<in> instants (received ls). prune_at ans - s < pm_ttl mode" by (auto simp: instants_def)
    ultimately show "(\<forall>i. send_ok ans i) \<and> (\<forall>s \<in> instants (received ls). prune_at ans - s < pm_ttl mode) \<and> (case ev_action ev of
        InsertEv tx \<Rightarrow> (ev_hash ev = h \<longrightarrow> backrun_bid_for A (pm_policy mode) tx t) \<and> (ev_hash ev = t \<longrightarrow> \<not> to_gateway A (pm_policy mode) tx)
      | _ \<Rightarrow> ev_hash ev \<notin> {h, t})"
      using sends e by blast
  qed (use size cap in \<open>auto intro: order_trans\<close>)
  from paired_run [OF run mp this ne] bid target have on: "{h, t} \<subseteq> fst ` set (wire_of ls)"
    by (force simp: reported_def)
  note ok = run_messages_ok [OF run mp]
  obtain x y where x: "(h, x) \<in> set (wire_of ls)" and y: "(t, y) \<in> set (wire_of ls)" using on by force
  have "x = \<lparr>ipc_payload = btx, ipc_priority = encode_backrun_bid_priority t (compute_priority A btx (pm_policy mode)), extra_data = []\<rparr>"
    using ok [OF x] bid unnamed
    by (cases x) (auto simp: message_ok_def tob_bid_def backrun_bid_for_def is_tob_def bid_targets_def split: option.splits)
  moreover have "y = \<lparr>ipc_payload = ttx, ipc_priority = encode_opportunity_priority t, extra_data = []\<rparr>"
    using ok [OF y] target by (cases y) (auto simp: message_ok_def tob_bid_def backrun_bid_for_def)
  ultimately show ?thesis using x y by simp
qed

lemma tob_written:
  assumes run: "ipc_path A P it (initial mode m) ls c" and mp: "Suc (unat (pm_max_pending_entries mode)) < 2 ^ 64"
    and sends: "\<forall>(ev, ans) \<in> set (received ls). \<forall>i. send_ok ans i"
    and bid: "\<forall>tx'. (h, tx') \<in> inserts (received ls) \<longleftrightarrow> tx' = tx" "tob_bid A (pm_policy mode) tx"
    and unnamed: "h \<notin> bid_targets A (pm_policy mode) (inserts (received ls))"
  shows "(h, \<lparr>ipc_payload = tx, ipc_priority = tob_priority A (pm_policy mode) (pm_fallback mode) tx, extra_data = []\<rparr>)
    \<in> set (wire_of ls)"
proof -
  obtain x where x: "(h, x) \<in> set (wire_of ls)"
    using run_tobs_written [OF run mp sends _ bid(2)] bid(1) by fastforce
  have "\<not> backrun_bid_for A (pm_policy mode) tx t" for t
    using bid(2) by (auto simp: tob_bid_def backrun_bid_for_def is_tob_def split: option.splits)
  then have "x = \<lparr>ipc_payload = tx, ipc_priority = tob_priority A (pm_policy mode) (pm_fallback mode) tx, extra_data = []\<rparr>"
    using run_messages_ok [OF run mp x] bid(1) unnamed by (cases x) (auto simp: message_ok_def bid_targets_def)
  with x show ?thesis by simp
qed

subsection \<open>Scores below \<open>2 ^ 128\<close> order as their priorities\<close>

lemma score_order:
  fixes s v :: u256
  assumes "unat s < 2 ^ 128" "unat v < 2 ^ 128"
  shows "encode_tob_priority s \<le> encode_tob_priority v \<longleftrightarrow> s \<le> v"
    "encode_backrun_bid_priority t s \<le> encode_backrun_bid_priority t v \<longleftrightarrow> s \<le> v"
  using assms by (simp_all add: word_le_nat_alt unat_encoding)

text \<open>The first of a descending list is its greatest.\<close>

lemma sorted_hd_greatest: "sorted_wrt (\<lambda>x y. f y \<le> (f x :: 'b::preorder)) xs \<Longrightarrow> x \<in> set xs \<Longrightarrow> f x \<le> f (hd xs)"
  by (cases xs) auto

subsection \<open>The first place\<close>

text \<open>The reported top-of-block bids, each with its score.\<close>

definition tob_scores :: "'tx alloy \<Rightarrow> policy_config \<Rightarrow> (txhash \<times> 'tx) set \<Rightarrow> (txhash \<times> u256) set" where
  "tob_scores A pol S = {(h, compute_priority A tx pol) |h tx. (h, tx) \<in> S \<and> tob_bid A pol tx}"

lemma tob_scores_simps [simp]:
  "tob_scores A pol {} = {}"
  "tob_scores A pol (insert (h, tx) S) =
     (if tob_bid A pol tx then insert (h, compute_priority A tx pol) (tob_scores A pol S) else tob_scores A pol S)"
  by (auto simp: tob_scores_def)

lemma tob_scoresE:
  assumes "(h, s) \<in> tob_scores A pol S"
  obtains tx where "(h, tx) \<in> S" "tob_bid A pol tx" "s = compute_priority A tx pol"
  using assms by (auto simp: tob_scores_def)

text \<open>A priority at or above \<open>2 ^ 255\<close> is a top-of-block bid's.\<close>

lemma message_tob:
  assumes ok: "message_ok A pol fb S (h, x)" and top: "2 ^ 255 \<le> unat (ipc_priority x)" and fb: "unat fb < 2 ^ 129"
  shows "\<exists>s. (h, s) \<in> tob_scores A pol S \<and> ipc_priority x = encode_tob_priority s"
proof -
  have low: "unat (encode_opportunity_priority t) < 2 ^ 255" "unat (encode_backrun_bid_priority t s) < 2 ^ 255" for t s
    using unat_encode_request [of "TargetRequest t"] unat_encode_request [of "BidRequest t s"]
      group_top [of "group_of t"] unat_less_128 [of "ucast s :: u128"] by simp_all
  have "tob_bid A pol (ipc_payload x)" "ipc_priority x = tob_priority A pol fb (ipc_payload x)" "(h, ipc_payload x) \<in> S"
    using ok top low by (auto simp: message_ok_def not_less [symmetric])
  moreover from this have "ipc_priority x = encode_tob_priority (compute_priority A (ipc_payload x) pol)"
    using top fb by (auto simp: tob_priority_def split: if_splits)
  ultimately show ?thesis by (auto simp: tob_scores_def)
qed

lemma best_tob_first:
  assumes run: "ipc_path A P it (initial mode m) ls c" and mp: "Suc (unat (pm_max_pending_entries mode)) < 2 ^ 64"
    and fb: "unat (pm_fallback mode) < 2 ^ 129" and sends: "\<forall>(ev, ans) \<in> set (received ls). \<forall>i. send_ok ans i"
    and block: "block_of (wire_of ls) L" "written (wire_of ls) \<subseteq> set L"
    and one: "\<forall>(h, tx) \<in> inserts (received ls). \<forall>tx'. (h, tx') \<in> inserts (received ls) \<longrightarrow> tx' = tx"
    and bids: "tob_scores A (pm_policy mode) (inserts (received ls)) \<noteq> {}"
    and fit: "\<forall>(h, s) \<in> tob_scores A (pm_policy mode) (inserts (received ls)).
        0 < s \<and> unat s < 2 ^ 128 \<and> h \<notin> bid_targets A (pm_policy mode) (inserts (received ls))"
  shows "\<exists>h s rest. L = (h, encode_tob_priority s) # rest \<and> (h, s) \<in> tob_scores A (pm_policy mode) (inserts (received ls))
    \<and> (\<forall>(k, v) \<in> tob_scores A (pm_policy mode) (inserts (received ls)). v \<le> s)"
proof -
  let ?T = "tob_scores A (pm_policy mode) (inserts (received ls))"
  have on: "(h, encode_tob_priority s) \<in> set L" if "(h, s) \<in> ?T" for h s
  proof -
    from that obtain tx where tx: "(h, tx) \<in> inserts (received ls)" "tob_bid A (pm_policy mode) tx" "s = compute_priority A tx (pm_policy mode)"
      by (rule tob_scoresE)
    have "\<forall>tx'. (h, tx') \<in> inserts (received ls) \<longleftrightarrow> tx' = tx" using tx(1) one by blast
    moreover have "h \<notin> bid_targets A (pm_policy mode) (inserts (received ls))" "s \<noteq> 0" using bspec [OF fit that] by auto
    ultimately have "(h, \<lparr>ipc_payload = tx, ipc_priority = encode_tob_priority s, extra_data = []\<rparr>) \<in> set (wire_of ls)"
      using tob_written [OF run mp sends _ tx(2), of h] by (simp add: tob_priority_def tx(3))
    then show ?thesis using block(2) by (force simp: written_def)
  qed
  have sorted: "sorted_wrt (\<lambda>x y. snd y \<le> snd x) L" using block(1) by (simp add: block_of_def)
  obtain h0 s0 where "(h0, s0) \<in> ?T" using bids by auto
  note first = on [OF this]
  then obtain h p rest where L: "L = (h, p) # rest" by (cases L) auto
  have "encode_tob_priority s0 \<le> p" using sorted_hd_greatest [OF sorted first] by (simp add: L)
  then have top: "2 ^ 255 \<le> unat p" by (simp add: word_le_nat_alt unat_encoding)
  then have "(h, p) \<in> written (wire_of ls)" using block(1) by (auto simp: block_of_def L)
  then obtain x where x: "(h, x) \<in> set (wire_of ls)" "p = ipc_priority x" by (auto simp: written_def)
  from message_tob [OF run_messages_ok [OF run mp x(1)] top [unfolded x(2)] fb]
  obtain s where s: "(h, s) \<in> ?T" "p = encode_tob_priority s" by (auto simp: x(2))
  have "v \<le> s" if "(k, v) \<in> ?T" for k v
    using sorted_hd_greatest [OF sorted on [OF that]] bspec [OF fit that] bspec [OF fit s(1)] s(2) by (simp add: L score_order)
  with s L show ?thesis by blast
qed

subsection \<open>The place behind a target\<close>

text \<open>The reported bids for a target, each with its score.\<close>

definition bid_scores :: "'tx alloy \<Rightarrow> policy_config \<Rightarrow> (txhash \<times> 'tx) set \<Rightarrow> txhash \<Rightarrow> (txhash \<times> u256) set" where
  "bid_scores A pol S t = {(h, compute_priority A tx pol) |h tx. (h, tx) \<in> S \<and> backrun_bid_for A pol tx t}"

lemma bid_scores_simps [simp]:
  "bid_scores A pol {} t = {}"
  "bid_scores A pol (insert (h, tx) S) t =
     (if backrun_bid_for A pol tx t then insert (h, compute_priority A tx pol) (bid_scores A pol S t) else bid_scores A pol S t)"
  by (auto simp: bid_scores_def)

lemma bid_scoresE:
  assumes "(h, s) \<in> bid_scores A pol S t"
  obtains tx where "(h, tx) \<in> S" "backrun_bid_for A pol tx t" "s = compute_priority A tx pol"
  using assms by (auto simp: bid_scores_def)

lemma best_bid_behind:
  assumes run: "ipc_path A P it (initial mode m) ls c" and mp: "Suc (unat (pm_max_pending_entries mode)) < 2 ^ 64"
    and fb: "unat (pm_fallback mode) < 2 ^ 129" and within: "within_bounds mode (received ls)"
    and block: "block_of (wire_of ls) L" "written (wire_of ls) \<subseteq> set L"
    and one: "\<forall>(h, tx) \<in> inserts (received ls). \<forall>tx'. (h, tx') \<in> inserts (received ls) \<longrightarrow> tx' = tx"
    and inj: "inj_on backrun_id (bid_targets A (pm_policy mode) (inserts (received ls)))" and t0: "backrun_id t \<noteq> 0"
    and target: "(t, ttx) \<in> inserts (received ls)" "\<not> to_gateway A (pm_policy mode) ttx" "t \<notin> gone (received ls)"
    and bids: "bid_scores A (pm_policy mode) (inserts (received ls)) t \<noteq> {}"
    and fit: "\<forall>(h, s) \<in> bid_scores A (pm_policy mode) (inserts (received ls)) t.
        unat s < 2 ^ 128 \<and> h \<notin> gone (received ls) \<and> h \<notin> bid_targets A (pm_policy mode) (inserts (received ls))"
  shows "\<exists>xs h s ys. L = xs @ (t, encode_opportunity_priority t) # (h, encode_backrun_bid_priority t s) # ys
    \<and> (h, s) \<in> bid_scores A (pm_policy mode) (inserts (received ls)) t
    \<and> (\<forall>(k, v) \<in> bid_scores A (pm_policy mode) (inserts (received ls)) t. v \<le> s)"
proof -
  let ?B = "bid_scores A (pm_policy mode) (inserts (received ls)) t"
  have ttx: "\<forall>tx. (t, tx) \<in> inserts (received ls) \<longleftrightarrow> tx = ttx" using target(1) one by blast
  have on: "(t, encode_opportunity_priority t) \<in> set L \<and> (h, encode_backrun_bid_priority t s) \<in> set L" if "(h, s) \<in> ?B" for h s
  proof -
    from that obtain tx where tx: "(h, tx) \<in> inserts (received ls)" "backrun_bid_for A (pm_policy mode) tx t" "s = compute_priority A tx (pm_policy mode)"
      by (rule bid_scoresE)
    have "\<forall>tx'. (h, tx') \<in> inserts (received ls) \<longleftrightarrow> tx' = tx" using tx(1) one by blast
    from pair_written [OF run mp within _ target(3) this tx(2) ttx target(2)] fit that
    have "(t, \<lparr>ipc_payload = ttx, ipc_priority = encode_opportunity_priority t, extra_data = []\<rparr>) \<in> set (wire_of ls)
      \<and> (h, \<lparr>ipc_payload = tx, ipc_priority = encode_backrun_bid_priority t s, extra_data = []\<rparr>) \<in> set (wire_of ls)"
      by (auto simp: tx(3) [symmetric])
    then show ?thesis using block(2) by (force simp: written_def)
  qed
  obtain h0 s0 where b0: "(h0, s0) \<in> ?B" using bids by auto
  from on [OF b0] obtain xs zs where L: "L = xs @ (t, encode_opportunity_priority t) # zs" by (meson split_list)
  note r = run_block [OF run mp fb block(1) inj t0 L]
  have sorted: "sorted_wrt (\<lambda>x y. snd y \<le> snd x) (filter (behind t) L)"
    using block(1) by (simp add: block_of_def sorted_wrt_filter)
  have mem: "(k, encode_backrun_bid_priority t v) \<in> set (filter (behind t) L)" if "(k, v) \<in> ?B" for k v
    using on [OF that] by (simp add: behind_def bid_in_range)
  from mem [OF b0] obtain h p ys where F: "filter (behind t) L = (h, p) # ys" by (cases "filter (behind t) L") auto
  then have "(h, p) \<in> set (filter (behind t) L)" by simp
  from r(3) [OF this] obtain s where s: "(h, s) \<in> ?B" "p = encode_backrun_bid_priority t s" by (auto simp: bid_scores_def)
  have "v \<le> s" if "(k, v) \<in> ?B" for k v
    using sorted_hd_greatest [OF sorted mem [OF that]] bspec [OF fit that] bspec [OF fit s(1)] s(2) by (simp add: F score_order)
  moreover have "L = xs @ (t, encode_opportunity_priority t) # (h, encode_backrun_bid_priority t s) # ys @ filter (\<lambda>x. \<not> behind t x) zs"
    using r(1) unfolding F s(2) [symmetric] append_Cons .
  ultimately show ?thesis using s(1) by blast
qed

end
