(* ===== verification/Test_Fixtures.thy ===== *)
theory Test_Fixtures
  imports Pool_Operations
begin

section \<open>Fixtures of the repository's tests\<close>

text \<open>
  The helpers of the test modules of \<^verbatim>\<open>src/policy.rs\<close>, \<^verbatim>\<open>src/backrun.rs\<close> and
  \<^verbatim>\<open>src/txpool_ipc.rs\<close>: hashes with one set byte, calldata of a gateway call, signed envelopes, a
  policy and a pool for tests. The constructors of envelopes and the ABI encoder are code of the
  crate \<open>alloy\<close>: they are the fields of the record \<open>builder\<close>, and \<open>builder_laws\<close> states the
  documented relation to the accessors and the decoder of the record \<open>alloy\<close>.
\<close>

subsection \<open>Constructors of the foreign crate\<close>

record tx_eip1559 =
  e_chain_id :: u64
  e_nonce :: u64
  e_gas_limit :: u64
  e_max_fee_per_gas :: u128
  e_max_priority_fee_per_gas :: u128
  e_to :: "address option"
  e_value :: u256
  e_access_list :: "(address \<times> u256 list) list"
  e_input :: "u8 list"

record tx_legacy =
  l_chain_id :: "u64 option"
  l_nonce :: u64
  l_gas_price :: u128
  l_gas_limit :: u64
  l_to :: "address option"
  l_value :: u256
  l_input :: "u8 list"

type_synonym signature = "u256 \<times> u256 \<times> bool"

record 'tx builder =
  new_eip1559 :: "tx_eip1559 \<Rightarrow> signature \<Rightarrow> txhash \<Rightarrow> 'tx"
  new_legacy :: "tx_legacy \<Rightarrow> signature \<Rightarrow> txhash \<Rightarrow> 'tx"
  abi_encode_raw :: "gateway_call_args \<Rightarrow> u8 list"

text \<open>The accessors read the fields back, a legacy transaction has one price, the decoder inverts
  the encoder, a selector has four bytes.\<close>

definition builder_laws :: "'tx alloy \<Rightarrow> 'tx builder \<Rightarrow> bool" where
  "builder_laws A B \<longleftrightarrow>
     (\<forall>t s h. tx_to A (new_eip1559 B t s h) = e_to t
        \<and> tx_gas_limit A (new_eip1559 B t s h) = e_gas_limit t
        \<and> tx_input A (new_eip1559 B t s h) = e_input t
        \<and> tx_priority_fee_or_price A (new_eip1559 B t s h) = e_max_priority_fee_per_gas t
        \<and> tx_max_fee_per_gas A (new_eip1559 B t s h) = e_max_fee_per_gas t)
     \<and> (\<forall>t s h. tx_to A (new_legacy B t s h) = l_to t
        \<and> tx_gas_limit A (new_legacy B t s h) = l_gas_limit t
        \<and> tx_input A (new_legacy B t s h) = l_input t
        \<and> tx_priority_fee_or_price A (new_legacy B t s h) = l_gas_price t
        \<and> tx_max_fee_per_gas A (new_legacy B t s h) = l_gas_price t)
     \<and> (\<forall>args. abi_decode_raw A (abi_encode_raw B args) = Some args)
     \<and> length (call_selector A) = 4"

subsection \<open>Hashes\<close>

text \<open>A \<open>B256\<close> from its 32 bytes, the first one the most significant.\<close>

definition b256 :: "u8 list \<Rightarrow> u256" where
  "b256 bs = foldl (\<lambda>w b. push_bit 8 w OR ucast b) 0 bs"

definition tx_hash :: "u8 \<Rightarrow> txhash" where
  "tx_hash byte = b256 ((replicate 32 0)[0 := byte])"

definition repeat_byte :: "u8 \<Rightarrow> txhash" where
  "repeat_byte byte = b256 (replicate 32 byte)"

lemma unat_ucast_byte: "unat (ucast (b :: u8) :: u256) = unat b"
  by (rule unat_ucast_up) simp

lemma unat_less_8: "unat (b :: u8) < 256"
  by (rule order_less_le_trans [OF unsigned_less]) simp

lemma b256_zeros: "foldl (\<lambda>w b. push_bit 8 w OR ucast (b :: u8)) (w :: u256) (replicate n 0) = push_bit (8 * n) w"
  by (induction n arbitrary: w) (simp_all add: add.commute)

lemma tx_hash_eq: "tx_hash b = push_bit 248 (ucast b)"
proof -
  have "(replicate 32 0)[0 := b] = b # replicate 31 0"
    by (simp add: numeral_eq_Suc)
  then show ?thesis by (simp add: tx_hash_def b256_def b256_zeros)
qed

lemma unat_tx_hash [unat_encoding]: "unat (tx_hash b) = unat b * 2 ^ 248"
proof -
  have "unat (ucast b :: u256) < 2 ^ (256 - 248)"
    using unat_less_8 [of b] by (simp add: unat_ucast_byte)
  then show ?thesis
    using unat_or_shift [of 248 "ucast b" 0] by (simp add: tx_hash_eq unat_ucast_byte)
qed

lemma tx_hash_eq_iff [simp]: "tx_hash a = tx_hash b \<longleftrightarrow> a = b"
proof
  assume "tx_hash a = tx_hash b"
  then have "unat a * 2 ^ 248 = unat b * (2 ^ 248 :: nat)" by (metis unat_tx_hash)
  then show "a = b" by (auto intro: unsigned_word_eqI)
qed simp

lemma tx_hash_zero [simp]: "tx_hash b = 0 \<longleftrightarrow> b = 0"
proof -
  have "tx_hash b = 0 \<longleftrightarrow> unat b * 2 ^ 248 = (0 :: nat)"
    unfolding unat_tx_hash [symmetric] by (simp add: unat_eq_zero)
  then show ?thesis by (simp add: unat_eq_zero)
qed

lemma unat_backrun_id_tx_hash: "unat (backrun_id (tx_hash b)) = unat b * 2 ^ 118"
proof -
  have "unat b * 2 ^ 248 = unat b * 2 ^ 118 * (2 ^ 130 :: nat)" by simp
  then show ?thesis unfolding unat_backrun_id unat_tx_hash by (metis nonzero_mult_div_cancel_right power_not_zero zero_neq_numeral)
qed

lemma low_byte: "ucast (push_bit 8 (w :: u256) OR ucast b) = (b :: u8)"
  by (rule bit_word_eqI) (auto simp: bit_simps)

lemma repeat_byte_eq_iff [simp]: "repeat_byte a = repeat_byte b \<longleftrightarrow> a = b"
proof
  have low: "ucast (repeat_byte x) = x" for x
  proof -
    have "replicate 32 x = replicate 31 x @ [x]"
      using replicate_append_same [of 31 x] replicate_Suc [of 31 x] by (simp only: eval_nat_numeral) simp
    then show ?thesis
      by (simp only: repeat_byte_def b256_def foldl_append foldl_Cons foldl_Nil low_byte)
  qed
  assume "repeat_byte a = repeat_byte b"
  then show "a = b" by (metis low)
qed simp

subsection \<open>Policy, calldata, envelopes\<close>

definition for_test :: "address \<Rightarrow> u128 \<Rightarrow> policy_config" where
  "for_test gw fl = \<lparr>gateway = gw, base_fee_floor_wei = fl\<rparr>"

definition gateway_call_calldata_with_target :: "'tx alloy \<Rightarrow> 'tx builder \<Rightarrow> u256 \<Rightarrow> txhash \<Rightarrow> u8 list" where
  "gateway_call_calldata_with_target A B amount target =
     call_selector A @ abi_encode_raw B
       \<lparr>sender = 0xee, bidAmount = amount, targetBlockNumber = 0, targetTxHash = target,
        requireExclusiveSlot = False, searcherContract = 0xff,
        searcherCallData = [0x6f, 0x70, 0x61, 0x71, 0x75, 0x65]\<rparr>"

definition gateway_call_calldata :: "'tx alloy \<Rightarrow> 'tx builder \<Rightarrow> u256 \<Rightarrow> u8 list" where
  "gateway_call_calldata A B amount = gateway_call_calldata_with_target A B amount 0"

definition dummy_sig :: signature where
  "dummy_sig = (1, 1, False)"

lemma for_test_simps [simp]:
  "gateway (for_test gw fl) = gw" "base_fee_floor_wei (for_test gw fl) = fl"
  by (simp_all add: for_test_def)

lemma accessors_eip1559:
  assumes "builder_laws A B"
  shows "tx_to A (new_eip1559 B t s h) = e_to t" "tx_gas_limit A (new_eip1559 B t s h) = e_gas_limit t"
    "tx_input A (new_eip1559 B t s h) = e_input t"
    "tx_priority_fee_or_price A (new_eip1559 B t s h) = e_max_priority_fee_per_gas t"
    "tx_max_fee_per_gas A (new_eip1559 B t s h) = e_max_fee_per_gas t"
  using assms unfolding builder_laws_def by blast+

lemma accessors_legacy:
  assumes "builder_laws A B"
  shows "tx_to A (new_legacy B l s h) = l_to l" "tx_gas_limit A (new_legacy B l s h) = l_gas_limit l"
    "tx_input A (new_legacy B l s h) = l_input l"
    "tx_priority_fee_or_price A (new_legacy B l s h) = l_gas_price l"
    "tx_max_fee_per_gas A (new_legacy B l s h) = l_gas_price l"
  using assms unfolding builder_laws_def by blast+

lemma decode_calldata:
  assumes "builder_laws A B" "tx_input A tx = gateway_call_calldata_with_target A B amount target"
  shows "decode_gateway_call A tx = Some \<lparr>bid_amount = amount, target_tx_hash = target\<rparr>"
  using assms by (simp add: decode_gateway_call_def gateway_call_calldata_with_target_def builder_laws_def)

lemma score_eqI:
  assumes "fee_value A tx pol + bid_value A tx pol = unat n"
  shows "compute_priority A tx pol = n"
proof (rule unsigned_word_eqI)
  have "unat n \<le> 2 ^ 256 - 1" using unat_less_256 [of n] by linarith
  then show "unat (compute_priority A tx pol) = unat n"
    unfolding unat_compute_priority assms by (rule min_absorb2)
qed

end
