(* ===== verification/Test_Policy.thy ===== *)
theory Test_Policy
  imports Test_Fixtures
begin

section \<open>The tests of the policy module\<close>

text \<open>
  Each unit test of \<^verbatim>\<open>src/policy.rs\<close> as a predicate on the foreign crate, under the name of the
  test, and the proof that it passes for every crate that obeys \<open>builder_laws\<close>.
\<close>

definition UNRELATED_GATEWAY :: address where
  "UNRELATED_GATEWAY = 0xff"

definition signed_eip1559 :: "'tx builder \<Rightarrow> tx_eip1559 \<Rightarrow> 'tx" where
  "signed_eip1559 B tx = new_eip1559 B tx dummy_sig 1"

definition signed_legacy :: "'tx builder \<Rightarrow> tx_legacy \<Rightarrow> 'tx" where
  "signed_legacy B tx = new_legacy B tx dummy_sig 2"

subsection \<open>Scores\<close>

definition eip1559_priority_fee_only :: "'tx alloy \<Rightarrow> 'tx builder \<Rightarrow> bool" where
  "eip1559_priority_fee_only A B \<longleftrightarrow>
     (let tx = signed_eip1559 B
           \<lparr>e_chain_id = 1, e_nonce = 0, e_gas_limit = 21000, e_max_fee_per_gas = 100,
            e_max_priority_fee_per_gas = 5, e_to = Some 0xaa, e_value = 1000, e_access_list = [],
            e_input = []\<rparr>;
          policy = for_test UNRELATED_GATEWAY 0
      in compute_priority A tx policy = 105000)"

definition eip1559_gateway_receive_topup_does_not_count_value_as_bid :: "'tx alloy \<Rightarrow> 'tx builder \<Rightarrow> bool" where
  "eip1559_gateway_receive_topup_does_not_count_value_as_bid A B \<longleftrightarrow>
     (let tx = signed_eip1559 B
           \<lparr>e_chain_id = 1, e_nonce = 0, e_gas_limit = 21000, e_max_fee_per_gas = 100,
            e_max_priority_fee_per_gas = 5, e_to = Some 0xbb, e_value = 1000000, e_access_list = [],
            e_input = []\<rparr>;
          policy = for_test 0xbb 0
      in compute_priority A tx policy = 105000)"

definition gateway_call_uses_decoded_bid_amount :: "'tx alloy \<Rightarrow> 'tx builder \<Rightarrow> bool" where
  "gateway_call_uses_decoded_bid_amount A B \<longleftrightarrow>
     (let tx = signed_eip1559 B
           \<lparr>e_chain_id = 1, e_nonce = 0, e_gas_limit = 21000, e_max_fee_per_gas = 100,
            e_max_priority_fee_per_gas = 5, e_to = Some 0xbb, e_value = 0, e_access_list = [],
            e_input = gateway_call_calldata A B 7000000\<rparr>;
          policy = for_test 0xbb 0
      in compute_priority A tx policy = 7105000)"

definition gateway_with_unknown_selector_gets_zero_bid :: "'tx alloy \<Rightarrow> 'tx builder \<Rightarrow> bool" where
  "gateway_with_unknown_selector_gets_zero_bid A B \<longleftrightarrow>
     (let tx = signed_eip1559 B
           \<lparr>e_chain_id = 1, e_nonce = 0, e_gas_limit = 21000, e_max_fee_per_gas = 100,
            e_max_priority_fee_per_gas = 5, e_to = Some 0xbb, e_value = 2000, e_access_list = [],
            e_input = [0xde, 0xad, 0xbe, 0xef] @ replicate 32 0\<rparr>;
          policy = for_test 0xbb 0
      in compute_priority A tx policy = 105000)"

definition non_gateway_recipient_excluded :: "'tx alloy \<Rightarrow> 'tx builder \<Rightarrow> bool" where
  "non_gateway_recipient_excluded A B \<longleftrightarrow>
     (let tx = signed_eip1559 B
           \<lparr>e_chain_id = 1, e_nonce = 0, e_gas_limit = 21000, e_max_fee_per_gas = 100,
            e_max_priority_fee_per_gas = 5, e_to = Some 0xcc, e_value = 999999, e_access_list = [],
            e_input = []\<rparr>;
          policy = for_test 0xbb 0
      in compute_priority A tx policy = 105000)"

definition legacy_tx_uses_gas_price_minus_floor :: "'tx alloy \<Rightarrow> 'tx builder \<Rightarrow> bool" where
  "legacy_tx_uses_gas_price_minus_floor A B \<longleftrightarrow>
     (let tx = signed_legacy B
           \<lparr>l_chain_id = Some 1, l_nonce = 0, l_gas_price = 50, l_gas_limit = 21000, l_to = Some 0xaa,
            l_value = 0, l_input = []\<rparr>;
          policy = for_test UNRELATED_GATEWAY 10
      in compute_priority A tx policy = 840000)"

definition create_tx_has_no_value_component :: "'tx alloy \<Rightarrow> 'tx builder \<Rightarrow> bool" where
  "create_tx_has_no_value_component A B \<longleftrightarrow>
     (let tx = signed_eip1559 B
           \<lparr>e_chain_id = 1, e_nonce = 0, e_gas_limit = 21000, e_max_fee_per_gas = 100,
            e_max_priority_fee_per_gas = 7, e_to = None, e_value = 123, e_access_list = [],
            e_input = []\<rparr>;
          policy = for_test 0xbb 0
      in compute_priority A tx policy = 7 * 21000)"

text \<open>The value of a score, for envelopes of either kind.\<close>

lemma score_signed:
  assumes "builder_laws A B"
  shows "min (unat (e_max_priority_fee_per_gas t)) (unat (e_max_fee_per_gas t) - unat (base_fee_floor_wei pol))
      * unat (e_gas_limit t) + bid_value A (signed_eip1559 B t) pol = unat n \<Longrightarrow>
    compute_priority A (signed_eip1559 B t) pol = n"
    "min (unat (l_gas_price l)) (unat (l_gas_price l) - unat (base_fee_floor_wei pol))
      * unat (l_gas_limit l) + bid_value A (signed_legacy B l) pol = unat n \<Longrightarrow>
    compute_priority A (signed_legacy B l) pol = n"
  unfolding signed_eip1559_def signed_legacy_def
  by (rule score_eqI; simp add: fee_value_def accessors_eip1559 [OF assms] accessors_legacy [OF assms])+

lemma no_bid_value:
  "tx_to A tx \<noteq> Some (gateway pol) \<or> decode_gateway_call A tx = None \<Longrightarrow> bid_value A tx pol = 0"
  by (auto simp: bid_value_def)

lemma scores_without_bid:
  assumes "builder_laws A B"
  shows "eip1559_priority_fee_only A B" "eip1559_gateway_receive_topup_does_not_count_value_as_bid A B"
    "non_gateway_recipient_excluded A B" "legacy_tx_uses_gas_price_minus_floor A B"
    "create_tx_has_no_value_component A B"
    "call_selector A \<noteq> [0xde, 0xad, 0xbe, 0xef] \<Longrightarrow> gateway_with_unknown_selector_gets_zero_bid A B"
  unfolding eip1559_priority_fee_only_def eip1559_gateway_receive_topup_does_not_count_value_as_bid_def
    non_gateway_recipient_excluded_def legacy_tx_uses_gas_price_minus_floor_def
    create_tx_has_no_value_component_def gateway_with_unknown_selector_gets_zero_bid_def Let_def
  by (rule score_signed [OF assms];
      subst no_bid_value;
      simp add: signed_eip1559_def signed_legacy_def accessors_eip1559 [OF assms] accessors_legacy [OF assms]
        UNRELATED_GATEWAY_def decode_gateway_call_def)+

lemma score_with_bid:
  assumes "builder_laws A B"
  shows "gateway_call_uses_decoded_bid_amount A B"
  unfolding gateway_call_uses_decoded_bid_amount_def Let_def
  by (rule score_signed(1) [OF assms])
     (simp add: bid_value_def signed_eip1559_def accessors_eip1559 [OF assms] gateway_call_calldata_def
       decode_calldata [OF assms])

subsection \<open>Networks and the unset gateway\<close>

definition network_constants_are_well_formed :: bool where
  "network_constants_are_well_formed \<longleftrightarrow>
     network_gateway Mainnet \<noteq> 0 \<and> network_gateway Testnet \<noteq> 0 \<and> network_gateway Localnet \<noteq> 0
     \<and> network_base_fee_floor_wei Mainnet = 0 \<and> network_base_fee_floor_wei Testnet = 0
     \<and> network_base_fee_floor_wei Localnet = 0
     \<and> (let p = for_network Localnet
         in gateway p = network_gateway Localnet
            \<and> is_allowlisted_gateway p (network_gateway Localnet) \<and> \<not> is_allowlisted_gateway p 0)"

definition gateway_is_unset_detects_zero_address :: bool where
  "gateway_is_unset_detects_zero_address \<longleftrightarrow>
     gateway_is_unset (for_test 0 0) \<and> \<not> gateway_is_unset (for_test 0xbb 0)"

lemma network_tests: "network_constants_are_well_formed" "gateway_is_unset_detects_zero_address"
  by (simp_all add: network_constants_are_well_formed_def gateway_is_unset_detects_zero_address_def
      for_network_def is_allowlisted_gateway_def gateway_is_unset_def)

subsection \<open>Decoding\<close>

definition decode_gateway_call_extracts_bid_and_target :: "'tx alloy \<Rightarrow> 'tx builder \<Rightarrow> bool" where
  "decode_gateway_call_extracts_bid_and_target A B \<longleftrightarrow>
     (let t = tx_hash 0xab;
          tx = new_eip1559 B
           \<lparr>e_chain_id = 1, e_nonce = 0, e_gas_limit = 21000, e_max_fee_per_gas = 100,
            e_max_priority_fee_per_gas = 5, e_to = Some 0xbb, e_value = 0, e_access_list = [],
            e_input = gateway_call_calldata_with_target A B 42 t\<rparr> dummy_sig 3;
          tob = new_eip1559 B
           \<lparr>e_chain_id = 1, e_nonce = 0, e_gas_limit = 21000, e_max_fee_per_gas = 100,
            e_max_priority_fee_per_gas = 5, e_to = Some 0xbb, e_value = 0, e_access_list = [],
            e_input = gateway_call_calldata A B 1\<rparr> dummy_sig 4
      in (case decode_gateway_call A tx of
            None \<Rightarrow> False
          | Some call \<Rightarrow> bid_amount call = 42 \<and> target_tx_hash call = t \<and> \<not> is_tob call)
         \<and> (case decode_gateway_call A tob of None \<Rightarrow> False | Some call \<Rightarrow> is_tob call))"

lemma decoding_test: "builder_laws A B \<Longrightarrow> decode_gateway_call_extracts_bid_and_target A B"
  by (simp add: decode_gateway_call_extracts_bid_and_target_def decode_calldata accessors_eip1559
      gateway_call_calldata_def is_tob_def)

subsection \<open>Structured priorities\<close>

definition tob_outranks_every_backrun :: bool where
  "tob_outranks_every_backrun \<longleftrightarrow>
     (let tob = encode_tob_priority 1;
          big_target = b256 (replicate 32 0xff);
          opp = encode_opportunity_priority big_target;
          bid = encode_backrun_bid_priority big_target low_128_mask
      in opp < tob \<and> bid < tob \<and> bit tob TOB_MARKER_BIT)"

definition opportunity_sits_just_above_its_bids :: bool where
  "opportunity_sits_just_above_its_bids \<longleftrightarrow>
     (let t = tx_hash 0x10;
          opp = encode_opportunity_priority t;
          hi = encode_backrun_bid_priority t 1000000;
          lo = encode_backrun_bid_priority t 1
      in hi < opp \<and> lo < hi)"

definition same_target_shares_group_other_targets_do_not :: bool where
  "same_target_shares_group_other_targets_do_not \<longleftrightarrow>
     (let t1 = tx_hash 0x10;
          t2 = tx_hash 0x20;
          group = (\<lambda>p. drop_bit GROUP_KEY_SHIFT p)
      in group (encode_opportunity_priority t1) = group (encode_backrun_bid_priority t1 5)
         \<and> group (encode_opportunity_priority t1) \<noteq> group (encode_opportunity_priority t2))"

definition backrun_groups_sit_above_vanilla_priorities :: bool where
  "backrun_groups_sit_above_vanilla_priorities \<longleftrightarrow>
     (let t = tx_hash 0x01;
          vanilla = 0xffff
      in vanilla < encode_backrun_bid_priority t 1 \<and> vanilla < encode_opportunity_priority t)"

text \<open>The group of a backrun priority.\<close>

lemma unat_drop_bit: "unat (drop_bit n (w :: u256)) = unat w div 2 ^ n"
proof -
  have "take_bit 256 (unat w) = unat w"
    by (rule take_bit_nat_eq_self [OF unat_less_256])
  then show ?thesis by (simp only: unsigned_drop_bit_eq) (simp add: drop_bit_eq_div)
qed

lemma group_of_encoded:
  "drop_bit GROUP_KEY_SHIFT (encode_opportunity_priority t) = backrun_id t"
  "drop_bit GROUP_KEY_SHIFT (encode_backrun_bid_priority t s) = backrun_id t"
proof -
  have m: "unat s mod 2 ^ 128 < (2::nat) ^ 129"
    by (rule order_less_trans [OF mod_less_divisor]) auto
  have div: "r < 2 ^ 129 \<Longrightarrow> (k * 2 ^ 129 + r) div 2 ^ 129 = k" for k r :: nat
    by (metis add.commute add.right_neutral div_less div_mult_self1 power_not_zero zero_neq_numeral)
  have "unat (drop_bit GROUP_KEY_SHIFT (encode_opportunity_priority t)) = unat (backrun_id t)"
    unfolding unat_drop_bit unat_encode_opportunity GROUP_KEY_SHIFT_def by (rule div) simp
  then show "drop_bit GROUP_KEY_SHIFT (encode_opportunity_priority t) = backrun_id t"
    by (rule unsigned_word_eqI)
  have "unat (drop_bit GROUP_KEY_SHIFT (encode_backrun_bid_priority t s)) = unat (backrun_id t)"
    unfolding unat_drop_bit unat_encode_bid GROUP_KEY_SHIFT_def by (rule div [OF m])
  then show "drop_bit GROUP_KEY_SHIFT (encode_backrun_bid_priority t s) = backrun_id t"
    by (rule unsigned_word_eqI)
qed

lemma backrun_id_tx_hash_iff: "backrun_id (tx_hash a) = backrun_id (tx_hash b) \<longleftrightarrow> a = b"
proof
  assume "backrun_id (tx_hash a) = backrun_id (tx_hash b)"
  then have "unat a * 2 ^ 118 = unat b * (2 ^ 118 :: nat)" by (metis unat_backrun_id_tx_hash)
  then show "a = b" by (auto intro: unsigned_word_eqI)
qed simp

lemma encoder_tests:
  "tob_outranks_every_backrun" "opportunity_sits_just_above_its_bids"
  "same_target_shares_group_other_targets_do_not" "backrun_groups_sit_above_vanilla_priorities"
proof -
  have b: "unat (backrun_id t) * 2 ^ 129 + 2 ^ 128 < 2 ^ 255" for t
  proof -
    have "(unat (backrun_id t) + 1) * 2 ^ 129 \<le> 2 ^ 126 * (2 ^ 129 :: nat)"
      using backrun_id_bound [of t] by (intro mult_right_mono) auto
    then show ?thesis by simp
  qed
  have m: "unat s mod 2 ^ 128 < (2 :: nat) ^ 128" for s :: u256
    by simp
  have tob: "encode_opportunity_priority t < encode_tob_priority s"
    "encode_backrun_bid_priority t s' < encode_tob_priority s" for t s s'
    using b [of t] m [of s'] unfolding word_less_nat_alt unat_encode_tob unat_encode_opportunity unat_encode_bid
    by linarith+
  show "tob_outranks_every_backrun"
    unfolding tob_outranks_every_backrun_def Let_def
    by (intro conjI tob) (simp add: encode_tob_priority_def TOB_MARKER_BIT_def bit_simps)
  show "opportunity_sits_just_above_its_bids"
    unfolding opportunity_sits_just_above_its_bids_def Let_def word_less_nat_alt unat_encode_opportunity unat_encode_bid
    by simp
  show "same_target_shares_group_other_targets_do_not"
    unfolding same_target_shares_group_other_targets_do_not_def Let_def group_of_encoded backrun_id_tx_hash_iff
    by simp
  show "backrun_groups_sit_above_vanilla_priorities"
    unfolding backrun_groups_sit_above_vanilla_priorities_def Let_def word_less_nat_alt unat_encode_opportunity
      unat_encode_bid unat_backrun_id_tx_hash
    by simp
qed

end
