(* ===== verification/Test_Pool.thy ===== *)
theory Test_Pool
  imports Test_Policy
begin

section \<open>The tests of the pairing pool\<close>

text \<open>
  Each unit test of \<^verbatim>\<open>src/backrun.rs\<close> as a predicate on the foreign crate and on the readings of
  the monotonic clock, under the name of the test, and the proof that it passes for every crate
  that obeys \<open>builder_laws\<close>, whatever the clock says. \<open>clock i\<close> is the reading of the \<open>i\<close>-th call;
  \<open>it\<close> is the order in which the hash map of parked bids is visited.
\<close>

definition observe :: "'tx alloy \<Rightarrow> instant \<Rightarrow> txhash \<Rightarrow> 'tx \<Rightarrow> 'tx pending_pool \<Rightarrow>
    'tx observe_result \<times> 'tx pending_pool" where
  "observe A now hash tx p = observe_at A hash tx now p"

definition GW :: address where
  "GW = 0xbb"

definition OTHER :: address where
  "OTHER = 0xcc"

definition test_pool :: "'tx pending_pool" where
  "test_pool = pool_new (for_test GW 0) 0xffff 2500000000 1024 1024"

definition vanilla :: "'tx builder \<Rightarrow> address \<Rightarrow> 'tx" where
  "vanilla B to = new_eip1559 B
     \<lparr>e_chain_id = 1, e_nonce = 0, e_gas_limit = 21000, e_max_fee_per_gas = 100,
      e_max_priority_fee_per_gas = 5, e_to = Some to, e_value = 0, e_access_list = [],
      e_input = []\<rparr> dummy_sig 0xaa"

definition gateway_tx_with_gas :: "'tx builder \<Rightarrow> u8 list \<Rightarrow> u128 \<Rightarrow> u64 \<Rightarrow> 'tx" where
  "gateway_tx_with_gas B input max_priority_fee gas_limit = new_eip1559 B
     \<lparr>e_chain_id = 1, e_nonce = 0, e_gas_limit = gas_limit, e_max_fee_per_gas = max max_priority_fee 100,
      e_max_priority_fee_per_gas = max_priority_fee, e_to = Some GW, e_value = 0, e_access_list = [],
      e_input = input\<rparr> dummy_sig 0xaa"

definition test_gateway_tx :: "'tx builder \<Rightarrow> u8 list \<Rightarrow> 'tx" where
  "test_gateway_tx B input = gateway_tx_with_gas B input 5 21000"

subsection \<open>One observation\<close>

definition tob_bid_is_encoded_and_streamed_immediately :: "'tx alloy \<Rightarrow> 'tx builder \<Rightarrow> (nat \<Rightarrow> instant) \<Rightarrow> bool" where
  "tob_bid_is_encoded_and_streamed_immediately A B clock \<longleftrightarrow>
     (let p = test_pool;
          (res, p) = observe A (clock 0) (tx_hash 1) (test_gateway_tx B (gateway_call_calldata A B 7)) p
      in length (reinjections res) = 1 \<and> bit (rj_priority (reinjections res ! 0)) 255
         \<and> pairs_matched res = 0 \<and> \<not> skipped_non_gateway res)"

definition non_gateway_tx_is_cached_but_not_reinjected :: "'tx alloy \<Rightarrow> 'tx builder \<Rightarrow> (nat \<Rightarrow> instant) \<Rightarrow> bool" where
  "non_gateway_tx_is_cached_but_not_reinjected A B clock \<longleftrightarrow>
     (let p = test_pool;
          (res, p) = observe A (clock 0) (tx_hash 2) (vanilla B OTHER) p
      in reinjections res = [] \<and> skipped_non_gateway res \<and> cache_len p = 1)"

definition invalid_gateway_call_is_not_reinjected :: "'tx alloy \<Rightarrow> 'tx builder \<Rightarrow> (nat \<Rightarrow> instant) \<Rightarrow> bool" where
  "invalid_gateway_call_is_not_reinjected A B clock \<longleftrightarrow>
     (let p = test_pool;
          (res, p) = observe A (clock 0) (tx_hash 50) (test_gateway_tx B []) p
      in reinjections res = [] \<and> skipped_invalid_gateway res \<and> \<not> skipped_non_gateway res)"

subsection \<open>Pairing\<close>

definition target_already_pooled_pairs_immediately :: "'tx alloy \<Rightarrow> 'tx builder \<Rightarrow> (nat \<Rightarrow> instant) \<Rightarrow> bool" where
  "target_already_pooled_pairs_immediately A B clock \<longleftrightarrow>
     (let p = test_pool;
          target = tx_hash 3;
          (_, p) = observe A (clock 0) target (vanilla B OTHER) p;
          (res, p) = observe A (clock 1) (tx_hash 4)
                       (test_gateway_tx B (gateway_call_calldata_with_target A B 9 target)) p;
          group = (\<lambda>x. drop_bit 129 x)
      in pairs_matched res = 1 \<and> length (reinjections res) = 2
         \<and> rj_hash (reinjections res ! 0) = target
         \<and> rj_priority (reinjections res ! 0) = encode_opportunity_priority target
         \<and> rj_priority (reinjections res ! 1) = encode_backrun_bid_priority target 105009
         \<and> group (rj_priority (reinjections res ! 0)) = group (rj_priority (reinjections res ! 1))
         \<and> push_bit 129 (backrun_id target) = push_bit 129 (group (rj_priority (reinjections res ! 1))))"

definition bid_before_target_pairs_when_target_arrives :: "'tx alloy \<Rightarrow> 'tx builder \<Rightarrow> (nat \<Rightarrow> instant) \<Rightarrow> bool" where
  "bid_before_target_pairs_when_target_arrives A B clock \<longleftrightarrow>
     (let p = test_pool;
          target = tx_hash 5;
          (res1, p1) = observe A (clock 0) (tx_hash 6)
                         (test_gateway_tx B (gateway_call_calldata_with_target A B 3 target)) p;
          (res2, p2) = observe A (clock 1) target (vanilla B OTHER) p1
      in reinjections res1 = [] \<and> bids_pended res1 = 1 \<and> pending_len p1 = 1
         \<and> pairs_matched res2 = 1 \<and> length (reinjections res2) = 2
         \<and> rj_hash (reinjections res2 ! 0) = target \<and> pending_len p2 = 0)"

definition multiple_competing_bids_all_stream_and_self_order :: "'tx alloy \<Rightarrow> 'tx builder \<Rightarrow> (nat \<Rightarrow> instant) \<Rightarrow> bool" where
  "multiple_competing_bids_all_stream_and_self_order A B clock \<longleftrightarrow>
     (let p = test_pool;
          target = tx_hash 7;
          (_, p) = observe A (clock 0) (tx_hash 8)
                     (test_gateway_tx B (gateway_call_calldata_with_target A B 10 target)) p;
          (_, p2) = observe A (clock 1) (tx_hash 9)
                     (test_gateway_tx B (gateway_call_calldata_with_target A B 100 target)) p;
          (res, p3) = observe A (clock 2) target (vanilla B OTHER) p2;
          opp = rj_priority (reinjections res ! 0);
          bids = map rj_priority (tl (reinjections res))
      in pending_len p2 = 2 \<and> pairs_matched res = 2 \<and> length (reinjections res) = 3
         \<and> list_all (\<lambda>b. b < opp) bids \<and> bids \<noteq> [] \<and> Min (set bids) < Max (set bids))"

definition backrun_bids_rank_by_total_value_not_bare_bid :: "'tx alloy \<Rightarrow> 'tx builder \<Rightarrow> (nat \<Rightarrow> instant) \<Rightarrow> bool" where
  "backrun_bids_rank_by_total_value_not_bare_bid A B clock \<longleftrightarrow>
     (let p = test_pool;
          target = tx_hash 30;
          (_, p) = observe A (clock 0) target (vanilla B OTHER) p;
          (res_a, p) = observe A (clock 1) (tx_hash 31)
            (gateway_tx_with_gas B (gateway_call_calldata_with_target A B 1000 target) 1 21000) p;
          (res_b, p) = observe A (clock 2) (tx_hash 32)
            (gateway_tx_with_gas B (gateway_call_calldata_with_target A B 100 target) 1000 21000) p
      in reinjections res_a \<noteq> [] \<and> reinjections res_b \<noteq> []
         \<and> rj_priority (last (reinjections res_a)) < rj_priority (last (reinjections res_b))
         \<and> encode_backrun_bid_priority target 100 < encode_backrun_bid_priority target 1000)"

definition later_bid_after_target_streamed_does_not_restream_target :: "'tx alloy \<Rightarrow> 'tx builder \<Rightarrow> (nat \<Rightarrow> instant) \<Rightarrow> bool" where
  "later_bid_after_target_streamed_does_not_restream_target A B clock \<longleftrightarrow>
     (let p = test_pool;
          target = tx_hash 11;
          (_, p) = observe A (clock 0) target (vanilla B OTHER) p;
          (first, p) = observe A (clock 1) (tx_hash 12)
            (test_gateway_tx B (gateway_call_calldata_with_target A B 1 target)) p;
          (second, p) = observe A (clock 2) (tx_hash 13)
            (test_gateway_tx B (gateway_call_calldata_with_target A B 2 target)) p
      in length (reinjections first) = 2 \<and> length (reinjections second) = 1 \<and> pairs_matched second = 1)"

subsection \<open>Expiry, eviction, forgetting\<close>

definition pending_bid_expires_after_ttl :: "'tx alloy \<Rightarrow> 'tx builder \<Rightarrow> (nat \<Rightarrow> instant) \<Rightarrow> bool" where
  "pending_bid_expires_after_ttl A B clock \<longleftrightarrow>
     (let p = test_pool;
          start = clock 0;
          target = tx_hash 14;
          (_, p1) = observe_at A (tx_hash 15)
                      (test_gateway_tx B (gateway_call_calldata_with_target A B 5 target)) start p;
          (early, p2) = prune (start + 100000000) p1;
          (expired, p3) = prune (start + 3000000000) p2
      in pending_len p1 = 1 \<and> early = 0 \<and> pending_len p2 = 1 \<and> expired = 1 \<and> pending_len p3 = 0)"

definition cache_entry_expires_after_ttl :: "'tx alloy \<Rightarrow> 'tx builder \<Rightarrow> (nat \<Rightarrow> instant) \<Rightarrow> bool" where
  "cache_entry_expires_after_ttl A B clock \<longleftrightarrow>
     (let p = test_pool;
          start = clock 0;
          (_, p1) = observe_at A (tx_hash 16) (vanilla B OTHER) start p;
          (_, p2) = prune (start + 3000000000) p1
      in cache_len p1 = 1 \<and> cache_len p2 = 0)"

definition capacity_evicts_oldest_cache_entry :: "'tx alloy \<Rightarrow> 'tx builder \<Rightarrow> (nat \<Rightarrow> instant) \<Rightarrow> bool" where
  "capacity_evicts_oldest_cache_entry A B clock \<longleftrightarrow>
     (let p = pool_new (for_test GW 0) 0xffff 2500000000 2 2;
          (_, p) = observe A (clock 0) (tx_hash 20) (vanilla B OTHER) p;
          (_, p) = observe A (clock 1) (tx_hash 21) (vanilla B OTHER) p;
          (_, p3) = observe A (clock 2) (tx_hash 22) (vanilla B OTHER) p;
          (res, p4) = observe A (clock 3) (tx_hash 23)
            (test_gateway_tx B (gateway_call_calldata_with_target A B 1 (tx_hash 20))) p3
      in cache_len p3 = 2 \<and> bids_pended res = 1)"

definition forget_removes_pending_and_cache_state :: "('tx bid_map \<Rightarrow> txhash list) \<Rightarrow> 'tx alloy \<Rightarrow> 'tx builder \<Rightarrow> (nat \<Rightarrow> instant) \<Rightarrow> bool" where
  "forget_removes_pending_and_cache_state it A B clock \<longleftrightarrow>
     (let p = test_pool;
          target = tx_hash 30;
          bid_hash = tx_hash 31;
          (_, p1) = observe A (clock 0) bid_hash
            (test_gateway_tx B (gateway_call_calldata_with_target A B 1 target)) p;
          p2 = forget it bid_hash p1
      in pending_len p1 = 1 \<and> pending_len p2 = 0)"

definition capacity_evicts_oldest_pending_bid :: "'tx alloy \<Rightarrow> 'tx builder \<Rightarrow> (nat \<Rightarrow> instant) \<Rightarrow> bool" where
  "capacity_evicts_oldest_pending_bid A B clock \<longleftrightarrow>
     (let p = pool_new (for_test GW 0) 0xffff 2500000000 8 2;
          first_target = tx_hash 40;
          second_target = tx_hash 41;
          third_target = tx_hash 42;
          (_, p) = observe A (clock 0) (tx_hash 43)
            (test_gateway_tx B (gateway_call_calldata_with_target A B 1 first_target)) p;
          (_, p) = observe A (clock 1) (tx_hash 44)
            (test_gateway_tx B (gateway_call_calldata_with_target A B 1 second_target)) p;
          (res3, p3) = observe A (clock 2) (tx_hash 45)
            (test_gateway_tx B (gateway_call_calldata_with_target A B 1 third_target)) p;
          (res4, p4) = observe A (clock 3) first_target (vanilla B OTHER) p3
      in bids_evicted res3 = 1 \<and> pending_len p3 = 2 \<and> reinjections res4 = [] \<and> skipped_non_gateway res4)"

subsection \<open>What the fixtures look like to the pool\<close>

lemma fixtures_to:
  assumes "builder_laws A B"
  shows "tx_to A (vanilla B OTHER) = Some OTHER" "tx_to A (test_gateway_tx B input) = Some GW"
    "tx_to A (gateway_tx_with_gas B input fee gas) = Some GW"
  by (simp_all add: vanilla_def test_gateway_tx_def gateway_tx_with_gas_def accessors_eip1559 [OF assms])

lemma fixtures_decode:
  assumes "builder_laws A B"
  shows "decode_gateway_call A (gateway_tx_with_gas B (gateway_call_calldata_with_target A B n t) fee gas)
      = Some \<lparr>bid_amount = n, target_tx_hash = t\<rparr>"
    "decode_gateway_call A (test_gateway_tx B (gateway_call_calldata_with_target A B n t))
      = Some \<lparr>bid_amount = n, target_tx_hash = t\<rparr>"
    "decode_gateway_call A (test_gateway_tx B []) = None"
  by (simp_all add: test_gateway_tx_def gateway_tx_with_gas_def accessors_eip1559 [OF assms]
      decode_calldata [OF assms] decode_gateway_call_short)

lemma fixture_score:
  assumes "builder_laws A B" "unat fee * unat gas + unat n = unat s"
  shows "compute_priority A (gateway_tx_with_gas B (gateway_call_calldata_with_target A B n t) fee gas) (for_test GW 0) = s"
proof (rule score_eqI)
  have "min (unat fee) (unat (max fee 100)) = unat fee"
    by (simp add: unat_max_word)
  then show "fee_value A (gateway_tx_with_gas B (gateway_call_calldata_with_target A B n t) fee gas) (for_test GW 0)
      + bid_value A (gateway_tx_with_gas B (gateway_call_calldata_with_target A B n t) fee gas) (for_test GW 0) = unat s"
    using assms(2)
    by (simp add: fee_value_def bid_value_def fixtures_to [OF assms(1)] fixtures_decode [OF assms(1)])
       (simp add: gateway_tx_with_gas_def accessors_eip1559 [OF assms(1)])
qed

lemma gateways [simp]: "OTHER \<noteq> GW" "GW \<noteq> OTHER"
  by (simp_all add: GW_def OTHER_def)

lemma fixture_score_default:
  assumes "builder_laws A B" "105000 + unat n = unat s"
  shows "compute_priority A (test_gateway_tx B (gateway_call_calldata_with_target A B n t)) (for_test GW 0) = s"
  unfolding test_gateway_tx_def by (rule fixture_score [OF assms(1)]) (use assms(2) in simp)

lemma test_pool_fields [simp]:
  "policy (pool_new pol fb t mc mp) = pol" "fallback (pool_new pol fb t mc mp) = fb" "ttl (pool_new pol fb t mc mp) = t"
  "max_cache_entries (pool_new pol fb t mc mp) = max mc 1" "max_pending_entries (pool_new pol fb t mc mp) = max mp 1"
  "cache (pool_new pol fb t mc mp) = fmempty" "cache_order (pool_new pol fb t mc mp) = []"
  "pending (pool_new pol fb t mc mp) = fmempty" "pending_order (pool_new pol fb t mc mp) = []"
  "pending_count (pool_new pol fb t mc mp) = 0" "streamed_targets (pool_new pol fb t mc mp) = {||}"
  by (simp_all add: pool_new_def)

text \<open>A store with room evicts nothing.\<close>

lemma insert_with_room:
  assumes "fmlookup (cache p) h = None" "hm_len (cache p) < unat (max_cache_entries p)"
  shows "insert_cache h tx now p =
    p\<lparr>cache := fmupd h \<lparr>ct_tx = tx, ct_seen_at = now\<rparr> (cache p), cache_order := cache_order p @ [h]\<rparr>"
proof -
  have noop: "hm_len c \<le> unat mx \<Longrightarrow> evict_cache mx c ks st = (c, ks, st)"
    for c :: "'a tx_cache" and mx ks st
    by (cases ks) auto
  show ?thesis using assms by (simp add: insert_cache_def Let_def noop hm_len_fmupd)
qed

lemma park_with_room:
  assumes "pending_count p + 1 \<le> max_pending_entries p"
  shows "push_pending bid p = (0, p\<lparr>pending := fmupd (pb_target bid)
        ((case fmlookup (pending p) (pb_target bid) of None \<Rightarrow> [] | Some v \<Rightarrow> v) @ [bid]) (pending p),
      pending_order := pending_order p @ [(pb_target bid, pb_hash bid)], pending_count := pending_count p + 1\<rparr>)"
proof -
  have noop: "c \<le> mx \<Longrightarrow> evict_pending mx m ks c n = (m, ks, c, n)" for mx m ks c n
    by (cases ks) auto
  show ?thesis using assms by (simp add: push_pending_def Let_def noop)
qed

text \<open>A full store evicts its oldest entry.\<close>

lemma insert_when_full:
  assumes "fmlookup (cache p) h = None" "hm_len (cache p) = unat (max_cache_entries p)"
    and "cache_order p = old # order" "fmlookup (cache p) old = Some e"
  shows "insert_cache h tx now p =
    p\<lparr>cache := fmdrop old (fmupd h \<lparr>ct_tx = tx, ct_seen_at = now\<rparr> (cache p)), cache_order := order @ [h],
      streamed_targets := streamed_targets p |-| {|old|}\<rparr>"
proof -
  have "old \<noteq> h" using assms by auto
  then have "evict_cache mx (fmdrop old (fmupd h v (cache p))) ks st = (fmdrop old (fmupd h v (cache p)), ks, st)"
    if "mx = max_cache_entries p" for mx v ks st
    using assms that by (cases ks) (simp_all add: hm_len_fmupd hm_len_fmdrop)
  with \<open>old \<noteq> h\<close> show ?thesis
    using assms by (simp add: insert_cache_def Let_def hm_len_fmupd)
qed

lemma park_when_full:
  assumes "max_pending_entries p < pending_count p + 1" "pending_count p \<le> max_pending_entries p"
    and "pending_order p = (t, h) # order" "fmlookup (pending p) t = Some [b]" "pb_hash b = h" "pb_target bid \<noteq> t"
  shows "push_pending bid p = (1, p\<lparr>pending := fmdrop t (fmupd (pb_target bid)
        ((case fmlookup (pending p) (pb_target bid) of None \<Rightarrow> [] | Some v \<Rightarrow> v) @ [bid]) (pending p)),
      pending_order := order @ [(pb_target bid, pb_hash bid)]\<rparr>)"
proof -
  have noop: "c \<le> mx \<Longrightarrow> evict_pending mx m ks c n = (m, ks, c, n)" for mx m ks c n
    by (cases ks) auto
  show ?thesis using assms by (simp add: push_pending_def Let_def noop)
qed

lemmas pool_steps = observe_def observe_at_def emit_opportunity_once_def insert_with_room insert_when_full
  park_with_room park_when_full
  default_result_def pending_len_def cache_len_def is_tob_def is_allowlisted_gateway_def test_pool_def
  hm_len_fmupd hm_len_fmdrop prune_def Let_def

subsection \<open>The tests pass\<close>

lemma one_observation_tests:
  assumes "builder_laws A B"
  shows "tob_bid_is_encoded_and_streamed_immediately A B clock"
    "non_gateway_tx_is_cached_but_not_reinjected A B clock"
    "invalid_gateway_call_is_not_reinjected A B clock"
proof -
  have s: "compute_priority A (test_gateway_tx B (gateway_call_calldata_with_target A B 7 0)) (for_test GW 0) = 105007"
    by (rule fixture_score_default [OF assms]) simp
  show "tob_bid_is_encoded_and_streamed_immediately A B clock"
    unfolding tob_bid_is_encoded_and_streamed_immediately_def
    by (simp add: pool_steps fixtures_to [OF assms] fixtures_decode [OF assms] gateway_call_calldata_def s)
       (simp add: encode_tob_priority_def TOB_MARKER_BIT_def bit_simps)
  show "non_gateway_tx_is_cached_but_not_reinjected A B clock" "invalid_gateway_call_is_not_reinjected A B clock"
    unfolding non_gateway_tx_is_cached_but_not_reinjected_def invalid_gateway_call_is_not_reinjected_def
    by (simp_all add: pool_steps fixtures_to [OF assms] fixtures_decode [OF assms])
qed

lemma pairing_tests:
  assumes "builder_laws A B"
  shows "target_already_pooled_pairs_immediately A B clock"
    "bid_before_target_pairs_when_target_arrives A B clock"
    "later_bid_after_target_streamed_does_not_restream_target A B clock"
proof -
  have s: "compute_priority A (test_gateway_tx B (gateway_call_calldata_with_target A B 9 t)) (for_test GW 0) = 105009" for t
    by (rule fixture_score_default [OF assms]) simp
  note sim = pool_steps fixtures_to [OF assms] fixtures_decode [OF assms]
  note g = group_of_encoded [unfolded GROUP_KEY_SHIFT_def]
  show "target_already_pooled_pairs_immediately A B clock"
    unfolding target_already_pooled_pairs_immediately_def by (simp add: sim s g)
  show "bid_before_target_pairs_when_target_arrives A B clock"
    unfolding bid_before_target_pairs_when_target_arrives_def by (simp add: sim)
  show "later_bid_after_target_streamed_does_not_restream_target A B clock"
    unfolding later_bid_after_target_streamed_does_not_restream_target_def by (simp add: sim)
qed

lemma ranking_tests:
  assumes "builder_laws A B"
  shows "multiple_competing_bids_all_stream_and_self_order A B clock"
    "backrun_bids_rank_by_total_value_not_bare_bid A B clock"
proof -
  have s: "compute_priority A (test_gateway_tx B (gateway_call_calldata_with_target A B 10 t)) (for_test GW 0) = 105010"
    "compute_priority A (test_gateway_tx B (gateway_call_calldata_with_target A B 100 t)) (for_test GW 0) = 105100" for t
    by (rule fixture_score_default [OF assms], simp)+
  have s': "compute_priority A (gateway_tx_with_gas B (gateway_call_calldata_with_target A B 1000 t) 1 21000) (for_test GW 0) = 22000"
    "compute_priority A (gateway_tx_with_gas B (gateway_call_calldata_with_target A B 100 t) 1000 21000) (for_test GW 0) = 21000100" for t
    by (rule fixture_score [OF assms], simp)+
  note sim = pool_steps fixtures_to [OF assms] fixtures_decode [OF assms]
  have less: "encode_backrun_bid_priority t x < encode_backrun_bid_priority t y \<longleftrightarrow> unat x mod 2 ^ 128 < unat y mod 2 ^ 128"
    "encode_backrun_bid_priority t x < encode_opportunity_priority t" for t x y
    by (simp_all add: word_less_nat_alt unat_encode_bid unat_encode_opportunity)
  show "multiple_competing_bids_all_stream_and_self_order A B clock"
    unfolding multiple_competing_bids_all_stream_and_self_order_def by (simp add: sim s less)
  show "backrun_bids_rank_by_total_value_not_bare_bid A B clock"
    unfolding backrun_bids_rank_by_total_value_not_bare_bid_def by (simp add: sim s' less)
qed

lemma capacity_tests:
  assumes "builder_laws A B" "is_iteration it"
  shows "pending_bid_expires_after_ttl A B clock" "cache_entry_expires_after_ttl A B clock"
    "capacity_evicts_oldest_cache_entry A B clock" "capacity_evicts_oldest_pending_bid A B clock"
    "forget_removes_pending_and_cache_state it A B clock"
proof -
  note sim = pool_steps fixtures_to [OF assms(1)] fixtures_decode [OF assms(1)]
  have it: "it (fmupd k v fmempty) = [k]" for k and v :: "'a pending_bid list"
  proof -
    have "distinct (it (fmupd k v fmempty)) \<and> set (it (fmupd k v fmempty)) = {k}"
      using assms(2) by (simp add: is_iteration_def)
    then show ?thesis by (cases "it (fmupd k v fmempty)") (auto simp: subset_singleton_iff)
  qed
  show "pending_bid_expires_after_ttl A B clock" "cache_entry_expires_after_ttl A B clock"
    unfolding pending_bid_expires_after_ttl_def cache_entry_expires_after_ttl_def by (simp_all add: sim)
  show "capacity_evicts_oldest_cache_entry A B clock" "capacity_evicts_oldest_pending_bid A B clock"
    unfolding capacity_evicts_oldest_cache_entry_def capacity_evicts_oldest_pending_bid_def by (simp_all add: sim)
  show "forget_removes_pending_and_cache_state it A B clock"
    unfolding forget_removes_pending_and_cache_state_def by (simp add: sim it forget_def)
qed

end
