(* ===== verification/Test_Loop.thy ===== *)
theory Test_Loop
  imports Test_Pool Routes Ipc_Machine
begin

section \<open>The tests of the dedup cache, the metrics, the routes and the loop\<close>

text \<open>
  The unit tests of \<^verbatim>\<open>src/txpool_ipc.rs\<close>, \<^verbatim>\<open>src/metrics.rs\<close> and \<^verbatim>\<open>src/routes.rs\<close>, under their names, and
  what the end-to-end tests build. The tests of the metrics text are in \<open>Test_Text\<close>, the end-to-end
  tests in \<open>Test_Harness\<close>.
\<close>

subsection \<open>Unit tests of the IPC module\<close>

definition builds_empty_backrun_pool :: "'tx alloy \<Rightarrow> bool" where
  "builds_empty_backrun_pool A \<longleftrightarrow>
     (let policy = for_test 0xbb 0;
          mode = \<lparr>pm_policy = policy, pm_fallback = 0xffff, pm_ttl = 2500000000,
                  pm_max_cache_entries = 16, pm_max_pending_entries = 16, pm_sent_cache_max = 16\<rparr>;
          pool = pool_new (pm_policy mode) (pm_fallback mode) (pm_ttl mode)
                   (pm_max_cache_entries mode) (pm_max_pending_entries mode) :: 'tx pending_pool
      in pending_len pool = 0 \<and> cache_len pool = 0)"

definition sent_cache_evicts_oldest_hash :: bool where
  "sent_cache_evicts_oldest_hash \<longleftrightarrow>
     (let sent = sent_new 2;
          first = repeat_byte 1;
          second = repeat_byte 2;
          third = repeat_byte 3;
          (e1, sent) = sent_insert first 1 sent;
          (e2, sent) = sent_insert second 2 sent;
          (e3, sent) = sent_insert third 3 sent
      in e1 = 0 \<and> e2 = 0 \<and> e3 = 1 \<and> \<not> sent_contains sent first \<and> sent_contains sent second
         \<and> sent_contains sent third \<and> sent_len sent = 2)"

definition sent_cache_compacts_stale_order_entries :: bool where
  "sent_cache_compacts_stale_order_entries \<longleftrightarrow>
     (let sent = foldl (\<lambda>sent byte.
            (let hash = repeat_byte byte;
                 (_, sent) = sent_insert hash (ucast byte) sent
             in sent_remove hash sent)) (sent_new 2) (map of_nat [0..<10])
      in length (sent_order sent) \<le> unat (saturating_mul (max_entries sent) 2) \<and> sent_len sent = 0)"

lemma sent_cache_tests:
  "builds_empty_backrun_pool A" "sent_cache_evicts_oldest_hash" "sent_cache_compacts_stale_order_entries"
proof -
  show "builds_empty_backrun_pool A"
    by (simp add: builds_empty_backrun_pool_def pending_len_def cache_len_def)
  show "sent_cache_evicts_oldest_hash"
    by (simp add: sent_cache_evicts_oldest_hash_def sent_insert_def sent_new_def sent_contains_def sent_len_def
        Let_def hm_len_fmupd hm_len_fmdrop saturating_mul_def)
  show "sent_cache_compacts_stale_order_entries"
    by (simp add: sent_cache_compacts_stale_order_entries_def sent_insert_def sent_remove_def sent_new_def
        sent_len_def Let_def hm_len_fmupd hm_len_fmdrop saturating_mul_def upt_rec)
qed

subsection \<open>Metrics and routes\<close>

text \<open>\<open>wall i\<close> is the \<open>i\<close>-th reading of the wall clock.\<close>

definition snapshot_round_trip :: "('r, 'c, 'g, 'v) prom \<Rightarrow> (nat \<Rightarrow> int) \<Rightarrow> bool" where
  "snapshot_round_trip P wall \<longleftrightarrow>
     (case metrics_new P of
        None \<Rightarrow> False
      | Some m \<Rightarrow>
          (let m = set_ipc_state P Connected m;
               m = record_event P ''insert'' (wall 0) m;
               m = record_insert P m;
               m = record_prioritized P (wall 1) m;
               snap = snapshot P m
           in hs_ipc_state snap = ''connected'' \<and> tx_inserts_observed snap = 1 \<and> tx_prioritized snap = 1
              \<and> hs_last_event_unix_seconds snap \<noteq> None \<and> hs_last_send_unix_seconds snap \<noteq> None))"

definition ipc_state_gauge_values :: "('r, 'c, 'g, 'v) prom \<Rightarrow> bool" where
  "ipc_state_gauge_values P \<longleftrightarrow>
     (case metrics_new P of
        None \<Rightarrow> False
      | Some m0 \<Rightarrow>
          (let m1 = set_ipc_state P Connecting m0;
               m2 = set_ipc_state P Connected m1
           in gauge_get P (txpool_ipc_state m0) = - 1 \<and> gauge_get P (txpool_ipc_state m1) = 0
              \<and> gauge_get P (txpool_ipc_state m2) = 1))"

definition health_returns_structured_snapshot :: "('r, 'c, 'g, 'v) prom \<Rightarrow>
    (('r, 'c, 'g, 'v) metrics \<Rightarrow> 'e + u8 list) \<Rightarrow> ('e render_error \<Rightarrow> u8 list) \<Rightarrow> bool" where
  "health_returns_structured_snapshot P encode display \<longleftrightarrow>
     (case metrics_new P of
        None \<Rightarrow> False
      | Some m \<Rightarrow>
          (case serve P encode display ''/health'' m of
             Some (JsonResponse v, _) \<Rightarrow>
               status_of (JsonResponse v) = 200 \<and> hs_status v = ''ok'' \<and> hs_service v = ''magma-sidecar''
               \<and> hs_ipc_state v = ''disabled'' \<and> tx_inserts_observed v = 0 \<and> tx_prioritized v = 0
           | _ \<Rightarrow> False))"

lemma new_metrics:
  assumes "prom_laws P"
  obtains m where "metrics_new P = Some m" "fresh_metrics P m"
  using metrics_new_returns [OF assms] by (auto simp: returns_def split: option.splits)

lemma fresh_counters:
  assumes "fresh_metrics P m"
  shows "counter_get P (txpool_inserts_total m) = 0" "counter_get P (txpool_prioritized_total m) = 0"
    "counter_get P (txpool_skipped_non_gateway_total m) = 0" "gauge_get P (txpool_ipc_state m) = - 1"
    "ipc_state_ts m = - 1"
  using assms by (simp_all add: fresh_metrics_def snapshot_def blank_snapshot_def)

lemma metrics_tests:
  assumes "prom_laws P" "\<And>i. 1000000000 \<le> wall i" "\<And>i. wall i < 2 ^ 63 * 1000000000"
  shows "snapshot_round_trip P wall" "ipc_state_gauge_values P" "health_returns_structured_snapshot P encode display"
proof -
  obtain m where m: "metrics_new P = Some m" and f: "fresh_metrics P m"
    using new_metrics [OF assms(1)] .
  note [simp] = prom_lawsD [OF assms(1)]
  have t: "nonzero (unix_now (wall i)) \<noteq> None" for i
  proof -
    have "wall i div 1000000000 < 2 ^ 63" using assms(3) [of i] by simp
    from nonzero_unix_now [OF assms(2) this] show ?thesis by auto
  qed
  show "snapshot_round_trip P wall"
    using t [of 0] t [of 1] by (simp add: snapshot_round_trip_def m Let_def snapshot_def set_ipc_state_def record_event_def record_insert_def
        record_prioritized_def fresh_counters [OF f] ipc_state_from_gauge_def)
  show "ipc_state_gauge_values P"
    by (simp add: ipc_state_gauge_values_def m Let_def set_ipc_state_def fresh_counters [OF f])
  show "health_returns_structured_snapshot P encode display"
    by (simp add: health_returns_structured_snapshot_def m serve_def router_def health_def Let_def snapshot_def
        fresh_counters [OF f] ipc_state_from_gauge_def)
qed

subsection \<open>The loop over a socket\<close>

definition eip1559 :: "'tx builder \<Rightarrow> address \<Rightarrow> u8 list \<Rightarrow> txhash \<Rightarrow> 'tx" where
  "eip1559 B to input hash = new_eip1559 B
     \<lparr>e_chain_id = 1, e_nonce = 0, e_gas_limit = 21000, e_max_fee_per_gas = 100,
      e_max_priority_fee_per_gas = 5, e_to = Some to, e_value = 0, e_access_list = [],
      e_input = input\<rparr> dummy_sig hash"

text \<open>The sender and the flag \<open>owned\<close> of an insert are not read by the loop.\<close>

definition insert_event :: "txhash \<Rightarrow> address \<Rightarrow> 'tx \<Rightarrow> 'tx event" where
  "insert_event hash from tx = \<lparr>ev_hash = hash, ev_action = InsertEv tx\<rparr>"

definition policy_mode :: "policy_config \<times> priority_mode" where
  "policy_mode =
     (let policy = for_test GW 0
      in (policy, \<lparr>pm_policy = policy, pm_fallback = 0xffff, pm_ttl = 2500000000,
                   pm_max_cache_entries = 1024, pm_max_pending_entries = 1024, pm_sent_cache_max = 4096\<rparr>))"

text \<open>A batch on the fresh state: the pool is empty, the dedup cache is empty and has room.\<close>

lemma eip1559_facts:
  assumes "builder_laws A B"
  shows "tx_to A (eip1559 B to input h) = Some to"
    "decode_gateway_call A (eip1559 B to (gateway_call_calldata A B n) h) = Some \<lparr>bid_amount = n, target_tx_hash = 0\<rparr>"
    "105000 + unat n = unat s \<Longrightarrow>
       compute_priority A (eip1559 B GW (gateway_call_calldata A B n) h) (for_test GW 0) = s"
proof -
  show to: "tx_to A (eip1559 B to input h) = Some to" for to input
    by (simp add: eip1559_def accessors_eip1559 [OF assms])
  show dec: "decode_gateway_call A (eip1559 B to (gateway_call_calldata A B n) h) = Some \<lparr>bid_amount = n, target_tx_hash = 0\<rparr>" for to
    by (simp add: eip1559_def accessors_eip1559 [OF assms] decode_calldata [OF assms] gateway_call_calldata_def)
  show "105000 + unat n = unat s \<Longrightarrow>
       compute_priority A (eip1559 B GW (gateway_call_calldata A B n) h) (for_test GW 0) = s"
    by (rule score_eqI) (simp add: fee_value_def bid_value_def to dec, simp add: eip1559_def accessors_eip1559 [OF assms])
qed

lemma sent_insert_fresh:
  "sent_insert h prio (sent_new n) =
     (0, \<lparr>priorities = fmupd h prio fmempty, sent_order = [h], max_entries = max n 1\<rparr>)"
proof -
  have "1 \<le> unat (max n 1)" by (simp add: unat_max_word)
  then show ?thesis
    by (simp add: sent_insert_def sent_new_def Let_def hm_len_fmupd)
qed

lemmas loop_steps = process_event_def observe_event_def new_loop_state_def insert_event_def policy_mode_def
  prune_def observe_at_def insert_with_room default_result_def is_tob_def is_allowlisted_gateway_def
  sent_insert_fresh sent_contains_def Let_def to_ipc_def

end
