(* ===== verification/Test_Instance.thy ===== *)
theory Test_Instance
  imports Test_Loop Sample_Run
begin

section \<open>Envelopes and calldata, concretely\<close>

text \<open>
  An instance of the records \<open>alloy\<close> and \<open>builder\<close> that obeys \<open>builder_laws\<close>, at which the
  properties about built envelopes are exercised.
\<close>

text \<open>Envelopes as the crate declares them; integers of an encoded call in 32 bytes each, least
  significant byte first, the opaque bytes at the end.\<close>

datatype test_envelope = Eip1559 tx_eip1559 signature txhash | Legacy tx_legacy signature txhash

fun to_bytes :: "nat \<Rightarrow> nat \<Rightarrow> u8 list" where
  "to_bytes 0 n = []"
| "to_bytes (Suc k) n = of_nat (n mod 256) # to_bytes k (n div 256)"

fun from_bytes :: "u8 list \<Rightarrow> nat" where
  "from_bytes [] = 0"
| "from_bytes (b # bs) = unat b + 256 * from_bytes bs"

definition test_encode :: "gateway_call_args \<Rightarrow> u8 list" where
  "test_encode args = concat (map (to_bytes 32)
     [unat (sender args), unat (bidAmount args), unat (targetBlockNumber args), unat (targetTxHash args),
      if requireExclusiveSlot args then 1 else 0, unat (searcherContract args)]) @ searcherCallData args"

definition test_decode :: "u8 list \<Rightarrow> gateway_call_args option" where
  "test_decode bs =
     (if length bs < 192 then None
      else let field = (\<lambda>i. from_bytes (take 32 (drop (32 * i) bs))) in
        Some \<lparr>sender = of_nat (field 0), bidAmount = of_nat (field 1), targetBlockNumber = of_nat (field 2),
              targetTxHash = of_nat (field 3), requireExclusiveSlot = field 4 = 1,
              searcherContract = of_nat (field 5), searcherCallData = drop 192 bs\<rparr>)"

definition test_alloy :: "test_envelope alloy" where
  "test_alloy =
     \<lparr>tx_to = (\<lambda>tx. case tx of Eip1559 t _ _ \<Rightarrow> e_to t | Legacy t _ _ \<Rightarrow> l_to t),
      tx_gas_limit = (\<lambda>tx. case tx of Eip1559 t _ _ \<Rightarrow> e_gas_limit t | Legacy t _ _ \<Rightarrow> l_gas_limit t),
      tx_input = (\<lambda>tx. case tx of Eip1559 t _ _ \<Rightarrow> e_input t | Legacy t _ _ \<Rightarrow> l_input t),
      tx_priority_fee_or_price =
        (\<lambda>tx. case tx of Eip1559 t _ _ \<Rightarrow> e_max_priority_fee_per_gas t | Legacy t _ _ \<Rightarrow> l_gas_price t),
      tx_max_fee_per_gas = (\<lambda>tx. case tx of Eip1559 t _ _ \<Rightarrow> e_max_fee_per_gas t | Legacy t _ _ \<Rightarrow> l_gas_price t),
      call_selector = sample_selector, abi_decode_raw = test_decode\<rparr>"

definition test_builder :: "test_envelope builder" where
  "test_builder = \<lparr>new_eip1559 = Eip1559, new_legacy = Legacy, abi_encode_raw = test_encode\<rparr>"

lemma length_to_bytes [simp]: "length (to_bytes k n) = k"
  by (induction k arbitrary: n) simp_all

lemma from_to_bytes: "n < 256 ^ k \<Longrightarrow> from_bytes (to_bytes k n) = n"
proof (induction k arbitrary: n)
  case (Suc k)
  have "unat (of_nat (n mod 256) :: u8) = n mod 256"
    by (rule unat_of_nat_bounded) simp
  moreover have "n div 256 < 256 ^ k"
    using Suc.prems by (simp add: less_mult_imp_div_less mult.commute)
  ultimately show ?case using Suc.IH by simp
qed simp

lemma from_to_bytes_word:
  "LENGTH('a) \<le> 256 \<Longrightarrow> from_bytes (to_bytes 32 (unat (w :: 'a::len word))) = unat w"
proof (rule from_to_bytes)
  assume "LENGTH('a) \<le> 256"
  then have "(2 :: nat) ^ LENGTH('a) \<le> 2 ^ 256" by (rule power_increasing) simp
  then show "unat w < 256 ^ 32"
    using order_less_le_trans [OF unsigned_less] by fastforce
qed

lemma test_decode_encode: "test_decode (test_encode args) = Some args"
  by (cases args) (simp add: test_decode_def test_encode_def from_to_bytes from_to_bytes_word)

lemma test_builder_laws: "builder_laws test_alloy test_builder"
  by (simp add: builder_laws_def test_alloy_def test_builder_def test_decode_encode sample_selector_def)

end
