(* ===== verification/Block_Properties.thy ===== *)
theory Block_Properties
  imports Auction Test_Instance Ipc_Pairing
begin

section \<open>Properties of the resulting block\<close>

subsection \<open>A run that writes a pair\<close>

text \<open>A bid of 10 for the hash 7, then the transaction 7; the loop writes both.\<close>

definition pair_mode :: priority_mode where
  "pair_mode = snd policy_mode"

definition pair_bid :: test_envelope where
  "pair_bid = test_gateway_tx test_builder (gateway_call_calldata_with_target test_alloy test_builder 10 (tx_hash 7))"

definition pair_events :: "(test_envelope event \<times> answers) list" where
  "pair_events =
     [(\<lparr>ev_hash = tx_hash 8, ev_action = InsertEv pair_bid\<rparr>, calm),
      (\<lparr>ev_hash = tx_hash 7, ev_action = InsertEv (vanilla test_builder OTHER)\<rparr>, calm)]"

definition pair_wire :: "test_envelope wire" where
  "pair_wire =
     [(tx_hash 7, \<lparr>ipc_payload = vanilla test_builder OTHER, ipc_priority = encode_opportunity_priority (tx_hash 7), extra_data = []\<rparr>),
      (tx_hash 8, \<lparr>ipc_payload = pair_bid, ipc_priority = encode_backrun_bid_priority (tx_hash 7) 105010, extra_data = []\<rparr>)]"

definition pair_labels :: "test_envelope label list" where
  "pair_labels = [Internal, Internal, ConnectOk] @ [Batch pair_events pair_wire]"

lemma pair_mode_fields:
  "pm_policy pair_mode = for_test GW 0" "pm_fallback pair_mode = 0xffff" "pm_ttl pair_mode = 2500000000"
  "pm_max_cache_entries pair_mode = 1024" "pm_max_pending_entries pair_mode = 1024" "pm_sent_cache_max pair_mode = 4096"
  by (simp_all add: pair_mode_def policy_mode_def Let_def)

lemma pair_bid_facts:
  "backrun_bid_for test_alloy (for_test GW 0) pair_bid (tx_hash 7)"
  "compute_priority test_alloy pair_bid (for_test GW 0) = 105010"
  "\<not> to_gateway test_alloy (for_test GW 0) (vanilla test_builder OTHER)"
proof -
  note f = fixtures_to [OF test_builder_laws] fixtures_decode [OF test_builder_laws]
  show "backrun_bid_for test_alloy (for_test GW 0) pair_bid (tx_hash 7)"
    "\<not> to_gateway test_alloy (for_test GW 0) (vanilla test_builder OTHER)"
    by (simp_all add: backrun_bid_for_def to_gateway_def pair_bid_def f)
  show "compute_priority test_alloy pair_bid (for_test GW 0) = 105010"
    unfolding pair_bid_def by (rule fixture_score_default [OF test_builder_laws]) simp
qed

text \<open>The state after the connection came up.\<close>

definition pair_state :: "(test_envelope, string list, u64, i64, sample_vec) loop_state" where
  "pair_state = with_metrics (\<lambda>m. record_reconnect sample_prom (set_ipc_state sample_prom Connected m))
     (with_metrics (set_ipc_state sample_prom Connecting)
       (with_metrics (set_ipc_state sample_prom Connecting) (new_loop_state pair_mode sample_metrics)))"

lemma pair_state_pool:
  "ls_pool pair_state = pool_new (for_test GW 0) 0xffff 2500000000 1024 1024" "ls_sent pair_state = sent_new 4096"
  by (simp_all add: pair_state_def new_loop_state_def pair_mode_fields)

lemma pair_state_facts:
  "loop_inv pair_state" "pair_room t (ls_pool pair_state)"
  "sent_len (ls_sent pair_state) + 2 \<le> unat (max_entries (ls_sent pair_state))"
  "h \<notin> sent_keys (ls_sent pair_state)" "prune_at calm - observe_time calm < ttl (ls_pool pair_state)" "send_ok calm i"
proof -
  show "loop_inv pair_state"
    using loop_inv_new [of pair_mode sample_metrics] by (simp add: pair_state_def pair_mode_fields)
  show "pair_room t (ls_pool pair_state)"
    unfolding pair_state_pool using pool_inv_new [of "1024 :: usize" "for_test GW 0" "0xffff" 2500000000 1024]
    by (simp add: pair_room_def vec_of_def)
  show "sent_len (ls_sent pair_state) + 2 \<le> unat (max_entries (ls_sent pair_state))"
    unfolding pair_state_pool by (simp add: sent_len_def sent_new_def)
  show "h \<notin> sent_keys (ls_sent pair_state)" by (simp add: pair_state_pool sent_keys_def sent_new_def)
  show "prune_at calm - observe_time calm < ttl (ls_pool pair_state)" "send_ok calm i"
    by (simp_all add: pair_state_pool calm_def)
qed

lemma pair_run:
  "\<exists>c. ipc_path test_alloy sample_prom ascending (initial pair_mode sample_metrics) pair_labels c"
proof -
  have bid: "backrun_bid_for test_alloy (policy (ls_pool pair_state)) pair_bid (tx_hash 7)"
    "\<not> to_gateway test_alloy (policy (ls_pool pair_state)) (vanilla test_builder OTHER)" "tx_hash 8 \<noteq> tx_hash 7"
    using pair_bid_facts by (simp_all add: pair_state_pool)
  from pair_bid_first [where P = sample_prom and it = ascending, OF pair_state_facts(1) bid(1,3,2) pair_state_facts(2)
      pair_state_facts(4,4,3,5,6)]
  obtain st' where "process_batch test_alloy sample_prom ascending pair_events pair_state = (pair_wire, False, st')"
    by (auto simp: pair_events_def pair_wire_def opportunity_of_def bid_of_def to_ipc_def pair_state_pool pair_bid_facts(2)
        simp del: process_batch.simps)
  note b = this [unfolded pair_state_def]
  show ?thesis
    unfolding pair_labels_def by (rule exI, rule path_snoc [OF initial_connected batch [OF b]])
qed

lemma pair_labels_simps:
  "inserts (received pair_labels) = {(tx_hash 8, pair_bid), (tx_hash 7, vanilla test_builder OTHER)}"
  "wire_of pair_labels = pair_wire"
  by (auto simp: pair_labels_def received_def wire_of_def pair_events_def)

lemma pair_block:
  "block_of (wire_of pair_labels)
     [(tx_hash 7, encode_opportunity_priority (tx_hash 7)), (tx_hash 8, encode_backrun_bid_priority (tx_hash 7) 105010)]"
  "written (wire_of pair_labels)
     \<subseteq> set [(tx_hash 7, encode_opportunity_priority (tx_hash 7)), (tx_hash 8, encode_backrun_bid_priority (tx_hash 7) 105010)]"
  using bid_in_range [of "tx_hash 7" 105010] by (simp_all add: pair_labels_simps pair_wire_def block_of_def written_def)

lemma pair_targets: "bid_targets test_alloy (pm_policy pair_mode) (inserts (received pair_labels)) = {tx_hash 7}"
  using pair_bid_facts(1,3) by (auto simp: bid_targets_def pair_labels_simps pair_mode_fields backrun_bid_for_def split: option.splits)

subsection \<open>The best bids win\<close>

text \<open>C1: The best bid wins its place: in a run within the bounds of the pool, and in a block that takes every
  written message in the order of the priorities, a vanilla transaction that was reported and for
  which bids were reported is followed at once by the bid with the greatest score among all that
  were reported for it. Each hash stands for one transaction, neither the target nor its bids are
  reported gone, no bid is a target itself, scores are below \<open>2 ^ 128\<close>, and the first 126 bits of
  the targets' hashes differ and are not all zero.\<close>
theorem best_bid_behind_target:
  assumes "ipc_path A P it (initial mode m) ls c" "Suc (unat (pm_max_pending_entries mode)) < 2 ^ 64"
    and "unat (pm_fallback mode) < 2 ^ 129" "within_bounds mode (received ls)"
    and "block_of (wire_of ls) L" "written (wire_of ls) \<subseteq> set L"
    and "\<forall>(h, tx) \<in> inserts (received ls). \<forall>tx'. (h, tx') \<in> inserts (received ls) \<longrightarrow> tx' = tx"
    and "inj_on backrun_id (bid_targets A (pm_policy mode) (inserts (received ls)))" "backrun_id t \<noteq> 0"
    and "(t, ttx) \<in> inserts (received ls)" "\<not> to_gateway A (pm_policy mode) ttx" "t \<notin> gone (received ls)"
    and "bid_scores A (pm_policy mode) (inserts (received ls)) t \<noteq> {}"
    and "\<forall>(h, s) \<in> bid_scores A (pm_policy mode) (inserts (received ls)) t.
        unat s < 2 ^ 128 \<and> h \<notin> gone (received ls) \<and> h \<notin> bid_targets A (pm_policy mode) (inserts (received ls))"
  shows "\<exists>xs h s ys. L = xs @ (t, encode_opportunity_priority t) # (h, encode_backrun_bid_priority t s) # ys
    \<and> (h, s) \<in> bid_scores A (pm_policy mode) (inserts (received ls)) t
    \<and> (\<forall>(k, v) \<in> bid_scores A (pm_policy mode) (inserts (received ls)) t. v \<le> s)"
  by (rule best_bid_behind [OF assms])

text \<open>C2: The best top-of-block bid comes first: if the node takes every message and builds a block with every
  written message in the order of the priorities, the first transaction of the block is the
  top-of-block bid with the greatest score among all that were reported, whatever the length of the
  run and the capacities. Each hash stands for one transaction, no such bid is named as a target,
  and scores are positive and below \<open>2 ^ 128\<close>.\<close>
theorem best_tob_bid_first:
  assumes "ipc_path A P it (initial mode m) ls c" "Suc (unat (pm_max_pending_entries mode)) < 2 ^ 64"
    and "unat (pm_fallback mode) < 2 ^ 129" "\<forall>(ev, ans) \<in> set (received ls). \<forall>i. send_ok ans i"
    and "block_of (wire_of ls) L" "written (wire_of ls) \<subseteq> set L"
    and "\<forall>(h, tx) \<in> inserts (received ls). \<forall>tx'. (h, tx') \<in> inserts (received ls) \<longrightarrow> tx' = tx"
    and "tob_scores A (pm_policy mode) (inserts (received ls)) \<noteq> {}"
    and "\<forall>(h, s) \<in> tob_scores A (pm_policy mode) (inserts (received ls)).
        0 < s \<and> unat s < 2 ^ 128 \<and> h \<notin> bid_targets A (pm_policy mode) (inserts (received ls))"
  shows "\<exists>h s rest. L = (h, encode_tob_priority s) # rest
    \<and> (h, s) \<in> tob_scores A (pm_policy mode) (inserts (received ls))
    \<and> (\<forall>(k, v) \<in> tob_scores A (pm_policy mode) (inserts (received ls)). v \<le> s)"
  by (rule best_tob_first [OF assms])

lemma best_bid_behind_target_witness:
  "\<exists>xs h s ys. [(tx_hash 7, encode_opportunity_priority (tx_hash 7)), (tx_hash 8, encode_backrun_bid_priority (tx_hash 7) 105010)]
      = xs @ (tx_hash 7, encode_opportunity_priority (tx_hash 7)) # (h, encode_backrun_bid_priority (tx_hash 7) s) # ys
    \<and> h = tx_hash 8 \<and> s = 105010"
proof -
  let ?L = "[(tx_hash 7, encode_opportunity_priority (tx_hash 7)), (tx_hash 8, encode_backrun_bid_priority (tx_hash 7) 105010)]"
  obtain c where run: "ipc_path test_alloy sample_prom ascending (initial pair_mode sample_metrics) pair_labels c"
    using pair_run by blast
  have block: "block_of (wire_of pair_labels) ?L" "written (wire_of pair_labels) \<subseteq> set ?L" by (rule pair_block)+
  have within: "within_bounds pair_mode (received pair_labels)"
    by (simp add: within_bounds_def pair_mode_fields pair_labels_def received_def pair_events_def calm_def)
  have gone: "gone (received pair_labels) = {}" by (simp add: pair_labels_def received_def pair_events_def)
  have b: "bid_scores test_alloy (for_test GW 0) (inserts (received pair_labels)) (tx_hash 7) = {(tx_hash 8, 105010)}"
    using pair_bid_facts by (simp add: pair_labels_simps backrun_bid_for_def)
  have "unat (backrun_id (tx_hash 7)) \<noteq> 0" by (simp add: unat_backrun_id_tx_hash)
  then have id: "backrun_id (tx_hash 7) \<noteq> 0" by auto
  have ne: "tx_hash 8 \<noteq> tx_hash 7" by simp
  have target: "(tx_hash 7, vanilla test_builder OTHER) \<in> inserts (received pair_labels)"
    "\<not> to_gateway test_alloy (pm_policy pair_mode) (vanilla test_builder OTHER)"
    using pair_bid_facts by (simp_all add: pair_labels_simps pair_mode_fields)
  from best_bid_behind_target [OF run _ _ within block _ _ id target]
  show ?thesis
    unfolding pair_targets pair_mode_fields b gone using ne by (simp add: pair_labels_simps) blast
qed

lemma best_tob_bid_first_witness:
  "\<exists>h s rest. [(3, encode_tob_priority 4)] = (h, encode_tob_priority s) # rest \<and> (h, s) = (3, 4)"
proof -
  obtain c where run: "ipc_path sample_alloy sample_prom ascending (initial sample_mode sample_metrics) sample_labels c"
    using sample_run by blast
  have sends: "\<forall>(ev, ans) \<in> set (received sample_labels). \<forall>i. send_ok ans i"
    by (simp add: sample_labels_def received_def calm_def)
  have tob: "tob_bid sample_alloy local_policy (gateway_tx 0 4)"
    by (simp add: tob_bid_def sample_to sample_decode_call is_tob_def)
  have block: "block_of (wire_of sample_labels) [(3, encode_tob_priority 4)]"
    "written (wire_of sample_labels) \<subseteq> set [(3, encode_tob_priority 4)]"
    by (simp_all add: block_of_def written_def sample_labels_simps sample_message_def)
  have t: "tob_scores sample_alloy local_policy {(3, gateway_tx 0 4)} = {(3, 4)}"
    using tob by (simp add: sample_score)
  have "bid_targets sample_alloy local_policy {(3, gateway_tx 0 4)} = {}"
    by (simp add: bid_targets_def backrun_bid_for_def sample_decode_call is_tob_def)
  from best_tob_bid_first [OF run sample_mode_fields(3) _ sends block] this
  show ?thesis by (simp add: sample_labels_simps sample_mode_fields t)
qed

subsection \<open>What a priority says\<close>

lemma small_no_bit:
  fixes p :: u256
  assumes "unat p < 2 ^ 128" "128 \<le> n"
  shows "\<not> bit p n"
proof -
  have "take_bit 128 (unat p) = unat p" by (rule take_bit_nat_eq_self [OF assms(1)])
  then have "bit (unat p) n \<longleftrightarrow> n < 128 \<and> bit (unat p) n" by (metis bit_take_bit_iff)
  with assms(2) show ?thesis by (auto simp: bit_unsigned_iff dest: bit_imp_le_length)
qed

lemma decode_small: "unat p < 2 ^ 128 \<Longrightarrow> \<exists>g v. decode_slot p = BidSlot g v"
  using small_no_bit marker_positions by (simp add: decode_slot_def)

text \<open>C8: Priorities are typed: the marker bits, the group key and the low bits of the priority of a written
  message tell what the message is. A top-of-block slot is that of a gateway transaction without a
  target, with its score; a target slot is that of a transaction that a reported bid names, with
  its own group key; a bid slot is that of a bid, with the group key of its target and its score,
  or, for the fallback alone, a top-of-block bid whose score is zero.\<close>
theorem priorities_typed:
  assumes run: "ipc_path A P it (initial mode m) ls c" and mp: "Suc (unat (pm_max_pending_entries mode)) < 2 ^ 64"
    and fb: "unat (pm_fallback mode) < 2 ^ 128" and x: "(h, x) \<in> set (wire_of ls)"
  shows "case decode_slot (ipc_priority x) of
      TobSlot v \<Rightarrow> tob_bid A (pm_policy mode) (ipc_payload x) \<and> v = ucast (compute_priority A (ipc_payload x) (pm_policy mode))
    | TargetSlot g \<Rightarrow> h \<in> bid_targets A (pm_policy mode) (inserts (received ls)) \<and> g = group_of h
    | BidSlot g v \<Rightarrow>
        (\<exists>t. backrun_bid_for A (pm_policy mode) (ipc_payload x) t \<and> g = group_of t
           \<and> v = ucast (compute_priority A (ipc_payload x) (pm_policy mode)))
        \<or> tob_bid A (pm_policy mode) (ipc_payload x) \<and> compute_priority A (ipc_payload x) (pm_policy mode) = 0
          \<and> ipc_priority x = pm_fallback mode"
  using run_messages_ok [OF run mp x] decode_small [OF fb]
  by (auto simp: message_ok_def tob_priority_def decode_encoders intro: bid_targetsI split: if_splits)

lemma priorities_typed_witness:
  "case decode_slot (encode_backrun_bid_priority (tx_hash 7) 105010) of
      TobSlot v \<Rightarrow> False
    | TargetSlot g \<Rightarrow> False
    | BidSlot g v \<Rightarrow> \<exists>t. backrun_bid_for test_alloy (pm_policy pair_mode) pair_bid t \<and> g = group_of t"
proof -
  obtain c where run: "ipc_path test_alloy sample_prom ascending (initial pair_mode sample_metrics) pair_labels c"
    using pair_run by blast
  have "\<not> tob_bid test_alloy (for_test GW 0) pair_bid"
    using pair_bid_facts(1) by (auto simp: tob_bid_def backrun_bid_for_def is_tob_def split: option.splits)
  then show ?thesis
    using priorities_typed [OF run, of "tx_hash 8" "snd (pair_wire ! 1)"]
    by (simp add: pair_mode_fields pair_labels_simps pair_wire_def decode_encoders) blast
qed

subsection \<open>The winner stands behind its target\<close>

text \<open>C3: In a block that orders the messages of a run by their priority, every target is followed at once by all
  its bids in the block, the best first, each a reported bid for that target with the priority of
  its score; whatever else the block holds, below the group of the target or above it, stays
  outside. Top-of-block bids come before every target. The hashes of the targets are told apart by
  their first 126 bits, which are not all zero.\<close>
theorem winner_behind_target:
  assumes "ipc_path A P it (initial mode m) ls c" "Suc (unat (pm_max_pending_entries mode)) < 2 ^ 64"
    and "unat (pm_fallback mode) < 2 ^ 129" "block_of (wire_of ls) L"
    and "inj_on backrun_id (bid_targets A (pm_policy mode) (inserts (received ls)))" "backrun_id t \<noteq> 0"
    and "L = xs @ (t, encode_opportunity_priority t) # ys"
  shows "\<exists>bids rest. L = xs @ (t, encode_opportunity_priority t) # bids @ rest
    \<and> (\<forall>(h, p) \<in> set bids. \<exists>tx. (h, tx) \<in> inserts (received ls) \<and> backrun_bid_for A (pm_policy mode) tx t
         \<and> p = encode_backrun_bid_priority t (compute_priority A tx (pm_policy mode)))
    \<and> (\<forall>h s. (h, encode_backrun_bid_priority t s) \<in> set L \<longrightarrow> (h, encode_backrun_bid_priority t s) \<in> set bids)
    \<and> sorted_wrt (\<lambda>x y. snd y \<le> snd x) bids
    \<and> (\<forall>h s. (h, encode_tob_priority s) \<in> set L \<longrightarrow> (h, encode_tob_priority s) \<in> set xs)"
proof (intro exI conjI allI impI)
  note r = run_block [OF assms]
  show "L = xs @ (t, encode_opportunity_priority t) # filter (behind t) L @ filter (\<lambda>x. \<not> behind t x) ys"
    by (rule r(1))
  show "\<forall>(h, p) \<in> set (filter (behind t) L). \<exists>tx. (h, tx) \<in> inserts (received ls) \<and> backrun_bid_for A (pm_policy mode) tx t
         \<and> p = encode_backrun_bid_priority t (compute_priority A tx (pm_policy mode))"
    using r(3) by blast
  have sorted: "sorted_wrt (\<lambda>x y. snd y \<le> snd x) L" using assms(4) by (simp add: block_of_def)
  then show "sorted_wrt (\<lambda>x y. snd y \<le> snd x) (filter (behind t) L)" by (rule sorted_wrt_filter)
  show "(h, encode_backrun_bid_priority t s) \<in> set (filter (behind t) L)"
    if "(h, encode_backrun_bid_priority t s) \<in> set L" for h s
    using that by (simp add: behind_def bid_in_range)
  show "(h, encode_tob_priority s) \<in> set xs" if "(h, encode_tob_priority s) \<in> set L" for h s
    using that sorted tob_above_target [of t s] by (fastforce simp: assms(7) sorted_wrt_append not_less [symmetric])
qed

lemma winner_behind_target_witness:
  "\<exists>bids rest. [(tx_hash 7, encode_opportunity_priority (tx_hash 7)), (tx_hash 8, encode_backrun_bid_priority (tx_hash 7) 105010)]
      = (tx_hash 7, encode_opportunity_priority (tx_hash 7)) # bids @ rest
    \<and> (tx_hash 8, encode_backrun_bid_priority (tx_hash 7) 105010) \<in> set bids"
proof -
  let ?L = "[(tx_hash 7, encode_opportunity_priority (tx_hash 7)), (tx_hash 8, encode_backrun_bid_priority (tx_hash 7) 105010)]"
  obtain c where run: "ipc_path test_alloy sample_prom ascending (initial pair_mode sample_metrics) pair_labels c"
    using pair_run by blast
  have "unat (backrun_id (tx_hash 7)) \<noteq> 0" by (simp add: unat_backrun_id_tx_hash)
  then have "backrun_id (tx_hash 7) \<noteq> 0" by auto
  from winner_behind_target [OF run _ _ pair_block(1) _ this, of "[]"] show ?thesis
    unfolding pair_targets by (simp add: pair_mode_fields) blast
qed

subsection \<open>No pair and no bid is lost\<close>

text \<open>C6: Every backrun bid and its target are written, in whatever order and with whatever other traffic
  they are reported: if in a run the node takes every message, no prune comes later than the time
  to live after an observation, there are no more events than the pool has room for, and neither is
  reported gone, then a reported bid for a reported vanilla target is on the wire with the priority
  of its group and score, and its target with the priority of the opportunity. Each hash stands
  for one transaction, and no bid names the bid itself.\<close>
theorem every_pair_written:
  assumes run: "ipc_path A P it (initial mode m) ls c" and mp: "Suc (unat (pm_max_pending_entries mode)) < 2 ^ 64"
    and sends: "\<forall>(ev, ans) \<in> set (received ls). \<forall>i. send_ok ans i"
    and window: "\<forall>(ev, ans) \<in> set (received ls). \<forall>(ev', ans') \<in> set (received ls). prune_at ans' - observe_time ans < pm_ttl mode"
    and size: "length (received ls) \<le> unat (pm_max_cache_entries mode)" "length (received ls) \<le> unat (pm_max_pending_entries mode)"
    and stay: "h \<notin> gone (received ls)" "t \<notin> gone (received ls)"
    and bid: "\<forall>tx. (h, tx) \<in> inserts (received ls) \<longleftrightarrow> tx = btx" "backrun_bid_for A (pm_policy mode) btx t"
    and target: "\<forall>tx. (t, tx) \<in> inserts (received ls) \<longleftrightarrow> tx = ttx" "\<not> to_gateway A (pm_policy mode) ttx"
    and unnamed: "h \<notin> bid_targets A (pm_policy mode) (inserts (received ls))"
  shows "(t, \<lparr>ipc_payload = ttx, ipc_priority = encode_opportunity_priority t, extra_data = []\<rparr>) \<in> set (wire_of ls)
    \<and> (h, \<lparr>ipc_payload = btx, ipc_priority = encode_backrun_bid_priority t (compute_priority A btx (pm_policy mode)),
        extra_data = []\<rparr>) \<in> set (wire_of ls)"
  by (rule pair_written [OF run mp _ stay bid target unnamed]) (use sends window size in \<open>simp add: within_bounds_def\<close>)

lemma every_pair_written_witness:
  "(tx_hash 7, \<lparr>ipc_payload = vanilla test_builder OTHER, ipc_priority = encode_opportunity_priority (tx_hash 7), extra_data = []\<rparr>)
      \<in> set (wire_of pair_labels)
    \<and> (tx_hash 8, \<lparr>ipc_payload = pair_bid, ipc_priority = encode_backrun_bid_priority (tx_hash 7) 105010, extra_data = []\<rparr>)
      \<in> set (wire_of pair_labels)"
proof -
  obtain c where run: "ipc_path test_alloy sample_prom ascending (initial pair_mode sample_metrics) pair_labels c"
    using pair_run by blast
  have r: "received pair_labels = pair_events" by (simp add: pair_labels_def received_def)
  have b: "inserts pair_events = {(tx_hash 8, pair_bid), (tx_hash 7, vanilla test_builder OTHER)}" "gone pair_events = {}"
    using pair_labels_simps(1) by (simp_all add: r pair_events_def)
  have ne: "tx_hash 8 \<noteq> tx_hash 7" by simp
  have "tx_hash 8 \<notin> bid_targets test_alloy (for_test GW 0) {(tx_hash 8, pair_bid), (tx_hash 7, vanilla test_builder OTHER)}"
    using pair_bid_facts(1,3) by (auto simp: bid_targets_def backrun_bid_for_def split: option.splits)
  from every_pair_written [OF run, of "tx_hash 8" "tx_hash 7" pair_bid "vanilla test_builder OTHER"] this pair_bid_facts
  show ?thesis
    by (simp add: r b pair_mode_fields) (simp add: pair_events_def calm_def)
qed

text \<open>C7: Every top-of-block bid is written, whatever else arrives and however long the run is: if the node takes
  every message, a reported gateway transaction without a target is on the wire with the priority
  of its score, or the fallback if its score is zero, provided each hash stands for one transaction
  and no bid names it as its target. Neither the time to live nor a capacity is in the way.\<close>
theorem every_tob_bid_written:
  assumes run: "ipc_path A P it (initial mode m) ls c" and mp: "Suc (unat (pm_max_pending_entries mode)) < 2 ^ 64"
    and sends: "\<forall>(ev, ans) \<in> set (received ls). \<forall>i. send_ok ans i"
    and bid: "\<forall>tx'. (h, tx') \<in> inserts (received ls) \<longleftrightarrow> tx' = tx" "tob_bid A (pm_policy mode) tx"
    and unnamed: "h \<notin> bid_targets A (pm_policy mode) (inserts (received ls))"
  shows "(h, \<lparr>ipc_payload = tx, ipc_priority = tob_priority A (pm_policy mode) (pm_fallback mode) tx, extra_data = []\<rparr>)
    \<in> set (wire_of ls)"
  by (rule tob_written [OF run mp sends bid unnamed])

lemma every_tob_bid_written_witness:
  "(3, \<lparr>ipc_payload = gateway_tx 0 4, ipc_priority = encode_tob_priority 4, extra_data = []\<rparr>) \<in> set (wire_of sample_labels)"
proof -
  obtain c where run: "ipc_path sample_alloy sample_prom ascending (initial sample_mode sample_metrics) sample_labels c"
    using sample_run by blast
  have r: "\<forall>(ev, ans) \<in> set (received sample_labels). \<forall>i. send_ok ans i"
    by (simp add: sample_labels_def received_def calm_def)
  have tob: "tob_bid sample_alloy local_policy (gateway_tx 0 4)"
    by (simp add: tob_bid_def sample_to sample_decode_call is_tob_def)
  have "3 \<notin> bid_targets sample_alloy local_policy {(3, gateway_tx 0 4)}"
    by (simp add: bid_targets_def backrun_bid_for_def sample_decode_call is_tob_def)
  from every_tob_bid_written [OF run sample_mode_fields(3) r, of 3 "gateway_tx 0 4"] tob this
  show ?thesis by (simp add: sample_labels_simps sample_mode_fields tob_priority_def sample_score)
qed

subsection \<open>A target that has a priority already\<close>

text \<open>C33: When a transaction that is a top-of-block bid itself is reported first and a backrun bid that
  names it is reported after it, the first keeps its place: the bid is written with the priority of
  its group, but its target is not written again as an opportunity, so the bid does not stand behind
  it. The two reports are in one batch, the second in time before the first expires; the first is not
  cached yet and no bid waits for it, neither hash is in the dedup cache, there is room in pool and
  dedup cache, and the node takes both messages.\<close>
theorem tob_target_not_paired:
  assumes "tob_bid A (policy (ls_pool st)) tx" "backrun_bid_for A (policy (ls_pool st)) btx t" "h \<noteq> t"
    and "pair_room t (ls_pool st)" "h \<notin> sent_keys (ls_sent st)" "t \<notin> sent_keys (ls_sent st)"
    and "sent_len (ls_sent st) + 2 \<le> unat (max_entries (ls_sent st))"
    and "prune_at ans2 - observe_time ans1 < ttl (ls_pool st)" "\<And>i. send_ok ans1 i" "\<And>i. send_ok ans2 i"
  shows "\<exists>st'. process_batch A P it [(\<lparr>ev_hash = t, ev_action = InsertEv tx\<rparr>, ans1), (\<lparr>ev_hash = h, ev_action = InsertEv btx\<rparr>, ans2)] st
    = ([(t, \<lparr>ipc_payload = tx, ipc_priority = tob_priority A (policy (ls_pool st)) (fallback (ls_pool st)) tx, extra_data = []\<rparr>),
        (h, \<lparr>ipc_payload = btx, ipc_priority = encode_backrun_bid_priority t (compute_priority A btx (policy (ls_pool st))),
             extra_data = []\<rparr>)], False, st')"
  using tob_then_bid [OF assms, of P it] by (simp add: bid_of_def to_ipc_def del: process_batch.simps)

definition tob_target :: test_envelope where
  "tob_target = test_gateway_tx test_builder (gateway_call_calldata test_alloy test_builder 5)"

lemma tob_target_not_paired_witness:
  "\<exists>st'. process_batch test_alloy sample_prom ascending
      [(\<lparr>ev_hash = tx_hash 7, ev_action = InsertEv tob_target\<rparr>, calm), (\<lparr>ev_hash = tx_hash 8, ev_action = InsertEv pair_bid\<rparr>, calm)] pair_state
    = ([(tx_hash 7, \<lparr>ipc_payload = tob_target, ipc_priority = encode_tob_priority 105005, extra_data = []\<rparr>),
        (tx_hash 8, \<lparr>ipc_payload = pair_bid, ipc_priority = encode_backrun_bid_priority (tx_hash 7) 105010, extra_data = []\<rparr>)], False, st')"
proof -
  have tob: "tob_bid test_alloy (policy (ls_pool pair_state)) tob_target"
    using fixtures_to [OF test_builder_laws] fixtures_decode [OF test_builder_laws]
    by (simp add: tob_bid_def to_gateway_def tob_target_def gateway_call_calldata_def is_tob_def pair_state_pool)
  have s: "compute_priority test_alloy tob_target (for_test GW 0) = 105005"
    unfolding tob_target_def gateway_call_calldata_def by (rule fixture_score_default [OF test_builder_laws]) simp
  have bid: "backrun_bid_for test_alloy (policy (ls_pool pair_state)) pair_bid (tx_hash 7)" "tx_hash 8 \<noteq> tx_hash 7"
    using pair_bid_facts by (simp_all add: pair_state_pool)
  from tob_target_not_paired [OF tob bid pair_state_facts(2,4,4,3,5,6,6), of sample_prom ascending]
  show ?thesis by (simp add: pair_state_pool tob_priority_def s pair_bid_facts(2) del: process_batch.simps)
qed

end
