(* ===== verification/Process_Properties.thy ===== *)
theory Process_Properties
  imports Sample_Run
begin

section \<open>Properties of the running process\<close>

text \<open>
  Over every interleaving of the loop, of the HTTP requests and of \<open>main\<close> after a successful start.
\<close>




text \<open>Serving requests does not interfere with the loop: whatever requests are answered, and wherever
  they come between the steps of the loop and the events of a batch, the loop runs as it runs on
  its own, with the same messages written, the same pool and dedup cache and, but for the counter
  of requests, the same metrics.\<close>
lemma requests_do_not_interfere:
  assumes "startup bind_address cfg m = Inr s" "txpool_socket cfg = Some path"
    and run: "runs (process_step A P it encode display) (launch s) pls p"
  shows "\<exists>c c0. ipc_path A P it (initial (mode_of cfg) m) (loop_view pls) c \<and> pr_task p = Some c0
    \<and> cf_phase c = cf_phase c0 \<and> ls_pool (cf_state c) = ls_pool (cf_state c0)
    \<and> ls_sent (cf_state c) = ls_sent (cf_state c0)
    \<and> ls_metrics (cf_state c) = (pr_metrics p)\<lparr>http_requests_total := http_requests_total m\<rparr>"
proof -
  have s: "st_metrics s = m" "st_loop s = Some (path, mode_of cfg)"
    using startup_started [OF assms(1)] assms(2) by simp_all
  note r = run_projected [OF run s(2), unfolded s(1)]
  then show ?thesis
    by (intro exI [of _ "loop_of (http_requests_total m) p"] exI [of _ "the (pr_task p)"])
       (auto simp: loop_of_def inbox_ok_def)
qed

text \<open>C30: Every request is counted once, under its path and the class of its status, whatever else the
  process does meanwhile.\<close>
theorem requests_counted_over_run:
  fixes A :: "'tx alloy" and P :: "('r, 'c, 'g, 'v) prom"
  assumes P: "prom_laws P" and m: "metrics_new P = Some m" and start: "startup bind_address cfg m = Inr s"
    and run: "runs (process_step A P it encode display) (launch s) pls p"
  shows "vec_get P [path, class] (http_requests_total (pr_metrics p)) = of_nat (sum_list (map (served path class) pls))"
proof -
  let ?p0 = "launch s :: ('tx, 'r, 'c, 'g, 'v) process"
  let ?two = "\<lambda>p :: ('tx, 'r, 'c, 'g, 'v) process. length (snd (vec_desc P (http_requests_total (pr_metrics p)))) = 2"
  have "?two ?p0"
    using metrics_new_fresh [OF P m] by (simp add: launch_def startup_started(1) [OF start] fresh_metrics_def)
  then have "vec_get P [path, class] (http_requests_total (pr_metrics p))
      = vec_get P [path, class] (http_requests_total (pr_metrics ?p0))
        + sum_list (map (\<lambda>l. of_nat (served path class l)) pls)"
    by (rule runs_sum [where f = "\<lambda>p. vec_get P [path, class] (http_requests_total (pr_metrics p))" and Q = ?two, OF run])
       (simp add: step_http [OF P])
  moreover have "vec_get P [path, class] (http_requests_total m) = 0"
    using metrics_new_fresh [OF P m] by (simp add: fresh_metrics_def)
  moreover have "sum_list (map (\<lambda>l. of_nat (served path class l) :: u64) pls) = of_nat (sum_list (map (served path class) pls))"
    by (induction pls) simp_all
  ultimately show ?thesis by (simp add: launch_def startup_started(1) [OF start])
qed

lemma requests_counted_over_run_witness:
  "\<exists>p p'. process_step sample_alloy sample_prom ascending (\<lambda>m. Inl ()) (\<lambda>e. []) p (Request ''/metrics'' (fst (metrics_endpoint sample_prom (\<lambda>m. Inl ()) (\<lambda>e. []) (pr_metrics p)))) p'
     \<and> vec_get sample_prom [''/metrics'', ''5xx''] (http_requests_total (pr_metrics p')) = 1"
proof -
  let ?step = "process_step sample_alloy sample_prom ascending (\<lambda>m. Inl ()) (\<lambda>e. [])"
  obtain p where run: "runs ?step (launch sample_started) sample_plabels p" and main: "pr_main p = Serving"
    using sample_process_run by blast
  obtain resp m' where h: "metrics_endpoint sample_prom (\<lambda>m. Inl ()) (\<lambda>e. []) (pr_metrics p) = (resp, m')" by fastforce
  then have st: "status_of resp = 500" by (auto simp: metrics_endpoint_def render_prometheus_def)
  have step: "?step p (Request ''/metrics'' resp) (p\<lparr>pr_metrics := m'\<rparr>)"
    by (rule process_step.request) (simp_all add: main serve_def router_def h)
  have "sum_list (map (served ''/metrics'' ''5xx'') (sample_plabels @ [Request ''/metrics'' resp])) = 1"
    by (simp add: sample_plabels_def st status_class_def)
  then have "vec_get sample_prom [''/metrics'', ''5xx''] (http_requests_total (pr_metrics (p\<lparr>pr_metrics := m'\<rparr>))) = of_nat 1"
    using requests_counted_over_run [OF sample_prom_laws sample_metrics_new sample_startup runs_snoc [of ?step, OF run step],
        of "''/metrics''" "''5xx''"] by (simp only:)
  with step h show ?thesis by (metis fst_conv of_nat_1)
qed

text \<open>Without a socket the process is observability only: nothing is ever written to the node, and
  \<open>/health\<close> reports a disabled loop and zeros for as long as the process runs.\<close>
lemma observability_only:
  assumes P: "prom_laws P" and m: "metrics_new P = Some m"
    and start: "startup bind_address cfg m = Inr s" "txpool_socket cfg = None"
    and run: "runs (process_step A P it encode display) (launch s) pls p"
  shows "pr_task p = None \<and> wire_of (loop_view pls) = [] \<and> snapshot P (pr_metrics p) = blank_snapshot Disabled"
proof -
  have "snapshot P m = blank_snapshot Disabled"
    using metrics_new_fresh [OF P m] unfolding fresh_metrics_def by blast
  then show ?thesis
    using run_without_loop [OF run] startup_started [OF start(1)] start(2) by (simp add: launch_def)
qed

text \<open>C19: The process ends in order: a normal exit comes only after the interrupt and after the loop has
  returned, and \<open>/health\<close> would then report a disabled loop; after an exit nothing happens any more;
  and from every moment after the interrupt the process can exit, within five steps and the events
  left of the current batch, with no request and nothing more arriving from the node.\<close>
theorem process_exits:
  fixes A :: "'tx alloy" and P :: "('r, 'c, 'g, 'v) prom"
  assumes P: "prom_laws P" and m: "metrics_new P = Some m" and start: "startup bind_address cfg m = Inr s"
    and run: "runs (process_step A P it encode display) (launch s) pls p"
  shows "(pr_main p = Exited \<longrightarrow> Interrupt \<in> set pls \<and> task_done (pr_task p)
      \<and> hs_ipc_state (snapshot P (pr_metrics p)) = ''disabled'' \<and> (\<forall>l p'. \<not> process_step A P it encode display p l p'))
    \<and> (pr_main p \<in> {Draining, Joining} \<longrightarrow>
      (\<exists>ls p'. runs (process_step A P it encode display) p ls p' \<and> length ls \<le> length (pr_inbox p) + 5
        \<and> (\<forall>l \<in> set ls. (\<exists>ea out. l = Event ea out) \<or> l \<in> {Drained, Join} \<union> Task ` {Internal, Changed, ConnectFail})
        \<and> pr_main p' = Exited))"
proof (intro conjI impI)
  let ?p0 = "launch s :: ('tx, 'r, 'c, 'g, 'v) process"
  note fresh = metrics_new_fresh [OF P m]
  have s: "st_metrics s = m" "\<And>path mode. st_loop s = Some (path, mode) \<Longrightarrow> mode = mode_of cfg"
    using startup_started [OF start] by auto
  assume exit: "pr_main p = Exited"
  show "Interrupt \<in> set pls"
    using run_signalled [OF run] exit by (simp add: launch_def)
  show ret: "task_done (pr_task p)"
    using run_main_ok [OF run] exit by (simp add: main_ok_def)
  show "hs_ipc_state (snapshot P (pr_metrics p)) = ''disabled''"
    by (rule exit_shows_disabled [OF run ret P]) (use s fresh mode_of_room in auto)
  show "\<forall>l p'. \<not> process_step A P it encode display p l p'"
    by (simp add: exited_final exit)
next
  assume main: "pr_main p \<in> {Draining, Joining}"
  have s: "st_metrics s = m" "\<And>path mode. st_loop s = Some (path, mode) \<Longrightarrow> mode = mode_of cfg"
    using startup_started [OF start] by auto
  show "\<exists>ls p'. runs (process_step A P it encode display) p ls p' \<and> length ls \<le> length (pr_inbox p) + 5
        \<and> (\<forall>l \<in> set ls. (\<exists>ea out. l = Event ea out) \<or> l \<in> {Drained, Join} \<union> Task ` {Internal, Changed, ConnectFail})
        \<and> pr_main p' = Exited"
    by (rule process_ends [OF run P _ _ main]) (use s metrics_new_fresh [OF P m] mode_of_room in auto)
qed

lemma process_exits_witness:
  "\<exists>pls p. runs (process_step sample_alloy sample_prom ascending (\<lambda>m. Inl ()) (\<lambda>e. [])) (launch sample_started) pls p
     \<and> pr_main p = Exited \<and> hs_ipc_state (snapshot sample_prom (pr_metrics p)) = ''disabled''"
proof -
  let ?step = "process_step sample_alloy sample_prom ascending (\<lambda>m. Inl ()) (\<lambda>e. [])"
  obtain p where run: "runs ?step (launch sample_started) sample_plabels p" and main: "pr_main p = Serving"
    using sample_process_run by blast
  let ?p1 = "p\<lparr>pr_main := Draining, pr_task := map_option send_shutdown (pr_task p)\<rparr>"
  have run1: "runs ?step (launch sample_started) (sample_plabels @ [Interrupt]) ?p1"
    by (rule runs_snoc [of ?step, OF run process_step.interrupt [OF main]])
  note e = process_exits [OF sample_prom_laws sample_metrics_new sample_startup]
  obtain ls p' where ls: "runs ?step ?p1 ls p'" and exit: "pr_main p' = Exited"
    using e [OF run1] by auto
  have run2: "runs ?step (launch sample_started) ((sample_plabels @ [Interrupt]) @ ls) p'"
    by (rule runs_append [OF ls run1])
  from e [OF run2] exit have "hs_ipc_state (snapshot sample_prom (pr_metrics p')) = ''disabled''" by simp
  with run2 exit show ?thesis by blast
qed

end
