(* ===== verification/Atomic_Metrics.thy ===== *)
theory Atomic_Metrics
  imports Ipc_Metrics
begin

section \<open>The loop at the grain of its atomic writes\<close>

text \<open>
  A method of \<open>Metrics\<close> updates one or more atomics, one after the other, and the event handler
  calls many of them: a thread that serves \<open>/health\<close> can read in between. Here every handler is
  taken apart into its atomic actions, the writes and the messages in program order, and put
  together again: run without interruption they are the functions of \<open>Ipc_Loop\<close>. The loop never
  reads a metric, so its actions depend on the pool and the dedup cache alone.
\<close>

subsection \<open>Atomic writes\<close>

datatype metric_op =
    IncEvents string | SetLastEvent i64 | StoreEventTs i64
  | IncInserts | IncPrioritized | SetLastSend i64 | StoreSendTs i64
  | IncSkipped | IncInvalid
  | AddPairs u64 | AddPended u64 | AddExpired u64 | AddEvicted u64
  | SetPending i64 | SetCache i64 | AddSentEvictions u64 | SetSentCache i64
  | IncFailures | IncReconnects | SetStateGauge i64 | StoreState i64

fun apply_op :: "('r, 'c, 'g, 'v) prom \<Rightarrow> metric_op \<Rightarrow> ('r, 'c, 'g, 'v) metrics \<Rightarrow> ('r, 'c, 'g, 'v) metrics" where
  "apply_op P (IncEvents kind) m = m\<lparr>txpool_events_total := vec_inc P [kind] (txpool_events_total m)\<rparr>"
| "apply_op P (SetLastEvent t) m = m\<lparr>last_event_unix_seconds := gauge_set P t (last_event_unix_seconds m)\<rparr>"
| "apply_op P (StoreEventTs t) m = m\<lparr>last_event_ts := t\<rparr>"
| "apply_op P IncInserts m = m\<lparr>txpool_inserts_total := counter_inc_by P 1 (txpool_inserts_total m)\<rparr>"
| "apply_op P IncPrioritized m = m\<lparr>txpool_prioritized_total := counter_inc_by P 1 (txpool_prioritized_total m)\<rparr>"
| "apply_op P (SetLastSend t) m = m\<lparr>last_send_unix_seconds := gauge_set P t (last_send_unix_seconds m)\<rparr>"
| "apply_op P (StoreSendTs t) m = m\<lparr>last_send_ts := t\<rparr>"
| "apply_op P IncSkipped m =
     m\<lparr>txpool_skipped_non_gateway_total := counter_inc_by P 1 (txpool_skipped_non_gateway_total m)\<rparr>"
| "apply_op P IncInvalid m =
     m\<lparr>txpool_skipped_invalid_gateway_total := counter_inc_by P 1 (txpool_skipped_invalid_gateway_total m)\<rparr>"
| "apply_op P (AddPairs n) m = m\<lparr>backrun_pairs_matched_total := counter_inc_by P n (backrun_pairs_matched_total m)\<rparr>"
| "apply_op P (AddPended n) m = m\<lparr>backrun_bids_pended_total := counter_inc_by P n (backrun_bids_pended_total m)\<rparr>"
| "apply_op P (AddExpired n) m = m\<lparr>backrun_bids_expired_total := counter_inc_by P n (backrun_bids_expired_total m)\<rparr>"
| "apply_op P (AddEvicted n) m = m\<lparr>backrun_bids_evicted_total := counter_inc_by P n (backrun_bids_evicted_total m)\<rparr>"
| "apply_op P (SetPending n) m = m\<lparr>backrun_pending := gauge_set P n (backrun_pending m)\<rparr>"
| "apply_op P (SetCache n) m = m\<lparr>backrun_cache := gauge_set P n (backrun_cache m)\<rparr>"
| "apply_op P (AddSentEvictions n) m =
     m\<lparr>txpool_sent_cache_evictions_total := counter_inc_by P n (txpool_sent_cache_evictions_total m)\<rparr>"
| "apply_op P (SetSentCache n) m = m\<lparr>txpool_sent_cache := gauge_set P n (txpool_sent_cache m)\<rparr>"
| "apply_op P IncFailures m = m\<lparr>txpool_send_failures_total := counter_inc_by P 1 (txpool_send_failures_total m)\<rparr>"
| "apply_op P IncReconnects m = m\<lparr>txpool_ipc_reconnects_total := counter_inc_by P 1 (txpool_ipc_reconnects_total m)\<rparr>"
| "apply_op P (SetStateGauge g) m = m\<lparr>txpool_ipc_state := gauge_set P g (txpool_ipc_state m)\<rparr>"
| "apply_op P (StoreState g) m = m\<lparr>ipc_state_ts := g\<rparr>"

definition apply_ops :: "('r, 'c, 'g, 'v) prom \<Rightarrow> metric_op list \<Rightarrow> ('r, 'c, 'g, 'v) metrics \<Rightarrow> ('r, 'c, 'g, 'v) metrics" where
  "apply_ops P ops m = fold (apply_op P) ops m"

lemma apply_ops_simps [simp]:
  "apply_ops P [] m = m" "apply_ops P (op # ops) m = apply_ops P ops (apply_op P op m)"
  "apply_ops P (ops @ ops') m = apply_ops P ops' (apply_ops P ops m)"
  by (simp_all add: apply_ops_def)

text \<open>The methods, in the order of their writes.\<close>

definition state_ops :: "ipc_state \<Rightarrow> metric_op list" where
  "state_ops s = [SetStateGauge (ipc_gauge s), StoreState (ipc_gauge s)]"

definition event_ops :: "string \<Rightarrow> int \<Rightarrow> metric_op list" where
  "event_ops kind wall = [IncEvents kind, SetLastEvent (unix_now wall), StoreEventTs (unix_now wall)]"

definition prioritized_ops :: "int \<Rightarrow> metric_op list" where
  "prioritized_ops wall = [IncPrioritized, SetLastSend (unix_now wall), StoreSendTs (unix_now wall)]"

definition positive_op :: "(u64 \<Rightarrow> metric_op) \<Rightarrow> u64 \<Rightarrow> metric_op list" where
  "positive_op f n = (if 0 < n then [f n] else [])"

lemma methods_are_writes:
  "set_ipc_state P s m = apply_ops P (state_ops s) m"
  "record_event P kind wall m = apply_ops P (event_ops kind wall) m"
  "record_insert P m = apply_ops P [IncInserts] m"
  "record_prioritized P wall m = apply_ops P (prioritized_ops wall) m"
  "record_skipped_non_gateway P m = apply_ops P [IncSkipped] m"
  "record_skipped_invalid_gateway P m = apply_ops P [IncInvalid] m"
  "add_backrun_pairs P n m = apply_ops P (positive_op AddPairs n) m"
  "add_backrun_pended P n m = apply_ops P (positive_op AddPended n) m"
  "add_backrun_expired P n m = apply_ops P (positive_op AddExpired n) m"
  "add_backrun_evicted P n m = apply_ops P (positive_op AddEvicted n) m"
  "set_backrun_pending P i m = apply_ops P [SetPending i] m"
  "set_backrun_cache P i m = apply_ops P [SetCache i] m"
  "add_sent_cache_evictions P n m = apply_ops P (positive_op AddSentEvictions n) m"
  "set_sent_cache P i m = apply_ops P [SetSentCache i] m"
  "record_send_failure P m = apply_ops P [IncFailures] m"
  "record_reconnect P m = apply_ops P [IncReconnects] m"
  by (simp_all add: metric_updates state_ops_def event_ops_def prioritized_ops_def positive_op_def Let_def)

subsection \<open>The handler of an event as a list of actions\<close>

datatype 'tx action = Write metric_op | Wire "txhash \<times> 'tx ipc_tx"

fun writes :: "'tx action list \<Rightarrow> metric_op list" where
  "writes [] = []"
| "writes (Write op # acts) = op # writes acts"
| "writes (Wire x # acts) = writes acts"

fun wires :: "'tx action list \<Rightarrow> 'tx wire" where
  "wires [] = []"
| "wires (Write op # acts) = wires acts"
| "wires (Wire x # acts) = x # wires acts"

lemma actions_append [simp]:
  "writes (a @ b) = writes a @ writes b" "wires (a @ b) = wires a @ wires b"
  by (induction a rule: writes.induct) simp_all

lemma actions_Write [simp]: "writes (map Write ops) = ops" "wires (map Write ops) = []"
  by (induction ops) simp_all

text \<open>The part of an insert between the echo test and the sends: the reinjections, the writes, the pool.\<close>

definition observe_actions :: "'tx alloy \<Rightarrow> answers \<Rightarrow> txhash \<Rightarrow> 'tx \<Rightarrow> 'tx pending_pool \<Rightarrow>
    'tx reinjection list \<times> metric_op list \<times> 'tx pending_pool" where
  "observe_actions A ans hash tx pool =
     (let (expired, pool1) = prune (prune_at ans) pool;
          (res, pool2) = observe_at A hash tx (observe_time ans) pool1
      in (reinjections res,
          [IncInserts] @ positive_op AddExpired expired
          @ (if skipped_non_gateway res then [IncSkipped] else [])
          @ (if skipped_invalid_gateway res then [IncInvalid] else [])
          @ positive_op AddPairs (pairs_matched res) @ positive_op AddPended (bids_pended res)
          @ positive_op AddEvicted (bids_evicted res)
          @ [SetPending (pending_len pool2), SetCache (of_nat (cache_len pool2))], pool2))"

fun send_actions :: "answers \<Rightarrow> nat \<Rightarrow> 'tx reinjection list \<Rightarrow> sent_cache \<Rightarrow> 'tx action list \<times> bool \<times> sent_cache" where
  "send_actions ans i [] sent = ([], False, sent)"
| "send_actions ans i (r # rs) sent =
     (if sent_contains sent (rj_hash r) then send_actions ans i rs sent
      else if \<not> send_ok ans i then ([Write IncFailures], True, sent)
      else
        (let (evicted, sent') = sent_insert (rj_hash r) (rj_priority r) sent;
             (acts, failed, sent'') = send_actions ans (Suc i) rs sent'
         in (Wire (rj_hash r, to_ipc r)
               # map Write (prioritized_ops (wall_send ans i) @ positive_op AddSentEvictions evicted
                   @ [SetSentCache (of_nat (sent_len sent'))]) @ acts, failed, sent'')))"

definition event_actions :: "'tx alloy \<Rightarrow> ('tx bid_map \<Rightarrow> txhash list) \<Rightarrow> 'tx event \<times> answers \<Rightarrow>
    'tx pending_pool \<Rightarrow> sent_cache \<Rightarrow> 'tx action list \<times> bool \<times> 'tx pending_pool \<times> sent_cache" where
  "event_actions A it ea pool sent =
     (let (ev, ans) = ea;
          first = map Write (event_ops (event_kind (ev_action ev)) (wall_event ans))
      in case ev_action ev of
           InsertEv tx \<Rightarrow>
             (if sent_contains sent (ev_hash ev) then (first, False, pool, sent)
              else (let (rs, ops, pool') = observe_actions A ans (ev_hash ev) tx pool;
                        (acts, failed, sent') = send_actions ans 0 rs sent
                    in (first @ map Write ops @ acts, failed, pool', sent')))
         | _ \<Rightarrow>
             (let sent' = sent_remove (ev_hash ev) sent
              in (first @ [Write (SetSentCache (of_nat (sent_len sent')))], False, forget it (ev_hash ev) pool, sent')))"

subsection \<open>Uninterrupted, the actions are the handler\<close>

text \<open>A conditional update is a conditional list of writes.\<close>

lemma conditional_writes:
  "(if 0 < n then positive_op f n else []) = positive_op f n"
  "(if b then apply_ops P ops m else m) = apply_ops P (if b then ops else []) m"
  by (simp_all add: positive_op_def)

lemma observe_event_actions:
  "observe_event A P ans h tx st =
     (let (rs, ops, pool) = observe_actions A ans h tx (ls_pool st)
      in (rs, st\<lparr>ls_pool := pool, ls_metrics := apply_ops P ops (ls_metrics st)\<rparr>))"
proof -
  obtain ex p1 where pr: "prune (prune_at ans) (ls_pool st) = (ex, p1)" by fastforce
  obtain res p2 where obs: "observe_at A h tx (observe_time ans) p1 = (res, p2)" by fastforce
  show ?thesis
    unfolding observe_event_def observe_actions_def Let_def pr obs prod.case methods_are_writes conditional_writes
      apply_ops_simps(3) by (simp del: apply_ops_simps(3))
qed

lemma send_loop_actions:
  "send_loop P ans i rs st =
     (let (acts, failed, sent) = send_actions ans i rs (ls_sent st)
      in (wires acts, failed, st\<lparr>ls_sent := sent, ls_metrics := apply_ops P (writes acts) (ls_metrics st)\<rparr>))"
proof (induction rs arbitrary: i st)
  case (Cons r rs)
  then show ?case
    by (auto simp: Let_def methods_are_writes split: prod.splits)
qed simp

theorem event_actions_refine:
  "process_event A P it ea st =
     (let (acts, failed, pool, sent) = event_actions A it ea (ls_pool st) (ls_sent st)
      in (wires acts, failed, \<lparr>ls_pool = pool, ls_sent = sent, ls_metrics = apply_ops P (writes acts) (ls_metrics st)\<rparr>))"
proof -
  obtain ev ans where ea: "ea = (ev, ans)" by (cases ea)
  show ?thesis
    by (cases "ev_action ev")
       (auto simp: ea process_event_def event_actions_def observe_event_actions send_loop_actions Let_def methods_are_writes
         split: prod.splits)
qed

end
