(* ===== verification/Atomic_Process.thy ===== *)
theory Atomic_Process
  imports Sidecar_Process Atomic_Metrics
begin

section \<open>The process at the grain of atomic reads and writes\<close>

text \<open>
  \<open>Sidecar_Process\<close> refined: a step of the loop puts its actions on a list, and they happen one by
  one; a request for \<^verbatim>\<open>/health\<close> opens, loads its fifteen fields one by one in the order of
  \<open>Metrics::snapshot\<close>, and is answered and counted; any number of requests are open at a time.
  Reads and writes interleave in one order: every atomic is accessed with \<open>Relaxed\<close> ordering, and
  what a thread sees of two different atomics out of that order is left out.

  While actions are open the metrics lag behind the loop's own step; \<open>completed\<close> lets them all happen.
\<close>

subsection \<open>Reading a snapshot field by field\<close>

text \<open>The answer of a request whose \<open>k\<close>-th load found the metrics \<open>seen k\<close>.\<close>

definition read_snapshot :: "('r, 'c, 'g, 'v) prom \<Rightarrow> (nat \<Rightarrow> ('r, 'c, 'g, 'v) metrics) \<Rightarrow> health_snapshot" where
  "read_snapshot P seen =
     \<lparr>hs_status = ''ok'',
      hs_service = ''magma-sidecar'',
      hs_ipc_state = ipc_as_str (ipc_state_from_gauge (ipc_state_ts (seen 0))),
      tx_inserts_observed = counter_get P (txpool_inserts_total (seen 1)),
      tx_prioritized = counter_get P (txpool_prioritized_total (seen 2)),
      tx_skipped_non_gateway = counter_get P (txpool_skipped_non_gateway_total (seen 3)),
      tx_skipped_invalid_gateway = counter_get P (txpool_skipped_invalid_gateway_total (seen 4)),
      ipc_send_failures = counter_get P (txpool_send_failures_total (seen 5)),
      ipc_reconnects = counter_get P (txpool_ipc_reconnects_total (seen 6)),
      sent_cache_entries = gauge_get P (txpool_sent_cache (seen 7)),
      sent_cache_evictions = counter_get P (txpool_sent_cache_evictions_total (seen 8)),
      hs_backrun_pairs_matched = counter_get P (backrun_pairs_matched_total (seen 9)),
      backrun_bids_pending = gauge_get P (backrun_pending (seen 10)),
      backrun_bids_expired = counter_get P (backrun_bids_expired_total (seen 11)),
      backrun_bids_evicted = counter_get P (backrun_bids_evicted_total (seen 12)),
      hs_last_event_unix_seconds = nonzero (last_event_ts (seen 13)),
      hs_last_send_unix_seconds = nonzero (last_send_ts (seen 14))\<rparr>"

definition snapshot_loads :: nat where
  "snapshot_loads = 15"

lemma read_snapshot_still: "read_snapshot P (\<lambda>k. m) = snapshot P m"
  by (simp add: read_snapshot_def snapshot_def)

lemma read_snapshot_cong:
  "(\<And>k. k < snapshot_loads \<Longrightarrow> seen k = seen' k) \<Longrightarrow> read_snapshot P seen = read_snapshot P seen'"
  by (simp add: read_snapshot_def snapshot_loads_def)

subsection \<open>State and steps\<close>

text \<open>An open request is the list of the metrics that its loads have found.\<close>

record ('tx, 'r, 'c, 'g, 'v) aprocess =
  ap_proc :: "('tx, 'r, 'c, 'g, 'v) process"
  ap_todo :: "'tx action list"
  ap_open :: "(nat, ('r, 'c, 'g, 'v) metrics list) fmap"

datatype 'tx alabel =
    Main "'tx plabel"
  | Begin "'tx plabel"
  | DoWrite metric_op
  | DoWire "txhash \<times> 'tx ipc_tx"
  | OpenHealth nat
  | Load nat
  | Reply nat health_snapshot

text \<open>The actions of a step of the loop, in the order of the code.\<close>

definition task_ops :: "('tx, 'r, 'c, 'g, 'v) config \<Rightarrow> 'tx label \<Rightarrow> metric_op list" where
  "task_ops c l =
     (case (cf_phase c, l) of
        (Starting, Internal) \<Rightarrow> if cf_shutdown c then [] else state_ops Connecting
      | (LoopTop, Internal) \<Rightarrow> if cf_shutdown c then state_ops Disabled else state_ops Connecting
      | (AwaitConnect, ConnectOk) \<Rightarrow> state_ops Connected @ [IncReconnects]
      | (InConnection, Changed) \<Rightarrow> if cf_shutdown c then state_ops Disabled else []
      | _ \<Rightarrow> [])"

fun loop_actions :: "'tx alloy \<Rightarrow> ('tx bid_map \<Rightarrow> txhash list) \<Rightarrow> ('tx, 'r, 'c, 'g, 'v) config \<Rightarrow> 'tx plabel \<Rightarrow> 'tx action list" where
  "loop_actions A it c (Task l) = map Write (task_ops c l)"
| "loop_actions A it c (Event ea out) = fst (event_actions A it ea (ls_pool (cf_state c)) (ls_sent (cf_state c)))"
| "loop_actions A it c _ = []"

definition alaunch :: "('r, 'c, 'g, 'v) started \<Rightarrow> ('tx, 'r, 'c, 'g, 'v) aprocess" where
  "alaunch s = \<lparr>ap_proc = launch s, ap_todo = [], ap_open = fmempty\<rparr>"

definition running :: "('tx, 'r, 'c, 'g, 'v) aprocess \<Rightarrow> bool" where
  "running a \<longleftrightarrow> pr_main (ap_proc a) \<notin> {Exited, Failed}"

text \<open>\<open>Main l\<close> is a step of \<open>main\<close> or a request for \<open>/metrics\<close>. The server is drained when no request is
  open; the loop's task is done when its last actions have happened.\<close>

inductive astep :: "'tx alloy \<Rightarrow> ('r, 'c, 'g, 'v) prom \<Rightarrow> ('tx bid_map \<Rightarrow> txhash list) \<Rightarrow>
    (('r, 'c, 'g, 'v) metrics \<Rightarrow> 'e + u8 list) \<Rightarrow> ('e render_error \<Rightarrow> u8 list) \<Rightarrow>
    ('tx, 'r, 'c, 'g, 'v) aprocess \<Rightarrow> 'tx alabel \<Rightarrow> ('tx, 'r, 'c, 'g, 'v) aprocess \<Rightarrow> bool"
  for A P it encode display where
  a_main: "process_step A P it encode display (ap_proc a) l p \<Longrightarrow>
    l \<in> {Interrupt, ServeError} \<or> l = Drained \<and> ap_open a = fmempty \<or> l = Join \<and> ap_todo a = []
      \<or> (\<exists>resp. l = Request ''/metrics'' resp) \<Longrightarrow>
    astep A P it encode display a (Main l) (a\<lparr>ap_proc := p\<rparr>)"
| a_begin: "process_step A P it encode display (ap_proc a) l p \<Longrightarrow> ap_todo a = [] \<Longrightarrow>
    (\<exists>k. l = Task k) \<or> (\<exists>b. l = Arrive b) \<or> (\<exists>ea out. l = Event ea out) \<Longrightarrow> pr_task (ap_proc a) = Some c \<Longrightarrow>
    astep A P it encode display a (Begin l)
      (a\<lparr>ap_proc := p\<lparr>pr_metrics := pr_metrics (ap_proc a)\<rparr>, ap_todo := loop_actions A it c l\<rparr>)"
| a_write: "running a \<Longrightarrow> ap_todo a = Write op # acts \<Longrightarrow>
    astep A P it encode display a (DoWrite op)
      (a\<lparr>ap_proc := (ap_proc a)\<lparr>pr_metrics := apply_op P op (pr_metrics (ap_proc a))\<rparr>, ap_todo := acts\<rparr>)"
| a_wire: "running a \<Longrightarrow> ap_todo a = Wire x # acts \<Longrightarrow>
    astep A P it encode display a (DoWire x) (a\<lparr>ap_todo := acts\<rparr>)"
| a_open: "pr_main (ap_proc a) \<in> {Serving, Draining} \<Longrightarrow> fmlookup (ap_open a) i = None \<Longrightarrow>
    astep A P it encode display a (OpenHealth i) (a\<lparr>ap_open := fmupd i [] (ap_open a)\<rparr>)"
| a_load: "running a \<Longrightarrow> fmlookup (ap_open a) i = Some seen \<Longrightarrow> length seen < snapshot_loads \<Longrightarrow>
    astep A P it encode display a (Load i)
      (a\<lparr>ap_open := fmupd i (seen @ [pr_metrics (ap_proc a)]) (ap_open a)\<rparr>)"
| a_reply: "running a \<Longrightarrow> fmlookup (ap_open a) i = Some seen \<Longrightarrow> length seen = snapshot_loads \<Longrightarrow>
    astep A P it encode display a (Reply i (read_snapshot P (\<lambda>k. seen ! k)))
      (a\<lparr>ap_proc := (ap_proc a)\<lparr>pr_metrics := record_http P ''/health'' 200 (pr_metrics (ap_proc a))\<rparr>,
         ap_open := fmdrop i (ap_open a)\<rparr>)"

subsection \<open>Settling the open actions\<close>

definition completed :: "('r, 'c, 'g, 'v) prom \<Rightarrow> ('tx, 'r, 'c, 'g, 'v) aprocess \<Rightarrow> ('tx, 'r, 'c, 'g, 'v) process" where
  "completed P a = (ap_proc a)\<lparr>pr_metrics := apply_ops P (writes (ap_todo a)) (pr_metrics (ap_proc a))\<rparr>"

text \<open>What of a run concerns the loop: its steps, where they begin, and the signal.\<close>

fun aloop_labels :: "'tx alabel \<Rightarrow> 'tx label list" where
  "aloop_labels (Main l) = loop_labels l"
| "aloop_labels (Begin l) = loop_labels l"
| "aloop_labels _ = []"

definition aloop_view :: "'tx alabel list \<Rightarrow> 'tx label list" where
  "aloop_view als = concat (map aloop_labels als)"

text \<open>The messages that have gone out.\<close>

fun wire_step :: "'tx alabel \<Rightarrow> 'tx wire" where
  "wire_step (DoWire x) = [x]"
| "wire_step _ = []"

definition wired :: "'tx alabel list \<Rightarrow> 'tx wire" where
  "wired als = concat (map wire_step als)"

lemma apply_op_http: "apply_op P op (m\<lparr>http_requests_total := v\<rparr>) = (apply_op P op m)\<lparr>http_requests_total := v\<rparr>"
  by (cases op) simp_all

lemma apply_ops_http: "apply_ops P ops (m\<lparr>http_requests_total := v\<rparr>) = (apply_ops P ops m)\<lparr>http_requests_total := v\<rparr>"
  by (induction ops arbitrary: m) (simp_all add: apply_op_http)

lemma apply_ops_record_http:
  "(apply_ops P ops (record_http P path st m))\<lparr>http_requests_total := v\<rparr> = (apply_ops P ops m)\<lparr>http_requests_total := v\<rparr>"
  by (metis apply_ops_http record_http_overwritten)

lemma task_ops_step:
  assumes "ipc_step A P it c l c'" "l \<noteq> Signal" "\<forall>b out. l \<noteq> Batch b out"
  shows "ls_metrics (cf_state c') = apply_ops P (task_ops c l) (ls_metrics (cf_state c))"
  using assms by cases (simp_all add: task_ops_def methods_are_writes)

lemma task_ops_put_metrics [simp]: "task_ops (put_metrics m c) l = task_ops c l"
  by (simp add: task_ops_def)

text \<open>The actions of a step of the loop amount to the step.\<close>

lemma loop_step_settles:
  assumes step: "process_step A P it encode display p l p'" and c: "pr_task p = Some c"
    and l: "(\<exists>k. l = Task k) \<or> (\<exists>b. l = Arrive b) \<or> (\<exists>ea out. l = Event ea out)"
  shows "apply_ops P (writes (loop_actions A it c l)) (pr_metrics p) = pr_metrics p'"
    "wires (loop_actions A it c l) = wire_of (loop_labels l)"
proof -
  have "apply_ops P (writes (loop_actions A it c l)) (pr_metrics p) = pr_metrics p'
      \<and> wires (loop_actions A it c l) = wire_of (loop_labels l)"
    using step
  proof cases
    case (task c0 k c')
    then show ?thesis
      using task_ops_step [OF task(8,6,7)] c by (cases k) (simp_all add: wire_of_def)
  next
    case (event c0 ea rest out failed st)
    then show ?thesis
      using c event_actions_refine [of A P it ea "cf_state (put_metrics (pr_metrics p) c0)"]
      by (auto simp: wire_of_def split: prod.splits)
  qed (use l in \<open>auto simp: wire_of_def\<close>)
  then show "apply_ops P (writes (loop_actions A it c l)) (pr_metrics p) = pr_metrics p'"
    "wires (loop_actions A it c l) = wire_of (loop_labels l)" by simp_all
qed

subsection \<open>The loop at this grain\<close>

inductive_cases astep_Reply: "astep A P it encode display a (Reply i snap) a'"
inductive_cases astep_OpenHealth: "astep A P it encode display a (OpenHealth i) a'"

lemma completed_simps [simp]:
  "pr_main (completed P a) = pr_main (ap_proc a)" "pr_task (completed P a) = pr_task (ap_proc a)"
  "pr_inbox (completed P a) = pr_inbox (ap_proc a)"
  "pr_metrics (completed P a) = apply_ops P (writes (ap_todo a)) (pr_metrics (ap_proc a))"
  by (simp_all add: completed_def)

lemma inbox_ok_completed [simp]: "inbox_ok (completed P a) = inbox_ok (ap_proc a)"
  by (simp add: inbox_ok_def)

text \<open>What \<open>loop_of\<close> sees of the metrics leaves the counter of requests out.\<close>

lemma loop_of_eqI:
  assumes "pr_task p' = pr_task p" "(pr_metrics p')\<lparr>http_requests_total := v\<rparr> = (pr_metrics p)\<lparr>http_requests_total := v\<rparr>"
  shows "loop_of v p' = loop_of v p"
  using assms by (simp add: loop_of_def quiet_def put_metrics_def with_http_def)

lemma completed_main:
  "completed P (a\<lparr>ap_proc := (ap_proc a)\<lparr>pr_main := x\<rparr>\<rparr>) = (completed P a)\<lparr>pr_main := x\<rparr>"
  "completed P (a\<lparr>ap_proc := (ap_proc a)\<lparr>pr_main := x, pr_task := t\<rparr>\<rparr>) = (completed P a)\<lparr>pr_main := x, pr_task := t\<rparr>"
  by (cases "ap_proc a"; simp add: completed_def)+

lemma main_step_completed:
  assumes "process_step A P it encode display (ap_proc a) l p" "l \<in> {Interrupt, Drained, ServeError, Join}"
  shows "process_step A P it encode display (completed P a) l (completed P (a\<lparr>ap_proc := p\<rparr>))"
  using assms(1)
proof cases
  case interrupt
  then show ?thesis
    using process_step.interrupt [of "completed P a"] by (simp add: completed_main)
next
  case drained
  then show ?thesis
    using process_step.drained [of "completed P a"] by (simp add: completed_main)
next
  case serve_error
  then show ?thesis
    using process_step.serve_error [of "completed P a"] by (simp add: completed_main)
next
  case join
  then show ?thesis
    using process_step.join [of "completed P a"] by (simp add: completed_main)
qed (use assms(2) in auto)

lemma astep_simulated:
  assumes ok: "inbox_ok (ap_proc a)" and step: "astep A P it encode display a l a'"
  shows "inbox_ok (ap_proc a') \<and> ipc_path A P it (loop_of v (completed P a)) (aloop_labels l) (loop_of v (completed P a'))"
proof -
  have ok': "inbox_ok (completed P a)" using ok by simp
  show ?thesis
    using step
  proof cases
    case (a_main k p)
    show ?thesis
    proof (cases "k \<in> {Interrupt, Drained, ServeError, Join}")
      case True
      from process_step_simulated [OF ok' main_step_completed [OF a_main(3) this], of v] show ?thesis
        by (simp add: a_main(1,2))
    next
      case False
      then obtain resp where k: "k = Request ''/metrics'' resp" using a_main(4) by auto
      have p: "pr_task p = pr_task (ap_proc a)" "pr_inbox p = pr_inbox (ap_proc a)"
        "pr_metrics p = record_http P ''/metrics'' (status_of resp) (pr_metrics (ap_proc a))"
        using a_main(3) serve_http_only unfolding k by (auto elim!: process_step_Request)
      have "loop_of v (completed P a') = loop_of v (completed P a)"
        by (rule loop_of_eqI) (simp_all add: a_main(2) p apply_ops_record_http)
      then show ?thesis using ok p by (simp add: a_main(1,2) k path_Nil inbox_ok_def)
    qed
  next
    case (a_begin k p c)
    have "completed P a = ap_proc a" by (simp add: completed_def a_begin(4))
    moreover have "completed P a' = p"
      using loop_step_settles(1) [OF a_begin(3,6,5)] by (simp add: completed_def a_begin(2))
    ultimately show ?thesis
      using process_step_simulated [OF ok a_begin(3), of v] by (simp add: a_begin(1,2) inbox_ok_def)
  next
    case (a_reply i seen)
    have "loop_of v (completed P a') = loop_of v (completed P a)"
      by (rule loop_of_eqI) (simp_all add: a_reply(2) apply_ops_record_http)
    then show ?thesis using ok by (simp add: a_reply(1,2) path_Nil inbox_ok_def)
  qed (use ok in \<open>auto simp: completed_def inbox_ok_def intro: path_Nil\<close>)
qed

interpretation atoms: stutter_simulation "astep A P it encode display" "ipc_path A P it" "\<lambda>a. loop_of v (completed P a)"
    aloop_labels "\<lambda>a. inbox_ok (ap_proc a)"
  for A P it encode display v
proof
  show "ipc_path A P it a [] a" for a by (rule path_Nil)
  show "ipc_path A P it a (ks @ ks') c" if "ipc_path A P it a ks b" "ipc_path A P it b ks' c" for a ks b ks' c
    using that by (rule path_append)
  show "inbox_ok (ap_proc a')" "ipc_path A P it (loop_of v (completed P a)) (aloop_labels l) (loop_of v (completed P a'))"
    if "inbox_ok (ap_proc a)" "astep A P it encode display a l a'" for a l a'
    using astep_simulated [OF that, of v] by simp_all
qed

text \<open>The messages gone out, and those still among the actions, are those of the loop's steps.\<close>

lemma astep_wires:
  assumes "astep A P it encode display a l a'"
  shows "wires (ap_todo a) @ wire_of (aloop_labels l) = wire_step l @ wires (ap_todo a')"
  using assms
proof cases
  case (a_main k p)
  then show ?thesis by (auto simp: wire_of_def)
next
  case (a_begin k p c)
  then show ?thesis
    using loop_step_settles(2) [OF a_begin(3,6,5)] by simp
qed (auto simp: wire_of_def)

lemma run_wired:
  assumes "runs (astep A P it encode display) a als a'" "ap_todo a = []"
  shows "wire_of (aloop_view als) = wired als @ wires (ap_todo a')"
  using assms
proof (induction rule: runs.induct)
  case (runs_snoc a ls a' l a'')
  have "wire_of (aloop_view (ls @ [l])) = wire_of (aloop_view ls) @ wire_of (aloop_labels l)"
    by (simp add: aloop_view_def wire_of_def)
  also have "\<dots> = wired ls @ wires (ap_todo a') @ wire_of (aloop_labels l)"
    using runs_snoc by simp
  also have "\<dots> = wired (ls @ [l]) @ wires (ap_todo a'')"
    using astep_wires [OF runs_snoc.hyps(2)] by (simp add: wired_def)
  finally show ?case .
qed (simp add: aloop_view_def wire_of_def wired_def)

text \<open>A run of the process with a loop, at this grain, is a run of the loop on its own.\<close>

lemma atomic_run_projected:
  fixes A :: "'tx alloy" and s :: "('r, 'c, 'g, 'v) started"
  assumes run: "runs (astep A P it encode display) (alaunch s) als a" and loop: "st_loop s = Some (path, mode)"
  shows "ipc_path A P it (initial mode (st_metrics s)) (aloop_view als)
      (loop_of (http_requests_total (st_metrics s)) (completed P a))"
    "inbox_ok (ap_proc a)" "wire_of (aloop_view als) = wired als @ wires (ap_todo a)"
proof -
  let ?l = "alaunch s :: ('tx, 'r, 'c, 'g, 'v) aprocess"
  have ok: "inbox_ok (ap_proc ?l)" by (simp add: inbox_ok_def alaunch_def launch_def loop)
  have "loop_of (http_requests_total (st_metrics s)) (completed P ?l) = initial mode (st_metrics s)"
    by (simp add: completed_def alaunch_def loop_of_def launch_def loop quiet_def put_metrics_def with_http_def initial_def
        new_loop_state_def)
  with atoms.run_simulated [OF run ok, of "http_requests_total (st_metrics s)"]
  show "ipc_path A P it (initial mode (st_metrics s)) (aloop_view als)
      (loop_of (http_requests_total (st_metrics s)) (completed P a))"
    by (simp add: aloop_view_def)
  show "inbox_ok (ap_proc a)" by (rule atoms.good_run [OF run ok])
  show "wire_of (aloop_view als) = wired als @ wires (ap_todo a)"
    by (rule run_wired [OF run]) (simp add: alaunch_def)
qed

end
