(* ===== verification/Atomic_Health.thy ===== *)
theory Atomic_Health
  imports Atomic_Process
begin

section \<open>What a request for the health snapshot reads\<close>

text \<open>
  The metrics at a moment of a run are the writes made so far, applied to the metrics at the start.
  So an answer of \<^verbatim>\<open>/health\<close> is fifteen readings of growing prefixes of one log of writes: every field
  counts, adds up or keeps the last of certain writes. The number of messages it shows lags behind
  those written by at most one.
\<close>

subsection \<open>The log of writes\<close>

fun op_step :: "'tx alabel \<Rightarrow> metric_op list" where
  "op_step (DoWrite op) = [op]"
| "op_step _ = []"

definition ops_of :: "'tx alabel list \<Rightarrow> metric_op list" where
  "ops_of als = concat (map op_step als)"

lemma ops_of_simps [simp]:
  "ops_of [] = []" "ops_of (l # als) = op_step l @ ops_of als" "ops_of (als @ als') = ops_of als @ ops_of als'"
  by (simp_all add: ops_of_def)

lemma wired_simps [simp]:
  "wired [] = []" "wired (l # als) = wire_step l @ wired als" "wired (als @ als') = wired als @ wired als'"
  by (simp_all add: wired_def)

text \<open>The metrics but for the counter of requests.\<close>

definition other_metrics :: "('r, 'c, 'g, 'v) metrics \<Rightarrow> 'v \<Rightarrow> ('r, 'c, 'g, 'v) metrics" where
  "other_metrics m v = m\<lparr>http_requests_total := v\<rparr>"

lemma other_metrics_apply: "other_metrics (apply_ops P ops m) v = apply_ops P ops (other_metrics m v)"
  by (simp add: other_metrics_def apply_ops_http)

lemma other_metrics_record: "other_metrics (record_http P path st m) v = other_metrics m v"
  by (simp add: other_metrics_def record_http_overwritten)

lemma read_snapshot_other: "read_snapshot P (\<lambda>k. other_metrics (seen k) v) = read_snapshot P seen"
  by (simp add: read_snapshot_def other_metrics_def)

lemma main_step_metrics:
  assumes "process_step A P it encode display p l p'"
    and "l \<in> {Interrupt, Drained, ServeError, Join} \<or> (\<exists>path resp. l = Request path resp)"
  shows "other_metrics (pr_metrics p') v = other_metrics (pr_metrics p) v"
  using assms
proof cases
  case (request path resp m)
  then show ?thesis using serve_http_only [OF request(4)] by (simp add: other_metrics_record)
qed auto

lemma astep_log:
  assumes "astep A P it encode display a l a'"
  shows "other_metrics (pr_metrics (ap_proc a')) v = apply_ops P (op_step l) (other_metrics (pr_metrics (ap_proc a)) v)"
  using assms
proof cases
  case (a_main k p)
  then show ?thesis using main_step_metrics [OF a_main(3), of v] by auto
next
  case (a_write op acts)
  then show ?thesis using other_metrics_apply [of P "[op]"] by simp
qed (simp_all add: other_metrics_record)

lemma run_log:
  assumes "runs (astep A P it encode display) a als a'"
  shows "other_metrics (pr_metrics (ap_proc a')) v = apply_ops P (ops_of als) (other_metrics (pr_metrics (ap_proc a)) v)"
  using assms by (induction rule: runs.induct) (simp_all add: astep_log)

subsection \<open>The readings of a request\<close>

lemma step_open:
  assumes "astep A P it encode display a l a'" "fmlookup (ap_open a) i = Some seen" "\<forall>snap. l \<noteq> Reply i snap"
  shows "fmlookup (ap_open a') i = Some (if l = Load i then seen @ [pr_metrics (ap_proc a)] else seen)"
  using assms by cases auto

text \<open>The positions of the loads of a request.\<close>

definition loads_at :: "nat \<Rightarrow> 'tx alabel list \<Rightarrow> nat list" where
  "loads_at i als = filter (\<lambda>n. als ! n = Load i) [0..<length als]"

lemma loads_at_snoc: "loads_at i (als @ [l]) = loads_at i als @ (if l = Load i then [length als] else [])"
  by (auto simp: loads_at_def nth_append intro: filter_cong)

lemma loads_at_bounds: "n \<in> set (loads_at i als) \<Longrightarrow> n < length als \<and> als ! n = Load i"
  by (simp add: loads_at_def)

lemma sorted_loads_at: "sorted_wrt (<) (loads_at i als)"
  by (simp add: loads_at_def sorted_wrt_filter)

lemma run_loads:
  assumes "runs (astep A P it encode display) a als a'" "fmlookup (ap_open a) i = Some []"
    and "\<forall>snap. Reply i snap \<notin> set als"
  shows "\<exists>seen. fmlookup (ap_open a') i = Some seen
    \<and> map (\<lambda>m. other_metrics m v) seen = map (\<lambda>n. apply_ops P (ops_of (take n als)) (other_metrics (pr_metrics (ap_proc a)) v)) (loads_at i als)"
  using assms
proof (induction rule: runs.induct)
  case (runs_snoc a als a' l a'')
  obtain seen where seen: "fmlookup (ap_open a') i = Some seen"
    and eq: "map (\<lambda>m. other_metrics m v) seen = map (\<lambda>n. apply_ops P (ops_of (take n als)) (other_metrics (pr_metrics (ap_proc a)) v)) (loads_at i als)"
    using runs_snoc by auto
  have z: "n - length als = 0" if "n \<in> set (loads_at i als)" for n
    using loads_at_bounds [OF that] by simp
  have "\<forall>snap. l \<noteq> Reply i snap" using runs_snoc.prems(2) by auto
  note step_open [OF runs_snoc.hyps(2) seen this]
  then show ?case
    using eq run_log [OF runs_snoc.hyps(1), of v] by (auto simp: loads_at_snoc z)
qed (simp add: loads_at_def)

lemma request_reads:
  assumes run: "runs (astep A P it encode display) a (before @ OpenHealth i # during @ [Reply i snap]) a'"
    and once: "\<forall>snap. Reply i snap \<notin> set during"
  shows "length (loads_at i during) = snapshot_loads"
    "snap = read_snapshot P (\<lambda>k. apply_ops P (ops_of (before @ take (loads_at i during ! k) during)) (pr_metrics (ap_proc a)))"
proof -
  let ?v = "http_requests_total (pr_metrics (ap_proc a))"
  let ?m = "pr_metrics (ap_proc a)"
  have m: "other_metrics ?m ?v = ?m" by (simp add: other_metrics_def)
  obtain b c d where b: "runs (astep A P it encode display) a before b" and c: "astep A P it encode display b (OpenHealth i) c"
    and d: "runs (astep A P it encode display) c during d" and r: "astep A P it encode display d (Reply i snap) a'"
    using run by (blast dest: runs_split runs_Cons_split runs_one_step)
  have bm: "other_metrics (pr_metrics (ap_proc c)) ?v = apply_ops P (ops_of before) ?m"
    using run_log [OF b, of ?v] c by (auto simp: m elim!: astep_OpenHealth)
  have "fmlookup (ap_open c) i = Some []" using c by (auto elim!: astep_OpenHealth)
  from run_loads [OF d this once, of ?v] obtain seen where seen: "fmlookup (ap_open d) i = Some seen"
    and eq: "map (\<lambda>m. other_metrics m ?v) seen = map (\<lambda>n. apply_ops P (ops_of (take n during)) (apply_ops P (ops_of before) ?m)) (loads_at i during)"
    unfolding bm by auto
  have len: "length seen = snapshot_loads" and snap: "snap = read_snapshot P (\<lambda>k. seen ! k)"
    using r seen by (auto elim!: astep_Reply)
  show l: "length (loads_at i during) = snapshot_loads"
    using arg_cong [OF eq, of length] len by simp
  have "other_metrics (seen ! k) ?v = apply_ops P (ops_of (before @ take (loads_at i during ! k) during)) ?m"
    if "k < snapshot_loads" for k
    using arg_cong [OF eq, of "\<lambda>xs. xs ! k"] that len l by simp
  then show "snap = read_snapshot P (\<lambda>k. apply_ops P (ops_of (before @ take (loads_at i during ! k) during)) ?m)"
    unfolding snap by (subst read_snapshot_other [of _ _ ?v, symmetric]) (rule read_snapshot_cong)
qed

subsection \<open>The counter of messages\<close>

text \<open>Every message is followed by its count, and nothing else is counted as a message.\<close>

fun counted :: "'tx action list \<Rightarrow> bool" where
  "counted [] \<longleftrightarrow> True"
| "counted (Wire x # acts) \<longleftrightarrow> acts \<noteq> [] \<and> hd acts = Write IncPrioritized \<and> counted (tl acts)"
| "counted (Write op # acts) \<longleftrightarrow> op \<noteq> IncPrioritized \<and> counted acts"

text \<open>The count that is due, when a message has just gone out.\<close>

definition due :: "'tx action list \<Rightarrow> nat" where
  "due acts = (if acts \<noteq> [] \<and> hd acts = Write IncPrioritized then 1 else 0)"

lemma due_simps:
  "due [] = 0" "due (Write op # acts) = (if op = IncPrioritized then 1 else 0)" "due (Wire x # acts) = 0"
  by (simp_all add: due_def)

lemma counted_Write: "IncPrioritized \<notin> set ops \<Longrightarrow> counted (map Write ops @ acts) = counted acts"
  by (induction ops) auto

lemma counted_Writes: "IncPrioritized \<notin> set ops \<Longrightarrow> counted (map Write ops)"
  using counted_Write [of ops "[]"] by simp

lemma counted_due: "counted acts \<Longrightarrow> due acts = 0"
  by (cases acts rule: counted.cases) (auto simp: due_def)

lemma counted_sends: "counted (fst (send_actions ans i rs sent))"
proof (induction rs arbitrary: i sent)
  case (Cons r rs)
  obtain ev s where ins: "sent_insert (rj_hash r) (rj_priority r) sent = (ev, s)" by fastforce
  obtain acts failed s' where rest: "send_actions ans (Suc i) rs s = (acts, failed, s')" using prod_cases3 by blast
  have "counted acts" using Cons.IH [of "Suc i" s] by (simp add: rest)
  then have "counted (map Write ([SetLastSend (unix_now (wall_send ans i)), StoreSendTs (unix_now (wall_send ans i))]
      @ positive_op AddSentEvictions ev @ [SetSentCache (of_nat (sent_len s))]) @ acts)"
    by (subst counted_Write) (simp_all add: positive_op_def)
  then show ?case
    using Cons.IH by (simp add: ins rest prioritized_ops_def)
qed simp

lemma counted_observe: "observe_actions A ans h tx pool = (rs, ops, pool') \<Longrightarrow> IncPrioritized \<notin> set ops"
  by (auto simp: observe_actions_def Let_def positive_op_def split: prod.splits if_splits)

lemma counted_event: "counted (fst (event_actions A it ea pool sent))"
proof -
  obtain ev ans where ea: "ea = (ev, ans)" by (cases ea)
  have first: "IncPrioritized \<notin> set (event_ops k w)" for k w by (simp add: event_ops_def)
  show ?thesis
  proof (cases "ev_action ev")
    case (InsertEv tx)
    obtain rs ops pool' where obs: "observe_actions A ans (ev_hash ev) tx pool = (rs, ops, pool')" using prod_cases3 by blast
    obtain acts failed sent' where sends: "send_actions ans 0 rs sent = (acts, failed, sent')" using prod_cases3 by blast
    show ?thesis
      using counted_sends [of ans 0 rs sent] counted_observe [OF obs]
      by (simp add: ea event_actions_def InsertEv obs sends counted_Write counted_Writes first Let_def)
  qed (simp_all add: ea event_actions_def Let_def counted_Write first)
qed

lemma counted_loop: "counted (loop_actions A it c l)"
proof (cases l)
  case (Task k)
  have "IncPrioritized \<notin> set (task_ops c k)"
    by (auto simp: task_ops_def state_ops_def split: phase.splits label.splits)
  then show ?thesis by (simp add: Task counted_Writes)
qed (simp_all add: counted_event)

text \<open>Between two messages the counts are even; right after a message one is due.\<close>

lemma astep_counts:
  assumes "astep A P it encode display a l a'" "counted (ap_todo a) \<or> due (ap_todo a) = 1 \<and> counted (tl (ap_todo a))"
  shows "length (wire_step l) + due (ap_todo a) = count_list (op_step l) IncPrioritized + due (ap_todo a')
    \<and> (counted (ap_todo a') \<or> due (ap_todo a') = 1 \<and> counted (tl (ap_todo a')))"
  using assms
proof cases
  case (a_begin k p c)
  then show ?thesis using counted_loop [of A it c k] by (simp add: counted_due)
next
  case (a_write op acts)
  then show ?thesis
    using assms(2) counted_due [of acts] by (cases "op = IncPrioritized") (auto simp: due_simps)
next
  case (a_wire x acts)
  then show ?thesis using assms(2) by (auto simp: due_def)
qed (use assms(2) in auto)

lemma run_counts_due:
  assumes "runs (astep A P it encode display) a als a'" "ap_todo a = []"
  shows "length (wired als) = count_list (ops_of als) IncPrioritized + due (ap_todo a')
    \<and> (counted (ap_todo a') \<or> due (ap_todo a') = 1 \<and> counted (tl (ap_todo a')))"
  using assms
proof (induction rule: runs.induct)
  case (runs_snoc a als a' l a'')
  then show ?case using astep_counts [OF runs_snoc.hyps(2)] by simp
qed (simp add: due_def)

subsection \<open>What a log of writes leaves\<close>

text \<open>A counter is counted up or added to, a gauge or a time stamp keeps what was written last.\<close>

definition added :: "(metric_op \<Rightarrow> u64) \<Rightarrow> metric_op list \<Rightarrow> u64" where
  "added f ops = sum_list (map f ops)"

definition last_of :: "(metric_op \<Rightarrow> 'a option) \<Rightarrow> 'a \<Rightarrow> metric_op list \<Rightarrow> 'a" where
  "last_of f x ops = last (x # List.map_filter f ops)"

lemma added_count: "added (\<lambda>op. if op = x then 1 else 0) ops = of_nat (count_list ops x)"
  by (induction ops) (simp_all add: added_def)

lemma last_of_simps:
  "last_of f x [] = x" "last_of f x (op # ops) = last_of f (case f op of None \<Rightarrow> x | Some y \<Rightarrow> y) ops"
  by (simp_all add: last_of_def map_filter_simps split: option.splits)

lemma counter_added:
  assumes "\<And>op m. counter_get P (fld (apply_op P op m)) = counter_get P (fld m) + f op"
  shows "counter_get P (fld (apply_ops P ops m)) = counter_get P (fld m) + added f ops"
  by (induction ops arbitrary: m) (simp_all add: assms added_def)

lemma counter_counts:
  assumes "\<And>op m. counter_get P (fld (apply_op P op m)) = counter_get P (fld m) + (if op = x then 1 else 0)"
  shows "counter_get P (fld (apply_ops P ops m)) = counter_get P (fld m) + of_nat (count_list ops x)"
  using counter_added [OF assms] by (simp add: added_count)

lemma written_last:
  assumes "\<And>op m. rd (apply_op P op m) = (case f op of None \<Rightarrow> rd m | Some y \<Rightarrow> y)"
  shows "rd (apply_ops P ops m) = last_of f (rd m) ops"
  by (induction ops arbitrary: m) (simp_all add: assms last_of_simps)

lemma apply_ops_counters:
  assumes "prom_laws P"
  shows "counter_get P (txpool_inserts_total (apply_ops P ops m))
      = counter_get P (txpool_inserts_total m) + of_nat (count_list ops IncInserts)"
    "counter_get P (txpool_prioritized_total (apply_ops P ops m))
      = counter_get P (txpool_prioritized_total m) + of_nat (count_list ops IncPrioritized)"
    "counter_get P (txpool_skipped_non_gateway_total (apply_ops P ops m))
      = counter_get P (txpool_skipped_non_gateway_total m) + of_nat (count_list ops IncSkipped)"
    "counter_get P (txpool_skipped_invalid_gateway_total (apply_ops P ops m))
      = counter_get P (txpool_skipped_invalid_gateway_total m) + of_nat (count_list ops IncInvalid)"
    "counter_get P (txpool_send_failures_total (apply_ops P ops m))
      = counter_get P (txpool_send_failures_total m) + of_nat (count_list ops IncFailures)"
    "counter_get P (txpool_ipc_reconnects_total (apply_ops P ops m))
      = counter_get P (txpool_ipc_reconnects_total m) + of_nat (count_list ops IncReconnects)"
  by (rule counter_counts, rule metric_op.induct, simp_all add: prom_lawsD(1) [OF assms])+

lemma apply_ops_added:
  assumes "prom_laws P"
  shows "counter_get P (txpool_sent_cache_evictions_total (apply_ops P ops m)) = counter_get P (txpool_sent_cache_evictions_total m)
      + added (\<lambda>op. case op of AddSentEvictions n \<Rightarrow> n | _ \<Rightarrow> 0) ops"
    "counter_get P (backrun_pairs_matched_total (apply_ops P ops m)) = counter_get P (backrun_pairs_matched_total m)
      + added (\<lambda>op. case op of AddPairs n \<Rightarrow> n | _ \<Rightarrow> 0) ops"
    "counter_get P (backrun_bids_expired_total (apply_ops P ops m)) = counter_get P (backrun_bids_expired_total m)
      + added (\<lambda>op. case op of AddExpired n \<Rightarrow> n | _ \<Rightarrow> 0) ops"
    "counter_get P (backrun_bids_evicted_total (apply_ops P ops m)) = counter_get P (backrun_bids_evicted_total m)
      + added (\<lambda>op. case op of AddEvicted n \<Rightarrow> n | _ \<Rightarrow> 0) ops"
  by (rule counter_added, rule metric_op.induct, simp_all add: prom_lawsD(1) [OF assms])+

lemma apply_ops_last:
  assumes "prom_laws P"
  shows "gauge_get P (txpool_sent_cache (apply_ops P ops m))
      = last_of (\<lambda>op. case op of SetSentCache n \<Rightarrow> Some n | _ \<Rightarrow> None) (gauge_get P (txpool_sent_cache m)) ops"
    "gauge_get P (backrun_pending (apply_ops P ops m))
      = last_of (\<lambda>op. case op of SetPending n \<Rightarrow> Some n | _ \<Rightarrow> None) (gauge_get P (backrun_pending m)) ops"
    "last_event_ts (apply_ops P ops m) = last_of (\<lambda>op. case op of StoreEventTs t \<Rightarrow> Some t | _ \<Rightarrow> None) (last_event_ts m) ops"
    "last_send_ts (apply_ops P ops m) = last_of (\<lambda>op. case op of StoreSendTs t \<Rightarrow> Some t | _ \<Rightarrow> None) (last_send_ts m) ops"
    "ipc_state_ts (apply_ops P ops m) = last_of (\<lambda>op. case op of StoreState g \<Rightarrow> Some g | _ \<Rightarrow> None) (ipc_state_ts m) ops"
proof -
  note [simp] = prom_lawsD(2) [OF assms]
  show "gauge_get P (txpool_sent_cache (apply_ops P ops m))
      = last_of (\<lambda>op. case op of SetSentCache n \<Rightarrow> Some n | _ \<Rightarrow> None) (gauge_get P (txpool_sent_cache m)) ops"
    by (rule written_last [where rd = "\<lambda>m. gauge_get P (txpool_sent_cache m)"], rule metric_op.induct, simp_all)
  show "gauge_get P (backrun_pending (apply_ops P ops m))
      = last_of (\<lambda>op. case op of SetPending n \<Rightarrow> Some n | _ \<Rightarrow> None) (gauge_get P (backrun_pending m)) ops"
    by (rule written_last [where rd = "\<lambda>m. gauge_get P (backrun_pending m)"], rule metric_op.induct, simp_all)
qed (rule written_last, rule metric_op.induct, simp_all)+

text \<open>The fields of an answer, when the \<open>k\<close>-th load comes after the writes \<open>log k\<close> to new metrics.\<close>

lemma read_fields:
  assumes P: "prom_laws P" and m: "fresh_metrics P m" and snap: "snap = read_snapshot P (\<lambda>k. apply_ops P (log k) m)"
  shows "hs_status snap = ''ok''"
    "hs_service snap = ''magma-sidecar''"
    "hs_ipc_state snap = ipc_as_str (ipc_state_from_gauge (last_of (\<lambda>op. case op of StoreState g \<Rightarrow> Some g | _ \<Rightarrow> None) (- 1) (log 0)))"
    "tx_inserts_observed snap = of_nat (count_list (log 1) IncInserts)"
    "tx_prioritized snap = of_nat (count_list (log 2) IncPrioritized)"
    "tx_skipped_non_gateway snap = of_nat (count_list (log 3) IncSkipped)"
    "tx_skipped_invalid_gateway snap = of_nat (count_list (log 4) IncInvalid)"
    "ipc_send_failures snap = of_nat (count_list (log 5) IncFailures)"
    "ipc_reconnects snap = of_nat (count_list (log 6) IncReconnects)"
    "sent_cache_entries snap = last_of (\<lambda>op. case op of SetSentCache n \<Rightarrow> Some n | _ \<Rightarrow> None) 0 (log 7)"
    "sent_cache_evictions snap = added (\<lambda>op. case op of AddSentEvictions n \<Rightarrow> n | _ \<Rightarrow> 0) (log 8)"
    "hs_backrun_pairs_matched snap = added (\<lambda>op. case op of AddPairs n \<Rightarrow> n | _ \<Rightarrow> 0) (log 9)"
    "backrun_bids_pending snap = last_of (\<lambda>op. case op of SetPending n \<Rightarrow> Some n | _ \<Rightarrow> None) 0 (log 10)"
    "backrun_bids_expired snap = added (\<lambda>op. case op of AddExpired n \<Rightarrow> n | _ \<Rightarrow> 0) (log 11)"
    "backrun_bids_evicted snap = added (\<lambda>op. case op of AddEvicted n \<Rightarrow> n | _ \<Rightarrow> 0) (log 12)"
    "hs_last_event_unix_seconds snap = nonzero (last_of (\<lambda>op. case op of StoreEventTs t \<Rightarrow> Some t | _ \<Rightarrow> None) 0 (log 13))"
    "hs_last_send_unix_seconds snap = nonzero (last_of (\<lambda>op. case op of StoreSendTs t \<Rightarrow> Some t | _ \<Rightarrow> None) 0 (log 14))"
proof -
  have "snapshot P m = blank_snapshot Disabled" "ipc_state_ts m = - 1"
    using m unfolding fresh_metrics_def by blast+
  note zero = this(2) this(1) [unfolded snapshot_def blank_snapshot_def health_snapshot.simps]
  have ts: "last_event_ts m = 0" "last_send_ts m = 0"
    using zero(2) by (simp_all add: nonzero_def split: if_splits)
  show "hs_status snap = ''ok''"
    "hs_service snap = ''magma-sidecar''"
    "hs_ipc_state snap = ipc_as_str (ipc_state_from_gauge (last_of (\<lambda>op. case op of StoreState g \<Rightarrow> Some g | _ \<Rightarrow> None) (- 1) (log 0)))"
    "tx_inserts_observed snap = of_nat (count_list (log 1) IncInserts)"
    "tx_prioritized snap = of_nat (count_list (log 2) IncPrioritized)"
    "tx_skipped_non_gateway snap = of_nat (count_list (log 3) IncSkipped)"
    "tx_skipped_invalid_gateway snap = of_nat (count_list (log 4) IncInvalid)"
    "ipc_send_failures snap = of_nat (count_list (log 5) IncFailures)"
    "ipc_reconnects snap = of_nat (count_list (log 6) IncReconnects)"
    "sent_cache_entries snap = last_of (\<lambda>op. case op of SetSentCache n \<Rightarrow> Some n | _ \<Rightarrow> None) 0 (log 7)"
    "sent_cache_evictions snap = added (\<lambda>op. case op of AddSentEvictions n \<Rightarrow> n | _ \<Rightarrow> 0) (log 8)"
    "hs_backrun_pairs_matched snap = added (\<lambda>op. case op of AddPairs n \<Rightarrow> n | _ \<Rightarrow> 0) (log 9)"
    "backrun_bids_pending snap = last_of (\<lambda>op. case op of SetPending n \<Rightarrow> Some n | _ \<Rightarrow> None) 0 (log 10)"
    "backrun_bids_expired snap = added (\<lambda>op. case op of AddExpired n \<Rightarrow> n | _ \<Rightarrow> 0) (log 11)"
    "backrun_bids_evicted snap = added (\<lambda>op. case op of AddEvicted n \<Rightarrow> n | _ \<Rightarrow> 0) (log 12)"
    "hs_last_event_unix_seconds snap = nonzero (last_of (\<lambda>op. case op of StoreEventTs t \<Rightarrow> Some t | _ \<Rightarrow> None) 0 (log 13))"
    "hs_last_send_unix_seconds snap = nonzero (last_of (\<lambda>op. case op of StoreSendTs t \<Rightarrow> Some t | _ \<Rightarrow> None) 0 (log 14))"
    using zero unfolding snap by (simp_all add: read_snapshot_def apply_ops_counters [OF P] apply_ops_added [OF P] apply_ops_last [OF P] ts)
qed

end
