(* ===== verification/Atomic_Runs.thy ===== *)
theory Atomic_Runs
  imports Atomic_Health
begin

section \<open>Undisturbed steps at the grain of atomic actions\<close>

text \<open>
  The other direction of \<open>Atomic_Process\<close>: a step of \<open>Sidecar_Process\<close> is a sequence of atomic
  steps with nothing in between, so the finer process has every run of the coarser one. And an open
  request can always be answered, by its own steps alone.
\<close>

fun happens :: "'tx action \<Rightarrow> 'tx alabel" where
  "happens (Write op) = DoWrite op"
| "happens (Wire x) = DoWire x"

definition still :: "('tx, 'r, 'c, 'g, 'v) process \<Rightarrow> ('tx, 'r, 'c, 'g, 'v) aprocess" where
  "still p = \<lparr>ap_proc = p, ap_todo = [], ap_open = fmempty\<rparr>"

lemma launch_still: "alaunch s = still (launch s)"
  by (simp add: alaunch_def still_def)

lemma happens_views [simp]:
  "aloop_view (map happens acts) = []" "wired (map happens acts) = wires acts"
proof -
  have "aloop_labels (happens act) = []" "wire_step (happens act) = wires [act]" for act :: "'a action"
    by (cases act; simp)+
  then show "aloop_view (map happens acts) = []" "wired (map happens acts) = wires acts"
    by (induction acts rule: writes.induct) (simp_all add: aloop_view_def)
qed

lemma aloop_view_simps [simp]:
  "aloop_view [] = []" "aloop_view (l # als) = aloop_labels l @ aloop_view als"
  "aloop_view (als @ als') = aloop_view als @ aloop_view als'"
  by (simp_all add: aloop_view_def)

lemma loads_views [simp]:
  "aloop_view (replicate n (Load i)) = []" "wired (replicate n (Load i)) = []" "ops_of (replicate n (Load i)) = []"
  by (induction n) simp_all

text \<open>The actions that are open can happen one after the other.\<close>

lemma actions_happen:
  assumes "running a" "ap_todo a = acts"
  shows "runs (astep A P it encode display) a (map happens acts)
    (a\<lparr>ap_proc := (ap_proc a)\<lparr>pr_metrics := apply_ops P (writes acts) (pr_metrics (ap_proc a))\<rparr>, ap_todo := []\<rparr>)"
  using assms
proof (induction acts arbitrary: a)
  case Nil
  then have "a\<lparr>ap_proc := ap_proc a\<lparr>pr_metrics := pr_metrics (ap_proc a)\<rparr>, ap_todo := []\<rparr> = a" by (cases a) simp
  then show ?case by (simp add: runs_Nil)
next
  case (Cons act acts)
  show ?case
  proof (cases act)
    case (Write op)
    let ?a = "a\<lparr>ap_proc := (ap_proc a)\<lparr>pr_metrics := apply_op P op (pr_metrics (ap_proc a))\<rparr>, ap_todo := acts\<rparr>"
    have "astep A P it encode display a (DoWrite op) ?a"
      by (rule a_write) (simp_all add: Cons.prems Write)
    from runs_Cons [of "astep A P it encode display", OF this Cons.IH [of ?a]] Cons.prems show ?thesis
      by (simp add: Write running_def)
  next
    case (Wire x)
    let ?a = "a\<lparr>ap_todo := acts\<rparr>"
    have "astep A P it encode display a (DoWire x) ?a"
      by (rule a_wire) (simp_all add: Cons.prems Wire)
    from runs_Cons [of "astep A P it encode display", OF this Cons.IH [of ?a]] Cons.prems show ?thesis
      by (simp add: Wire running_def)
  qed
qed

text \<open>A step of the loop and its actions.\<close>

lemma loop_step_happens:
  assumes step: "process_step A P it encode display (ap_proc a) l p" and todo: "ap_todo a = []"
    and l: "(\<exists>k. l = Task k) \<or> (\<exists>b. l = Arrive b) \<or> (\<exists>ea out. l = Event ea out)"
    and c: "pr_task (ap_proc a) = Some c"
  shows "runs (astep A P it encode display) a (Begin l # map happens (loop_actions A it c l)) (a\<lparr>ap_proc := p\<rparr>)"
proof -
  let ?a = "a\<lparr>ap_proc := p\<lparr>pr_metrics := pr_metrics (ap_proc a)\<rparr>, ap_todo := loop_actions A it c l\<rparr>"
  have live: "running ?a" using step l by cases (auto simp: running_def)
  have "a\<lparr>ap_proc := p, ap_todo := []\<rparr> = a\<lparr>ap_proc := p\<rparr>" using todo by (cases a) simp
  then show ?thesis
    using runs_Cons [of "astep A P it encode display", OF a_begin [OF step todo l c] actions_happen [OF live refl]]
    by (simp add: loop_step_settles(1) [OF step c l])
qed

subsection \<open>Requests\<close>

lemma loads_happen:
  assumes "running a" "fmlookup (ap_open a) i = Some seen" "length seen + n \<le> snapshot_loads"
  shows "runs (astep A P it encode display) a (replicate n (Load i))
    (a\<lparr>ap_open := fmupd i (seen @ replicate n (pr_metrics (ap_proc a))) (ap_open a)\<rparr>)"
  using assms
proof (induction n arbitrary: a seen)
  case 0
  have "fmupd i seen (ap_open a) = ap_open a"
    by (rule fmap_ext) (auto simp: "0.prems"(2))
  then have "a\<lparr>ap_open := fmupd i seen (ap_open a)\<rparr> = a" by (cases a) simp
  then show ?case by (simp add: runs_Nil)
next
  case (Suc n)
  let ?a = "a\<lparr>ap_open := fmupd i (seen @ [pr_metrics (ap_proc a)]) (ap_open a)\<rparr>"
  have step: "astep A P it encode display a (Load i) ?a"
    using Suc.prems by (intro a_load) simp_all
  have "runs (astep A P it encode display) ?a (replicate n (Load i))
      (?a\<lparr>ap_open := fmupd i ((seen @ [pr_metrics (ap_proc a)]) @ replicate n (pr_metrics (ap_proc ?a))) (ap_open ?a)\<rparr>)"
    using Suc.prems by (intro Suc.IH) (simp_all add: running_def)
  from runs_Cons [of "astep A P it encode display", OF step this] show ?case
    by (simp add: fmupd_idem)
qed

lemma request_answered:
  assumes "running a" "fmlookup (ap_open a) i = Some seen" "length seen \<le> snapshot_loads"
  shows "\<exists>snap a'. runs (astep A P it encode display) a (replicate (snapshot_loads - length seen) (Load i) @ [Reply i snap]) a'
    \<and> ap_proc a' = (ap_proc a)\<lparr>pr_metrics := record_http P ''/health'' 200 (pr_metrics (ap_proc a))\<rparr>
    \<and> ap_todo a' = ap_todo a \<and> ap_open a' = fmdrop i (ap_open a)
    \<and> snap = read_snapshot P (\<lambda>k. (seen @ replicate (snapshot_loads - length seen) (pr_metrics (ap_proc a))) ! k)"
proof -
  let ?seen = "seen @ replicate (snapshot_loads - length seen) (pr_metrics (ap_proc a))"
  let ?a = "a\<lparr>ap_open := fmupd i ?seen (ap_open a)\<rparr>"
  have loads: "runs (astep A P it encode display) a (replicate (snapshot_loads - length seen) (Load i)) ?a"
    using assms by (intro loads_happen) simp_all
  have reply: "astep A P it encode display ?a (Reply i (read_snapshot P (\<lambda>k. ?seen ! k)))
      (?a\<lparr>ap_proc := (ap_proc ?a)\<lparr>pr_metrics := record_http P ''/health'' 200 (pr_metrics (ap_proc ?a))\<rparr>,
         ap_open := fmdrop i (ap_open ?a)\<rparr>)"
    using assms by (intro a_reply) (simp_all add: running_def)
  have "fmdrop i (fmupd i ?seen (ap_open a)) = fmdrop i (ap_open a)"
    by (rule fmap_ext) simp
  then show ?thesis
    by - (rule exI, rule exI, rule conjI, rule runs_snoc [of "astep A P it encode display", OF loads reply], simp)
qed

lemma health_happens:
  assumes "pr_main p \<in> {Serving, Draining}"
  shows "runs (astep A P it encode display) (still p)
      (OpenHealth 0 # replicate snapshot_loads (Load 0) @ [Reply 0 (snapshot P (pr_metrics p))])
      (still (p\<lparr>pr_metrics := record_http P ''/health'' 200 (pr_metrics p)\<rparr>))"
proof -
  let ?a = "(still p)\<lparr>ap_open := fmupd 0 [] fmempty\<rparr>"
  have "astep A P it encode display (still p) (OpenHealth 0) ((still p)\<lparr>ap_open := fmupd 0 [] (ap_open (still p))\<rparr>)"
    by (rule a_open) (use assms in \<open>simp_all add: still_def\<close>)
  then have open1: "astep A P it encode display (still p) (OpenHealth 0) ?a" by (simp add: still_def)
  have live: "running ?a" using assms by (auto simp: running_def still_def)
  obtain snap a' where r: "runs (astep A P it encode display) ?a (replicate snapshot_loads (Load 0) @ [Reply 0 snap]) a'"
      "ap_proc a' = p\<lparr>pr_metrics := record_http P ''/health'' 200 (pr_metrics p)\<rparr>" "ap_todo a' = []"
      "ap_open a' = fmdrop 0 (fmupd 0 [] fmempty)"
    and snap: "snap = read_snapshot P (\<lambda>k. replicate snapshot_loads (pr_metrics p) ! k)"
    using request_answered [OF live, of 0 "[]" A P it encode display] by (auto simp: still_def)
  have "fmdrop 0 (fmupd 0 [] fmempty) = (fmempty :: (nat, _) fmap)" by (rule fmap_ext) simp
  with r have "a' = still (p\<lparr>pr_metrics := record_http P ''/health'' 200 (pr_metrics p)\<rparr>)"
    by (cases a') (simp add: still_def)
  moreover have "snap = snapshot P (pr_metrics p)"
    unfolding snap read_snapshot_still [symmetric] by (rule read_snapshot_cong) simp
  ultimately show ?thesis
    using runs_Cons [of "astep A P it encode display", OF open1 r(1)] by simp
qed

subsection \<open>The coarser process inside this one\<close>

text \<open>A sequence of atomic steps that shows the given part of the loop.\<close>

definition atomic_path :: "'tx alloy \<Rightarrow> ('r, 'c, 'g, 'v) prom \<Rightarrow> ('tx bid_map \<Rightarrow> txhash list) \<Rightarrow>
    (('r, 'c, 'g, 'v) metrics \<Rightarrow> 'e + u8 list) \<Rightarrow> ('e render_error \<Rightarrow> u8 list) \<Rightarrow>
    ('tx, 'r, 'c, 'g, 'v) aprocess \<Rightarrow> 'tx label list \<Rightarrow> ('tx, 'r, 'c, 'g, 'v) aprocess \<Rightarrow> bool" where
  "atomic_path A P it encode display a ls b \<longleftrightarrow>
     (\<exists>als. runs (astep A P it encode display) a als b \<and> aloop_view als = ls \<and> wired als = wire_of ls)"

lemma main_happens:
  assumes "process_step A P it encode display p l p'"
    and "l \<in> {Interrupt, Drained, ServeError, Join} \<or> (\<exists>resp. l = Request ''/metrics'' resp)"
  shows "atomic_path A P it encode display (still p) (loop_labels l) (still p')"
proof -
  have "astep A P it encode display (still p) (Main l) ((still p)\<lparr>ap_proc := p'\<rparr>)"
    using assms by (intro a_main) (auto simp: still_def)
  then have "runs (astep A P it encode display) (still p) [Main l] (still p')"
    by (intro runs_one) (simp add: still_def)
  moreover have "wire_of (loop_labels l) = []" using assms(2) by (auto simp: wire_of_def)
  ultimately show ?thesis unfolding atomic_path_def by (intro exI [of _ "[Main l]"]) simp
qed

lemma step_happens:
  assumes "process_step A P it encode display p l p'"
  shows "atomic_path A P it encode display (still p) (loop_labels l) (still p')"
proof (cases "(\<exists>k. l = Task k) \<or> (\<exists>b. l = Arrive b) \<or> (\<exists>ea out. l = Event ea out)")
  case True
  with assms have "\<exists>c. pr_task p = Some c" by cases auto
  then obtain c where c: "pr_task p = Some c" by blast
  have "runs (astep A P it encode display) (still p) (Begin l # map happens (loop_actions A it c l)) (still p')"
    using loop_step_happens [of A P it encode display "still p" l p' c] assms c True by (simp add: still_def)
  then show ?thesis
    unfolding atomic_path_def using loop_step_settles(2) [OF assms c True]
    by (intro exI [of _ "Begin l # map happens (loop_actions A it c l)"]) simp
next
  case False
  show ?thesis
  proof (cases "\<exists>resp. l = Request ''/health'' resp")
    case True
    then obtain resp where l: "l = Request ''/health'' resp" by blast
    have p': "p' = p\<lparr>pr_metrics := record_http P ''/health'' 200 (pr_metrics p)\<rparr>" "pr_main p \<in> {Serving, Draining}"
      using assms unfolding l by (auto simp: serve_def router_def health_def Let_def elim!: process_step_Request)
    let ?als = "OpenHealth 0 # replicate snapshot_loads (Load 0) @ [Reply 0 (snapshot P (pr_metrics p))]"
    show ?thesis
      using health_happens [OF p'(2)] unfolding atomic_path_def p'(1) l by (intro exI [of _ ?als]) (simp add: wire_of_def)
  next
    case health: False
    have "l \<in> {Interrupt, Drained, ServeError, Join} \<or> (\<exists>resp. l = Request ''/metrics'' resp)"
      using assms False health by cases (auto simp: serve_def router_def split: if_splits)
    with assms show ?thesis by (rule main_happens)
  qed
qed

interpretation undisturbed: stutter_simulation "process_step A P it encode display" "atomic_path A P it encode display" still
    loop_labels "\<lambda>p. True"
  for A P it encode display
proof
  show "atomic_path A P it encode display a [] a" for a
    unfolding atomic_path_def by (intro exI [of _ "[]"]) (simp add: runs_Nil wire_of_def)
  show "atomic_path A P it encode display a (ks @ ks') c"
    if "atomic_path A P it encode display a ks b" "atomic_path A P it encode display b ks' c" for a ks b ks' c
  proof -
    from that obtain als als' where "runs (astep A P it encode display) a als b" "aloop_view als = ks" "wired als = wire_of ks"
      "runs (astep A P it encode display) b als' c" "aloop_view als' = ks'" "wired als' = wire_of ks'"
      unfolding atomic_path_def by blast
    then show ?thesis
      unfolding atomic_path_def by (intro exI [of _ "als @ als'"]) (auto simp: wire_of_def intro: runs_append)
  qed
qed (auto intro: step_happens)

lemma coarse_run:
  assumes "runs (process_step A P it encode display) (launch s) pls p"
  shows "\<exists>als. runs (astep A P it encode display) (alaunch s) als (still p)
    \<and> aloop_view als = loop_view pls \<and> wired als = wire_of (loop_view pls)"
  using undisturbed.run_simulated [OF assms TrueI] unfolding atomic_path_def launch_still loop_view_def .

end
