(* ===== verification/Atomic_Properties.thy ===== *)
theory Atomic_Properties
  imports Atomic_Runs Sample_Run
begin

section \<open>Properties at the grain of atomic reads and writes\<close>

text \<open>
  Over every interleaving of \<open>Atomic_Process\<close>: the writes of the loop, the reads of any number of
  requests for the health snapshot, and the steps of \<open>main\<close>.
\<close>

subsection \<open>A request across two moments\<close>

text \<open>A request opens before the connection is made, loads the state of the connection, and loads the
  counters after it.\<close>

definition mixed_before :: "sample_tx alabel list" where
  "mixed_before =
     Begin (Task Internal) # map DoWrite (state_ops Connecting) @ Begin (Task Internal) # map DoWrite (state_ops Connecting)"

definition mixed_during :: "sample_tx alabel list" where
  "mixed_during =
     Load 0 # Begin (Task ConnectOk) # map DoWrite (state_ops Connected @ [IncReconnects]) @ replicate 14 (Load 0)"

lemma happens_Write [simp]: "happens \<circ> Write = DoWrite"
  by (rule ext) simp

lemma task_happens:
  assumes "ap_todo a = []" "running a" "pr_task (ap_proc a) = Some c" "pr_inbox (ap_proc a) = []"
    and "ipc_step A P it (put_metrics (pr_metrics (ap_proc a)) c) l c'" "l \<noteq> Signal" "\<forall>b out. l \<noteq> Batch b out"
  shows "runs (astep A P it encode display) a (Begin (Task l) # map DoWrite (task_ops c l))
    (a\<lparr>ap_proc := (ap_proc a)\<lparr>pr_task := Some c', pr_metrics := ls_metrics (cf_state c')\<rparr>\<rparr>)"
  using loop_step_happens [of A P it encode display a "Task l", OF process_step.task [OF _ assms(3,4,6,7,5)] assms(1) _ assms(3)]
    assms(2) by (simp add: running_def)

lemma mixed_run:
  "\<exists>snap a. runs (astep sample_alloy sample_prom ascending encode display) (alaunch sample_started)
     (mixed_before @ OpenHealth 0 # mixed_during @ [Reply 0 snap]) a"
proof -
  let ?step = "astep sample_alloy sample_prom ascending encode display"
  let ?c0 = "initial sample_mode sample_metrics :: (sample_tx, _, _, _, _) config"
  let ?s1 = "with_metrics (set_ipc_state sample_prom Connecting) (cf_state ?c0)"
  let ?s2 = "with_metrics (set_ipc_state sample_prom Connecting) ?s1"
  let ?c1 = "\<lparr>cf_phase = LoopTop, cf_shutdown = False, cf_unseen = False, cf_state = ?s1\<rparr>"
  let ?c2 = "\<lparr>cf_phase = AwaitConnect, cf_shutdown = False, cf_unseen = False, cf_state = ?s2\<rparr>"
  let ?p = "\<lambda>c. \<lparr>pr_main = Serving, pr_metrics = ls_metrics (cf_state c), pr_task = Some c, pr_inbox = []\<rparr>"
  have a0: "alaunch sample_started = \<lparr>ap_proc = ?p ?c0, ap_todo = [], ap_open = fmempty\<rparr>"
    by (simp add: alaunch_def launch_def sample_started_def initial_def new_loop_state_def)
  let ?b = "\<lambda>c op. \<lparr>ap_proc = ?p c, ap_todo = [], ap_open = op\<rparr>"
  have task: "runs ?step (?b c op) (Begin (Task l) # map DoWrite (task_ops c l)) (?b c' op)"
    if "ipc_step sample_alloy sample_prom ascending c l c'" "l \<noteq> Signal" "\<forall>b out. l \<noteq> Batch b out"
    for c c' :: "(sample_tx, _, _, _, _) config" and l op
    using task_happens [of "?b c op" c sample_alloy sample_prom ascending l c' encode display] that
    by (simp add: running_def put_metrics_same)
  have t1: "runs ?step (?b ?c0 fmempty) (Begin (Task Internal) # map DoWrite (state_ops Connecting)) (?b ?c1 fmempty)"
    using task [of ?c0 Internal ?c1] start [of sample_alloy sample_prom ascending False]
    by (simp add: initial_def task_ops_def)
  have t2: "runs ?step (?b ?c1 fmempty) (Begin (Task Internal) # map DoWrite (state_ops Connecting)) (?b ?c2 fmempty)"
    using task [OF top [where st = ?s1]] by (simp add: task_ops_def)
  let ?c3 = "\<lparr>cf_phase = InConnection, cf_shutdown = False, cf_unseen = False,
      cf_state = with_metrics (\<lambda>m. record_reconnect sample_prom (set_ipc_state sample_prom Connected m)) ?s2\<rparr>"
  let ?o = "fmupd (0 :: nat) [ls_metrics ?s2] fmempty"
  have opened: "?step (?b ?c2 fmempty) (OpenHealth 0) (?b ?c2 (fmupd 0 [] fmempty))"
    using a_open [of "?b ?c2 fmempty" 0 sample_alloy sample_prom ascending encode display] by simp
  have load: "?step (?b ?c2 (fmupd 0 [] fmempty)) (Load 0) (?b ?c2 ?o)"
    using a_load [of "?b ?c2 (fmupd 0 [] fmempty)" 0 "[]" sample_alloy sample_prom ascending encode display]
    by (simp add: running_def snapshot_loads_def)
  have t3: "runs ?step (?b ?c2 ?o) (Begin (Task ConnectOk) # map DoWrite (state_ops Connected @ [IncReconnects])) (?b ?c3 ?o)"
    using task [OF connect_ok [where st = ?s2]] by (simp add: task_ops_def)
  have "snapshot_loads - length [ls_metrics ?s2] = 14" "length [ls_metrics ?s2] \<le> snapshot_loads"
    by (simp_all add: snapshot_loads_def)
  then obtain snap a where "runs ?step (?b ?c3 ?o) (replicate 14 (Load 0) @ [Reply 0 snap]) a"
    using request_answered [of "?b ?c3 ?o" 0 "[ls_metrics ?s2]" sample_alloy sample_prom ascending encode display]
    by (auto simp: running_def)
  from runs_append [of ?step, OF runs_Cons [of ?step, OF opened runs_Cons [of ?step, OF load runs_append [of ?step, OF this t3]]]
      runs_append [of ?step, OF t2 t1]]
  have "runs ?step (?b ?c0 fmempty) (mixed_before @ OpenHealth 0 # mixed_during @ [Reply 0 snap]) a"
    by (simp add: mixed_before_def mixed_during_def)
  then show ?thesis unfolding a0 by blast
qed

subsection \<open>The loop, and what a request reads\<close>

text \<open>C17: Serving requests does not disturb the loop, even between two of its atomic writes: whatever is
  read and answered meanwhile, the loop does what it does on its own, with the same pool and dedup
  cache; the messages of its steps are those that have gone out, in this order, and those of the
  step that is going on; and once its pending writes are made the metrics are, but for the counter
  of requests, those of the loop on its own.\<close>
theorem requests_do_not_disturb:
  assumes "startup bind_address cfg m = Inr s" "txpool_socket cfg = Some path"
    and run: "runs (astep A P it encode display) (alaunch s) als a"
  shows "\<exists>c c0. ipc_path A P it (initial (mode_of cfg) m) (aloop_view als) c \<and> pr_task (ap_proc a) = Some c0
    \<and> cf_phase c = cf_phase c0 \<and> ls_pool (cf_state c) = ls_pool (cf_state c0) \<and> ls_sent (cf_state c) = ls_sent (cf_state c0)
    \<and> wire_of (aloop_view als) = wired als @ wires (ap_todo a)
    \<and> ls_metrics (cf_state c)
      = (apply_ops P (writes (ap_todo a)) (pr_metrics (ap_proc a)))\<lparr>http_requests_total := http_requests_total m\<rparr>"
proof -
  have s: "st_metrics s = m" "st_loop s = Some (path, mode_of cfg)"
    using startup_started [OF assms(1)] assms(2) by simp_all
  note r = atomic_run_projected [OF run s(2), unfolded s(1)]
  then show ?thesis
    by (intro exI [of _ "loop_of (http_requests_total m) (completed P a)"] exI [of _ "the (pr_task (ap_proc a))"])
       (auto simp: loop_of_def inbox_ok_def)
qed

lemma requests_do_not_disturb_witness:
  "\<exists>als snap a c. runs (astep sample_alloy sample_prom ascending (\<lambda>m. Inl ()) (\<lambda>e. [])) (alaunch sample_started) als a
     \<and> Reply 0 snap \<in> set als \<and> aloop_view als = [Internal, Internal, ConnectOk]
     \<and> ipc_path sample_alloy sample_prom ascending (initial (mode_of sample_config) sample_metrics) (aloop_view als) c"
proof -
  obtain snap a where run: "runs (astep sample_alloy sample_prom ascending (\<lambda>m. Inl ()) (\<lambda>e. [])) (alaunch sample_started)
      (mixed_before @ OpenHealth 0 # mixed_during @ [Reply 0 snap]) a"
    using mixed_run by blast
  have "txpool_socket sample_config = Some ''sock''" by (simp add: sample_config_def)
  from requests_do_not_disturb [OF sample_startup this run] obtain c where
    "ipc_path sample_alloy sample_prom ascending (initial (mode_of sample_config) sample_metrics)
      (aloop_view (mixed_before @ OpenHealth 0 # mixed_during @ [Reply 0 snap])) c" by blast
  moreover have "aloop_view (mixed_before @ OpenHealth 0 # mixed_during @ [Reply 0 snap]) = [Internal, Internal, ConnectOk]"
    by (simp add: mixed_before_def mixed_during_def state_ops_def)
  moreover have "Reply 0 snap \<in> set (mixed_before @ OpenHealth 0 # mixed_during @ [Reply 0 snap])" by simp
  ultimately show ?thesis using run by blast
qed

text \<open>C26: An answer for the health snapshot is made of fifteen readings in the order of the code, the
  \<open>k\<close>-th at the \<open>k\<close>-th of fifteen moments between the request and its answer. Each field shows what
  the loop had written by its moment: a counter the number of its increments or the sum of what was
  added to it (modulo \<open>2 ^ 64\<close>), a gauge, a time stamp and the state of the connection what was
  written last, and zero, nothing or disabled if nothing was.\<close>
theorem health_reads_in_order:
  assumes P: "prom_laws P" and m: "metrics_new P = Some m" and start: "startup bind_address cfg m = Inr s"
    and run: "runs (astep A P it encode display) (alaunch s) (before @ OpenHealth i # during @ [Reply i snap]) a"
    and once: "\<forall>snap. Reply i snap \<notin> set during"
  shows "length (loads_at i during) = 15 \<and> sorted_wrt (<) (loads_at i during)
    \<and> (let log = (\<lambda>k. ops_of (before @ take (loads_at i during ! k) during)) in
        hs_status snap = ''ok'' \<and> hs_service snap = ''magma-sidecar''
      \<and> hs_ipc_state snap = ipc_as_str (ipc_state_from_gauge
          (last_of (\<lambda>op. case op of StoreState g \<Rightarrow> Some g | _ \<Rightarrow> None) (- 1) (log 0)))
      \<and> tx_inserts_observed snap = of_nat (count_list (log 1) IncInserts)
      \<and> tx_prioritized snap = of_nat (count_list (log 2) IncPrioritized)
      \<and> tx_skipped_non_gateway snap = of_nat (count_list (log 3) IncSkipped)
      \<and> tx_skipped_invalid_gateway snap = of_nat (count_list (log 4) IncInvalid)
      \<and> ipc_send_failures snap = of_nat (count_list (log 5) IncFailures)
      \<and> ipc_reconnects snap = of_nat (count_list (log 6) IncReconnects)
      \<and> sent_cache_entries snap = last_of (\<lambda>op. case op of SetSentCache n \<Rightarrow> Some n | _ \<Rightarrow> None) 0 (log 7)
      \<and> sent_cache_evictions snap = added (\<lambda>op. case op of AddSentEvictions n \<Rightarrow> n | _ \<Rightarrow> 0) (log 8)
      \<and> hs_backrun_pairs_matched snap = added (\<lambda>op. case op of AddPairs n \<Rightarrow> n | _ \<Rightarrow> 0) (log 9)
      \<and> backrun_bids_pending snap = last_of (\<lambda>op. case op of SetPending n \<Rightarrow> Some n | _ \<Rightarrow> None) 0 (log 10)
      \<and> backrun_bids_expired snap = added (\<lambda>op. case op of AddExpired n \<Rightarrow> n | _ \<Rightarrow> 0) (log 11)
      \<and> backrun_bids_evicted snap = added (\<lambda>op. case op of AddEvicted n \<Rightarrow> n | _ \<Rightarrow> 0) (log 12)
      \<and> hs_last_event_unix_seconds snap
        = nonzero (last_of (\<lambda>op. case op of StoreEventTs t \<Rightarrow> Some t | _ \<Rightarrow> None) 0 (log 13))
      \<and> hs_last_send_unix_seconds snap
        = nonzero (last_of (\<lambda>op. case op of StoreSendTs t \<Rightarrow> Some t | _ \<Rightarrow> None) 0 (log 14)))"
proof -
  note r = request_reads [OF run once]
  have snap: "snap = read_snapshot P (\<lambda>k. apply_ops P (ops_of (before @ take (loads_at i during ! k) during)) m)"
    using r(2) startup_started(1) [OF start] by (simp add: alaunch_def launch_def)
  have "length (loads_at i during) = 15" using r(1) by (simp add: snapshot_loads_def)
  then show ?thesis
    unfolding Let_def by (intro conjI sorted_loads_at read_fields [OF P metrics_new_fresh [OF P m] snap])
qed

lemma mixed_loads: "loads_at 0 mixed_during = 0 # [5..<19]"
  by (simp add: loads_at_def mixed_during_def state_ops_def upt_rec nth_Cons')

lemma health_reads_in_order_witness:
  "\<exists>snap. (\<exists>a. runs (astep sample_alloy sample_prom ascending (\<lambda>m. Inl ()) (\<lambda>e. [])) (alaunch sample_started)
      (mixed_before @ OpenHealth 0 # mixed_during @ [Reply 0 snap]) a)
    \<and> hs_ipc_state snap = ''connecting'' \<and> ipc_reconnects snap = 1"
proof -
  obtain snap a where run: "runs (astep sample_alloy sample_prom ascending (\<lambda>m. Inl ()) (\<lambda>e. [])) (alaunch sample_started)
      (mixed_before @ OpenHealth 0 # mixed_during @ [Reply 0 snap]) a"
    using mixed_run by blast
  have "\<forall>snap. Reply 0 snap \<notin> set mixed_during" by (auto simp: mixed_during_def)
  note reads = health_reads_in_order [OF sample_prom_laws sample_metrics_new sample_startup run this, unfolded Let_def]
  have ops: "ops_of mixed_before = state_ops Connecting @ state_ops Connecting"
      "ops_of (take 10 mixed_during) = state_ops Connected @ [IncReconnects]"
    by (simp_all add: mixed_before_def mixed_during_def state_ops_def)
  have "hs_ipc_state snap = ipc_as_str (ipc_state_from_gauge
      (last_of (\<lambda>op. case op of StoreState g \<Rightarrow> Some g | _ \<Rightarrow> None) (- 1) (ops_of mixed_before)))"
    "ipc_reconnects snap = of_nat (count_list (ops_of (mixed_before @ take 10 mixed_during)) IncReconnects)"
    using reads by (simp_all only: mixed_loads) (simp_all add: mixed_loads)
  then have "hs_ipc_state snap = ''connecting'' \<and> ipc_reconnects snap = 1"
    by (simp add: ops) (simp add: state_ops_def last_of_simps ipc_state_from_gauge_def)
  with run show ?thesis by blast
qed

subsection \<open>A request that no write comes between\<close>

text \<open>C27: A request for \<open>/health\<close> that comes when no step of the loop is going on, and is answered before
  the loop writes again, shows the numbers of the run so far: as prioritised the messages written to
  the node, as reconnects the connections made, as dedup entries the size of the dedup cache
  (counters modulo \<open>2 ^ 64\<close>), and, wherever the loop is but at its top between two connections, the state
  of the connection. Other requests and steps of \<open>main\<close> may come in between.\<close>
theorem health_served:
  assumes P: "prom_laws P" and m: "metrics_new P = Some m"
    and start: "startup bind_address cfg m = Inr s" "txpool_socket cfg = Some path"
    and run: "runs (astep A P it encode display) (alaunch s) before b" and rest: "ap_todo b = []"
    and req: "runs (astep A P it encode display) b (OpenHealth i # during @ [Reply i snap]) a"
    and once: "\<forall>snap. Reply i snap \<notin> set during" and quiet: "ops_of during = []"
  shows "\<exists>c. pr_task (ap_proc b) = Some c
    \<and> tx_prioritized snap = of_nat (length (wired before))
    \<and> ipc_reconnects snap = of_nat (reconnects (aloop_view before))
    \<and> sent_cache_entries snap = of_nat (sent_len (ls_sent (cf_state c)))
    \<and> (\<forall>state. phase_shows (cf_phase c) = {state} \<longrightarrow> hs_ipc_state snap = ipc_as_str state)"
proof -
  have s: "st_metrics s = m" "st_loop s = Some (path, mode_of cfg)"
    using startup_started [OF start(1)] start(2) by simp_all
  note r = atomic_run_projected [OF run s(2), unfolded s(1)]
  obtain c where c: "pr_task (ap_proc b) = Some c" using r(2) by (auto simp: inbox_ok_def)
  have "ops_of (take n during) = []" for n
    using quiet append_take_drop_id [of n during] by (metis ops_of_simps(3) append_is_Nil_conv)
  then have snap: "snap = snapshot P (pr_metrics (ap_proc b))"
    using request_reads(2) [of A P it encode display b "[]" i during snap a] req once by (simp add: read_snapshot_still)
  let ?c = "loop_of (http_requests_total m) (completed P b)"
  have view: "cf_phase ?c = cf_phase c" "ls_sent (cf_state ?c) = ls_sent (cf_state c)"
    "snapshot P (ls_metrics (cf_state ?c)) = snapshot P (pr_metrics (ap_proc b))"
    by (simp_all add: loop_of_def completed_def c rest ls_metrics_loop_of snapshot_http)
  have "wire_of (aloop_view before) = wired before" using r(3) rest by simp
  with run_health [OF P metrics_new_fresh [OF P m] mode_of_room r(1), unfolded view] show ?thesis
    unfolding snap by (intro exI [of _ c]) (simp add: c)
qed

lemma health_served_witness:
  "\<exists>before snap a. runs (astep sample_alloy sample_prom ascending (\<lambda>m. Inl ()) (\<lambda>e. [])) (alaunch sample_started)
      (before @ OpenHealth 0 # replicate snapshot_loads (Load 0) @ [Reply 0 snap]) a
    \<and> wired before = [sample_message] \<and> tx_prioritized snap = 1 \<and> ipc_reconnects snap = 1"
proof -
  let ?step = "astep sample_alloy sample_prom ascending (\<lambda>m. Inl ()) (\<lambda>e. [])"
  obtain p where p: "runs (process_step sample_alloy sample_prom ascending (\<lambda>m. Inl ()) (\<lambda>e. [])) (launch sample_started) sample_plabels p"
    "pr_main p = Serving"
    using sample_process_run by blast
  obtain als where als: "runs ?step (alaunch sample_started) als (still p)" "wired als = [sample_message]" "aloop_view als = sample_labels"
    using coarse_run [OF p(1)] by (auto simp: sample_loop_view sample_labels_simps)
  obtain a snap where req: "runs ?step (still p) (OpenHealth 0 # replicate snapshot_loads (Load 0) @ [Reply 0 snap]) a"
    using health_happens p(2) by blast
  have "txpool_socket sample_config = Some ''sock''" "ap_todo (still p) = []"
    by (simp_all add: sample_config_def still_def)
  from health_served [OF sample_prom_laws sample_metrics_new sample_startup this(1) als(1) this(2) req]
  have "tx_prioritized snap = 1" "ipc_reconnects snap = 1" by (auto simp: als sample_labels_simps)
  with runs_append [of ?step, OF req als(1)] als(2) show ?thesis by blast
qed

subsection \<open>The count of messages\<close>

text \<open>C18: An answer for the health snapshot, wherever it comes, shows the number of messages that had been
  written to the node at one moment between the request and the answer, or one less: the loop
  counts a message right after it has gone out, and nothing else.\<close>
theorem health_counts_messages:
  assumes P: "prom_laws P" and m: "metrics_new P = Some m" and start: "startup bind_address cfg m = Inr s"
    and run: "runs (astep A P it encode display) (alaunch s) (before @ OpenHealth i # during @ [Reply i snap]) a"
    and once: "\<forall>snap. Reply i snap \<notin> set during"
  shows "\<exists>n w. n < length during \<and> during ! n = Load i \<and> tx_prioritized snap = of_nat w
    \<and> w \<le> length (wired (before @ take n during)) \<and> length (wired (before @ take n during)) \<le> Suc w"
proof -
  let ?n = "loads_at i during ! 2"
  let ?ops = "ops_of (before @ take ?n during)"
  note r = request_reads [OF run once]
  have n: "?n < length during \<and> during ! ?n = Load i"
    using r(1) by (intro loads_at_bounds nth_mem) (simp add: snapshot_loads_def)
  have "counter_get P (txpool_prioritized_total m) = 0"
    using metrics_new_fresh [OF P m] by (simp add: fresh_metrics_def blank_snapshot_def snapshot_def)
  then have w: "tx_prioritized snap = of_nat (count_list ?ops IncPrioritized)"
    using startup_started(1) [OF start]
    by (simp add: r(2) read_snapshot_def apply_ops_counters(2) [OF P] alaunch_def launch_def)
  have "before @ OpenHealth i # during @ [Reply i snap]
      = (before @ OpenHealth i # take ?n during) @ drop ?n during @ [Reply i snap]" by simp
  with run obtain b where "runs (astep A P it encode display) (alaunch s) (before @ OpenHealth i # take ?n during) b"
    by (metis runs_split)
  from run_counts_due [OF this] have "length (wired (before @ take ?n during)) = count_list ?ops IncPrioritized + due (ap_todo b)"
    by (simp add: alaunch_def)
  moreover have "due (ap_todo b) \<le> 1" by (simp add: due_def)
  ultimately show ?thesis using n w by (intro exI [of _ ?n] exI [of _ "count_list ?ops IncPrioritized"]) simp
qed

lemma health_counts_messages_witness:
  "\<exists>als snap a. runs (astep sample_alloy sample_prom ascending (\<lambda>m. Inl ()) (\<lambda>e. [])) (alaunch sample_started)
      (als @ OpenHealth 0 # replicate snapshot_loads (Load 0) @ [Reply 0 snap]) a
    \<and> wired als = [sample_message] \<and> tx_prioritized snap \<in> {0, 1}"
proof -
  let ?step = "astep sample_alloy sample_prom ascending (\<lambda>m. Inl ()) (\<lambda>e. [])"
  obtain p where p: "runs (process_step sample_alloy sample_prom ascending (\<lambda>m. Inl ()) (\<lambda>e. [])) (launch sample_started) sample_plabels p"
    "pr_main p = Serving"
    using sample_process_run by blast
  obtain als where als: "runs ?step (alaunch sample_started) als (still p)" "wired als = [sample_message]"
    using coarse_run [OF p(1)] by (auto simp: sample_loop_view sample_labels_simps)
  obtain a snap where run: "runs ?step (alaunch sample_started) (als @ OpenHealth 0 # replicate snapshot_loads (Load 0) @ [Reply 0 snap]) a"
    using runs_append [of ?step, OF health_happens als(1)] p(2) by blast
  have "\<forall>snap. Reply 0 snap \<notin> set (replicate snapshot_loads (Load 0))" by simp
  from health_counts_messages [OF sample_prom_laws sample_metrics_new sample_startup run this] obtain w where
    "tx_prioritized snap = of_nat w" "w \<le> 1"
    by (auto simp: als(2))
  then have "tx_prioritized snap \<in> {0, 1}" by (cases w) auto
  with run als(2) show ?thesis by blast
qed

end
