(* ===== verification/Test_Harness.thy ===== *)
theory Test_Harness
  imports Test_Loop Runs
begin

section \<open>The end-to-end tests\<close>

text \<open>
  The harness of the tests that drive the loop over a socket, \<open>run_roundtrip\<close> in
  \<^verbatim>\<open>src/txpool_ipc.rs\<close>, as three tasks that run side by side: the server, which accepts one
  connection, sends one batch and collects what comes back; the client, which is the loop; and the
  test itself, which waits for the server, polls the metrics, sends the shutdown signal and waits
  for the loop. The socket is a frame on its way to the client and a queue of replies on their way
  to the server; it carries what is sent, in order, and a send succeeds while the server holds its
  end. When a timeout fires is left to the steps.
\<close>

subsection \<open>State and steps\<close>

datatype server_phase = SrvAccept | SrvCollect | SrvDrain | SrvEnded

datatype test_phase = MainServer | MainPoll | MainClient | MainDone

record ('tx, 'r, 'c, 'g, 'v) harness =
  hn_server :: server_phase
  hn_main :: test_phase
  hn_frame :: "'tx event list option"
  hn_replies :: "'tx ipc_tx list"
  hn_got :: "'tx ipc_tx list"
  hn_client :: "('tx, 'r, 'c, 'g, 'v) config"

datatype 'tx hlabel =
    Client "'tx label" | Connect | Collect | Collected | Late | Drain | Drained | Joined | Reached | Deadline | Stopped

definition reached :: "('r, 'c, 'g, 'v) prom \<Rightarrow> u64 \<times> u64 \<times> u64 \<Rightarrow> ('r, 'c, 'g, 'v) metrics \<Rightarrow> bool" where
  "reached P = (\<lambda>(inserts, prioritized, skipped) metrics.
     (let s = snapshot P metrics
      in inserts \<le> tx_inserts_observed s \<and> prioritized \<le> tx_prioritized s \<and> skipped \<le> tx_skipped_non_gateway s))"

text \<open>The listener goes with the server's task: a later connect is refused. The client reads the end of the
  stream when the server is gone and the frame is read.\<close>

inductive harness_step :: "'tx alloy \<Rightarrow> ('r, 'c, 'g, 'v) prom \<Rightarrow> ('tx bid_map \<Rightarrow> txhash list) \<Rightarrow>
    'tx event list \<Rightarrow> nat \<Rightarrow> u64 \<times> u64 \<times> u64 \<Rightarrow>
    ('tx, 'r, 'c, 'g, 'v) harness \<Rightarrow> 'tx hlabel \<Rightarrow> ('tx, 'r, 'c, 'g, 'v) harness \<Rightarrow> bool"
  for A P it events expect counts where
  h_client: "ipc_step A P it (hn_client h) l c' \<Longrightarrow>
    l \<in> {Internal, Timer, Changed} \<or> l = ConnectFail \<and> hn_server h \<in> {SrvAccept, SrvEnded}
      \<or> l = StreamEnd \<and> hn_server h = SrvEnded \<and> hn_frame h = None \<Longrightarrow>
    harness_step A P it events expect counts h (Client l) (h\<lparr>hn_client := c'\<rparr>)"
| h_connect: "ipc_step A P it (hn_client h) ConnectOk c' \<Longrightarrow> hn_server h = SrvAccept \<Longrightarrow>
    harness_step A P it events expect counts h Connect
      (h\<lparr>hn_server := SrvCollect, hn_frame := Some events, hn_client := c'\<rparr>)"
| h_batch: "ipc_step A P it (hn_client h) (Batch b out) c' \<Longrightarrow> hn_frame h = Some (map fst b) \<Longrightarrow>
    hn_server h = SrvEnded \<or> (\<forall>(ev, ans) \<in> set b. \<forall>i. send_ok ans i) \<Longrightarrow>
    harness_step A P it events expect counts h (Client (Batch b out))
      (h\<lparr>hn_frame := None, hn_replies := hn_replies h @ map snd out, hn_client := c'\<rparr>)"
| h_collect: "hn_server h = SrvCollect \<Longrightarrow> length (hn_got h) < expect \<Longrightarrow> hn_replies h = x # xs \<Longrightarrow>
    harness_step A P it events expect counts h Collect (h\<lparr>hn_got := hn_got h @ [x], hn_replies := xs\<rparr>)"
| h_collected: "hn_server h = SrvCollect \<Longrightarrow> expect \<le> length (hn_got h) \<Longrightarrow>
    harness_step A P it events expect counts h Collected (h\<lparr>hn_server := SrvDrain\<rparr>)"
| h_late: "hn_server h = SrvCollect \<Longrightarrow> length (hn_got h) < expect \<Longrightarrow>
    harness_step A P it events expect counts h Late (h\<lparr>hn_server := SrvDrain\<rparr>)"
| h_drain: "hn_server h = SrvDrain \<Longrightarrow> hn_replies h = x # xs \<Longrightarrow>
    harness_step A P it events expect counts h Drain (h\<lparr>hn_got := hn_got h @ [x], hn_replies := xs\<rparr>)"
| h_drained: "hn_server h = SrvDrain \<Longrightarrow>
    harness_step A P it events expect counts h Drained (h\<lparr>hn_server := SrvEnded\<rparr>)"
| h_joined: "hn_main h = MainServer \<Longrightarrow> hn_server h = SrvEnded \<Longrightarrow>
    harness_step A P it events expect counts h Joined (h\<lparr>hn_main := MainPoll\<rparr>)"
| h_reached: "hn_main h = MainPoll \<Longrightarrow> reached P counts (ls_metrics (cf_state (hn_client h))) \<Longrightarrow>
    ipc_step A P it (hn_client h) Signal c' \<Longrightarrow>
    harness_step A P it events expect counts h Reached (h\<lparr>hn_main := MainClient, hn_client := c'\<rparr>)"
| h_deadline: "hn_main h = MainPoll \<Longrightarrow> ipc_step A P it (hn_client h) Signal c' \<Longrightarrow>
    harness_step A P it events expect counts h Deadline (h\<lparr>hn_main := MainClient, hn_client := c'\<rparr>)"
| h_stopped: "hn_main h = MainClient \<Longrightarrow> cf_phase (hn_client h) = Returned \<Longrightarrow>
    harness_step A P it events expect counts h Stopped (h\<lparr>hn_main := MainDone\<rparr>)"

definition harness_start :: "priority_mode \<Rightarrow> ('r, 'c, 'g, 'v) metrics \<Rightarrow> ('tx, 'r, 'c, 'g, 'v) harness" where
  "harness_start mode m =
     \<lparr>hn_server = SrvAccept, hn_main = MainServer, hn_frame = None, hn_replies = [], hn_got = [], hn_client = initial mode m\<rparr>"

text \<open>A finished run in which neither the server nor the test gave up waiting: what the server got, and
  the metrics. Only the closing of the drain window is a timeout that every run has.\<close>

definition run_roundtrip :: "'tx alloy \<Rightarrow> ('r, 'c, 'g, 'v) prom \<Rightarrow> ('tx bid_map \<Rightarrow> txhash list) \<Rightarrow> 'tx event list \<Rightarrow>
    priority_mode \<Rightarrow> nat \<Rightarrow> u64 \<times> u64 \<times> u64 \<Rightarrow> 'tx ipc_tx list \<Rightarrow> ('r, 'c, 'g, 'v) metrics \<Rightarrow> bool" where
  "run_roundtrip A P it events mode expect counts got metrics \<longleftrightarrow>
     (\<exists>m ls h. metrics_new P = Some m \<and> runs (harness_step A P it events expect counts) (harness_start mode m) ls h
        \<and> Late \<notin> set ls \<and> Deadline \<notin> set ls \<and> hn_main h = MainDone
        \<and> got = hn_got h \<and> metrics = ls_metrics (cf_state (hn_client h)))"

subsection \<open>What every run comes to\<close>

text \<open>The three counters the tests look at, and a loop that has not read its batch.\<close>

definition counters :: "('r, 'c, 'g, 'v) prom \<Rightarrow> ('r, 'c, 'g, 'v) metrics \<Rightarrow> u64 \<times> u64 \<times> u64" where
  "counters P m = (counter_get P (txpool_inserts_total m), counter_get P (txpool_prioritized_total m),
     counter_get P (txpool_skipped_non_gateway_total m))"

definition unread :: "('r, 'c, 'g, 'v) prom \<Rightarrow> priority_mode \<Rightarrow> ('tx, 'r, 'c, 'g, 'v) loop_state \<Rightarrow> bool" where
  "unread P mode st \<longleftrightarrow>
     ls_pool st = pool_new (pm_policy mode) (pm_fallback mode) (pm_ttl mode) (pm_max_cache_entries mode) (pm_max_pending_entries mode)
     \<and> ls_sent st = sent_new (pm_sent_cache_max mode) \<and> counters P (ls_metrics st) = (0, 0, 0)"

lemma reached_counters:
  "reached P (i, p, s) m \<longleftrightarrow> (case counters P m of (i', p', s') \<Rightarrow> i \<le> i' \<and> p \<le> p' \<and> s \<le> s')"
  by (simp add: reached_def counters_def snapshot_def Let_def)

lemma counters_kept [simp]:
  "counters P (set_ipc_state P s m) = counters P m" "counters P (record_reconnect P m) = counters P m"
  by (simp_all add: counters_def set_ipc_state_def record_reconnect_def)

lemma other_step_counters:
  assumes "ipc_step A P it c l c'" "\<forall>b out. l \<noteq> Batch b out"
  shows "counters P (ls_metrics (cf_state c')) = counters P (ls_metrics (cf_state c))"
    "unread P mode (cf_state c') = unread P mode (cf_state c)"
    "reached P counts (ls_metrics (cf_state c')) = reached P counts (ls_metrics (cf_state c))"
proof -
  show c: "counters P (ls_metrics (cf_state c')) = counters P (ls_metrics (cf_state c))" using assms by cases simp_all
  then show "unread P mode (cf_state c') = unread P mode (cf_state c)"
    using step_keeps_state [OF assms(1)] assms(2) by (simp add: unread_def)
  show "reached P counts (ls_metrics (cf_state c')) = reached P counts (ls_metrics (cf_state c))"
    by (cases counts) (simp add: reached_counters c)
qed

text \<open>The batch is read by a loop that has read nothing; while replies are expected, every send of it succeeds.\<close>

definition batch_read :: "'tx alloy \<Rightarrow> ('r, 'c, 'g, 'v) prom \<Rightarrow> ('tx bid_map \<Rightarrow> txhash list) \<Rightarrow> priority_mode \<Rightarrow>
    'tx event list \<Rightarrow> nat \<Rightarrow> 'tx ipc_tx list \<Rightarrow> u64 \<times> u64 \<times> u64 \<Rightarrow> bool" where
  "batch_read A P it mode events expect replies cs \<longleftrightarrow>
     (\<exists>b out failed st st'. map fst b = events \<and> unread P mode st \<and> (0 < expect \<longrightarrow> (\<forall>(ev, ans) \<in> set b. \<forall>i. send_ok ans i))
        \<and> process_batch A P it b st = (out, failed, st') \<and> replies = map snd out \<and> cs = counters P (ls_metrics st'))"

definition harness_inv :: "'tx alloy \<Rightarrow> ('r, 'c, 'g, 'v) prom \<Rightarrow> ('tx bid_map \<Rightarrow> txhash list) \<Rightarrow> priority_mode \<Rightarrow>
    'tx event list \<Rightarrow> nat \<Rightarrow> u64 \<times> u64 \<times> u64 \<Rightarrow> ('tx, 'r, 'c, 'g, 'v) harness \<Rightarrow> bool" where
  "harness_inv A P it mode events expect counts h \<longleftrightarrow>
     (let st = cf_state (hn_client h)
      in (if hn_server h = SrvAccept \<or> hn_frame h \<noteq> None
          then unread P mode st \<and> hn_got h = [] \<and> hn_replies h = [] \<and> hn_main h \<notin> {MainClient, MainDone}
            \<and> (if hn_server h = SrvAccept then hn_frame h = None else hn_frame h = Some events)
          else batch_read A P it mode events expect (hn_got h @ hn_replies h) (counters P (ls_metrics st)))
       \<and> (hn_server h \<in> {SrvDrain, SrvEnded} \<longrightarrow> expect \<le> length (hn_got h))
       \<and> (hn_main h \<noteq> MainServer \<longrightarrow> hn_server h = SrvEnded)
       \<and> (hn_main h \<in> {MainClient, MainDone} \<longrightarrow> reached P counts (ls_metrics st)))"

lemma harness_step_inv:
  assumes step: "harness_step A P it events expect counts h l h'" and inv: "harness_inv A P it mode events expect counts h"
    and timely: "l \<noteq> Late" "l \<noteq> Deadline" and pos: "0 < fst counts"
  shows "harness_inv A P it mode events expect counts h'"
  using step
proof cases
  case (h_client k c')
  have "\<forall>b out. k \<noteq> Batch b out" using h_client(4) by auto
  note same = other_step_counters [OF h_client(3) this]
  then show ?thesis using inv by (auto simp: h_client(2) harness_inv_def Let_def split: if_splits)
next
  case (h_connect c')
  have "\<forall>b out. ConnectOk \<noteq> Batch b out" by simp
  note same = other_step_counters [OF h_connect(3) this]
  then show ?thesis using inv h_connect(4) by (simp add: h_connect(2) harness_inv_def Let_def)
next
  case (h_batch b out c')
  have i: "unread P mode (cf_state (hn_client h))" "hn_got h = []" "hn_replies h = []" "hn_main h \<notin> {MainClient, MainDone}"
    "map fst b = events" "hn_server h \<noteq> SrvAccept" "hn_server h \<in> {SrvDrain, SrvEnded} \<Longrightarrow> expect \<le> length (hn_got h)"
    "hn_main h \<noteq> MainServer \<Longrightarrow> hn_server h = SrvEnded"
    using inv h_batch(4) by (auto simp: harness_inv_def Let_def split: if_splits)
  obtain failed where run: "process_batch A P it b (cf_state (hn_client h)) = (out, failed, cf_state c')"
    using h_batch(3) by (elim ipc_step_Batch) auto
  have "\<forall>(ev, ans) \<in> set b. \<forall>i. send_ok ans i" if "0 < expect"
    using h_batch(5) i(2,7) that by auto
  with run i(1,5) have "batch_read A P it mode events expect (map snd out) (counters P (ls_metrics (cf_state c')))"
    unfolding batch_read_def by blast
  then show ?thesis using i by (auto simp: h_batch(2) harness_inv_def Let_def)
next
  case (h_reached c')
  have "\<forall>b out. Signal \<noteq> Batch b out" by simp
  note same = other_step_counters [OF h_reached(5) this]
  obtain i p s where c: "counts = (i, p, s)" using prod_cases3 by blast
  have "\<not> unread P mode (cf_state (hn_client h))"
    using h_reached(4) pos by (auto simp: c reached_counters unread_def)
  then show ?thesis using inv h_reached(3,4) by (auto simp: h_reached(2) harness_inv_def Let_def same split: if_splits)
qed (use inv timely in \<open>auto simp: harness_inv_def Let_def split: if_splits\<close>)

lemma roundtrip_outcome:
  assumes P: "prom_laws P" and run: "run_roundtrip A P it events mode expect counts got metrics" and pos: "0 < fst counts"
  shows "expect \<le> length got \<and> (\<exists>rest. batch_read A P it mode events expect (got @ rest) (counters P metrics))"
proof -
  obtain m ls h where m: "metrics_new P = Some m" and runs: "runs (harness_step A P it events expect counts) (harness_start mode m) ls h"
    and timely: "Late \<notin> set ls" "Deadline \<notin> set ls" and fin: "hn_main h = MainDone"
    and got: "got = hn_got h" "metrics = ls_metrics (cf_state (hn_client h))"
    using run by (auto simp: run_roundtrip_def)
  obtain m' where "metrics_new P = Some m'" "fresh_metrics P m'" using new_metrics [OF P] .
  then have "counters P m = (0, 0, 0)" using fresh_counters [of P m] m by (simp add: counters_def)
  then have start: "harness_inv A P it mode events expect counts (harness_start mode m)"
    by (simp add: harness_inv_def harness_start_def initial_def new_loop_state_def unread_def)
  have "harness_inv A P it mode events expect counts h"
    using runs timely start
    by (induction rule: runs.induct) (auto intro: harness_step_inv [OF _ _ _ _ pos])
  then show ?thesis using fin by (auto simp: harness_inv_def Let_def got split: if_splits)
qed

subsection \<open>There is such a run\<close>

definition connected_state :: "('r, 'c, 'g, 'v) prom \<Rightarrow> priority_mode \<Rightarrow> ('r, 'c, 'g, 'v) metrics \<Rightarrow>
    ('tx, 'r, 'c, 'g, 'v) loop_state" where
  "connected_state P mode m = with_metrics (\<lambda>m. record_reconnect P (set_ipc_state P Connected m))
     (with_metrics (set_ipc_state P Connecting) (with_metrics (set_ipc_state P Connecting) (new_loop_state mode m)))"

lemma unread_connected: "counters P m = (0, 0, 0) \<Longrightarrow> unread P mode (connected_state P mode m)"
  by (simp add: unread_def connected_state_def) (simp add: new_loop_state_def)

lemma harness_connects:
  "runs (harness_step A P it events expect counts) (harness_start mode m) [Client Internal, Client Internal, Connect]
     \<lparr>hn_server = SrvCollect, hn_main = MainServer, hn_frame = Some events, hn_replies = [], hn_got = [],
      hn_client = \<lparr>cf_phase = InConnection, cf_shutdown = False, cf_unseen = False, cf_state = connected_state P mode m\<rparr>\<rparr>"
proof -
  let ?step = "harness_step A P it events expect counts"
  let ?h = "\<lambda>c. \<lparr>hn_server = SrvAccept, hn_main = MainServer, hn_frame = None, hn_replies = [], hn_got = [], hn_client = c\<rparr>"
  have 1: "?step (?h c) (Client Internal) (?h c')" if "ipc_step A P it c Internal c'"
    for c c' :: "('a, 'b, 'c, 'd, 'e) config"
    using h_client [of A P it "?h c" Internal c' events expect counts] that by simp
  have 2: "?step (?h c) Connect ((?h c)\<lparr>hn_server := SrvCollect, hn_frame := Some events, hn_client := c'\<rparr>)"
    if "ipc_step A P it c ConnectOk c'" for c c' :: "('a, 'b, 'c, 'd, 'e) config"
    using h_connect [of A P it "?h c" c' events expect counts] that by simp
  show ?thesis
    using runs_Cons [of ?step, OF 1 [OF start] runs_Cons [of ?step, OF 1 [OF top] runs_one [of ?step, OF 2 [OF connect_ok]]]]
    by (simp add: harness_start_def initial_def connected_state_def)
qed

text \<open>The server collects the replies that wait, and no more.\<close>

lemma harness_collects:
  "hn_server h = SrvCollect \<Longrightarrow> length (hn_got h) + length (hn_replies h) = expect \<Longrightarrow>
     runs (harness_step A P it events expect counts) h (replicate (length (hn_replies h)) Collect)
       (h\<lparr>hn_got := hn_got h @ hn_replies h, hn_replies := []\<rparr>)"
proof (induction "hn_replies h" arbitrary: h)
  case (Cons x xs)
  let ?h = "h\<lparr>hn_got := hn_got h @ [x], hn_replies := xs\<rparr>"
  have "harness_step A P it events expect counts h Collect ?h"
    using Cons.prems Cons.hyps(2) by (intro h_collect) auto
  moreover have "runs (harness_step A P it events expect counts) ?h (replicate (length xs) Collect) (?h\<lparr>hn_got := (hn_got h @ [x]) @ xs, hn_replies := []\<rparr>)"
    using Cons.hyps(1) [of ?h] Cons.hyps(2) [symmetric] Cons.prems by simp
  ultimately show ?case
    using runs_Cons Cons.hyps(2) [symmetric] by fastforce
next
  case Nil
  then have "h\<lparr>hn_got := hn_got h @ hn_replies h, hn_replies := []\<rparr> = h" by (cases h) simp
  then show ?case using runs_Nil [of "harness_step A P it events expect counts" h] Nil(1) [symmetric] by (simp only: list.size replicate.simps)
qed

text \<open>The end: drained, joined, polled, signalled, stopped.\<close>

lemma harness_ends:
  assumes h: "hn_server h = SrvCollect" "hn_main h = MainServer" "expect \<le> length (hn_got h)"
    and c: "hn_client h = \<lparr>cf_phase = InConnection, cf_shutdown = sd, cf_unseen = un, cf_state = st\<rparr>"
    and r: "reached P counts (ls_metrics st)"
  shows "\<exists>h'. runs (harness_step A P it events expect counts) h [Collected, Drained, Joined, Reached, Client Changed, Stopped] h'
    \<and> hn_main h' = MainDone"
proof -
  let ?step = "harness_step A P it events expect counts"
  let ?h1 = "h\<lparr>hn_server := SrvDrain\<rparr>"
  let ?h2 = "?h1\<lparr>hn_server := SrvEnded\<rparr>"
  let ?h3 = "?h2\<lparr>hn_main := MainPoll\<rparr>"
  let ?h4 = "?h3\<lparr>hn_main := MainClient, hn_client := \<lparr>cf_phase = InConnection, cf_shutdown = True, cf_unseen = True, cf_state = st\<rparr>\<rparr>"
  let ?h5 = "?h4\<lparr>hn_client := \<lparr>cf_phase = Returned, cf_shutdown = True, cf_unseen = False,
      cf_state = with_metrics (set_ipc_state P Disabled) st\<rparr>\<rparr>"
  have s: "?step h Collected ?h1" "?step ?h1 Drained ?h2" "?step ?h2 Joined ?h3"
    by (rule h_collected h_drained h_joined; simp add: h)+
  have s4: "?step ?h3 Reached ?h4"
    using signal [of A P it InConnection sd un st] r by (intro h_reached) (simp_all add: c)
  have s5: "?step ?h4 (Client Changed) ?h5"
    using changed_stop [of A P it st] h_client [of A P it ?h4 Changed] by simp
  have s6: "?step ?h5 Stopped (?h5\<lparr>hn_main := MainDone\<rparr>)"
    by (rule h_stopped) simp_all
  note Cons = runs_Cons [of ?step]
  show ?thesis
    using Cons [OF s(1) Cons [OF s(2) Cons [OF s(3) Cons [OF s4 Cons [OF s5 runs_one [of ?step, OF s6]]]]]]
    by (intro exI conjI) auto
qed

lemma roundtrip_finishes:
  assumes m: "metrics_new P = Some m" and b: "map fst b = events" "\<forall>(ev, ans) \<in> set b. \<forall>i. send_ok ans i"
    and run: "process_batch A P it b (connected_state P mode m) = (out, False, st')"
    and fit: "length out = expect" "reached P counts (ls_metrics st')"
  shows "\<exists>got metrics. run_roundtrip A P it events mode expect counts got metrics"
proof -
  let ?step = "harness_step A P it events expect counts"
  let ?h = "\<lparr>hn_server = SrvCollect, hn_main = MainServer, hn_frame = Some events, hn_replies = [], hn_got = [],
      hn_client = \<lparr>cf_phase = InConnection, cf_shutdown = False, cf_unseen = False, cf_state = connected_state P mode m\<rparr>\<rparr>"
  let ?c = "\<lparr>cf_phase = InConnection, cf_shutdown = False, cf_unseen = False, cf_state = st'\<rparr>"
  let ?h1 = "?h\<lparr>hn_frame := None, hn_replies := map snd out, hn_client := ?c\<rparr>"
  let ?h2 = "?h1\<lparr>hn_got := map snd out, hn_replies := []\<rparr>"
  have b1: "?step ?h (Client (Batch b out)) ?h1"
    using h_batch [of A P it ?h b out ?c] batch [OF run, of False False] b by simp
  have c: "runs ?step ?h1 (replicate expect Collect) ?h2"
    using harness_collects [of ?h1 expect A P it events counts] fit(1) by simp
  obtain h' where e: "runs ?step ?h2 [Collected, Drained, Joined, Reached, Client Changed, Stopped] h'" "hn_main h' = MainDone"
    using harness_ends [of ?h2 expect False False st' P counts A it events] fit by auto
  note r = runs_append [of ?step, OF runs_Cons [of ?step, OF b1 runs_append [of ?step, OF e(1) c]] harness_connects]
  show ?thesis
    unfolding run_roundtrip_def by (intro exI conjI, rule m, rule r) (simp_all add: e(2))
qed

subsection \<open>The tests\<close>

text \<open>A test returns, and whenever it returns its assertions hold.\<close>

definition passes :: "('tx ipc_tx list \<Rightarrow> ('r, 'c, 'g, 'v) metrics \<Rightarrow> bool) \<Rightarrow>
    ('tx ipc_tx list \<Rightarrow> ('r, 'c, 'g, 'v) metrics \<Rightarrow> bool) \<Rightarrow> bool" where
  "passes roundtrip asserts \<longleftrightarrow>
     (\<exists>got metrics. roundtrip got metrics) \<and> (\<forall>got metrics. roundtrip got metrics \<longrightarrow> asserts got metrics)"

definition gateway_bid_is_reinjected_with_computed_priority :: "'tx alloy \<Rightarrow> 'tx builder \<Rightarrow> ('r, 'c, 'g, 'v) prom \<Rightarrow>
    ('tx bid_map \<Rightarrow> txhash list) \<Rightarrow> bool" where
  "gateway_bid_is_reinjected_with_computed_priority A B P it \<longleftrightarrow>
     (let (policy, mode) = policy_mode;
          gw_tx = eip1559 B GW (gateway_call_calldata A B 7000000) (tx_hash 1);
          expected = encode_tob_priority (compute_priority A gw_tx policy)
      in passes (run_roundtrip A P it [insert_event (tx_hash 1) OTHER gw_tx] mode 1 (1, 1, 0))
           (\<lambda>got metrics. length got = 1 \<and> ipc_priority (got ! 0) = expected
              \<and> (let snap = snapshot P metrics
                 in tx_inserts_observed snap = 1 \<and> tx_prioritized snap = 1 \<and> tx_skipped_non_gateway snap = 0)))"

definition non_gateway_tx_is_observed_but_not_reinjected :: "'tx alloy \<Rightarrow> 'tx builder \<Rightarrow> ('r, 'c, 'g, 'v) prom \<Rightarrow>
    ('tx bid_map \<Rightarrow> txhash list) \<Rightarrow> bool" where
  "non_gateway_tx_is_observed_but_not_reinjected A B P it \<longleftrightarrow>
     (let (_, mode) = policy_mode;
          vanilla = eip1559 B OTHER [] (tx_hash 2)
      in passes (run_roundtrip A P it [insert_event (tx_hash 2) OTHER vanilla] mode 0 (1, 0, 1))
           (\<lambda>got metrics. got = []
              \<and> (let snap = snapshot P metrics
                 in tx_inserts_observed snap = 1 \<and> tx_prioritized snap = 0 \<and> tx_skipped_non_gateway snap = 1)))"

definition duplicate_insert_is_reinjected_once :: "'tx alloy \<Rightarrow> 'tx builder \<Rightarrow> ('r, 'c, 'g, 'v) prom \<Rightarrow>
    ('tx bid_map \<Rightarrow> txhash list) \<Rightarrow> bool" where
  "duplicate_insert_is_reinjected_once A B P it \<longleftrightarrow>
     (let (_, mode) = policy_mode;
          bid = 5;
          gw_tx = eip1559 B GW (gateway_call_calldata A B bid) (tx_hash 3);
          dup = eip1559 B GW (gateway_call_calldata A B bid) (tx_hash 3)
      in passes (run_roundtrip A P it [insert_event (tx_hash 3) OTHER gw_tx, insert_event (tx_hash 3) OTHER dup] mode 1 (1, 1, 0))
           (\<lambda>got metrics. length got = 1
              \<and> (let snap = snapshot P metrics in tx_inserts_observed snap = 1 \<and> tx_prioritized snap = 1)))"

text \<open>The batch of a test decides it: what is written when a loop that has read nothing reads it.\<close>

lemma passesI:
  assumes P: "prom_laws P" and pos: "0 < fst counts" and len: "length wire = expect"
    and batch: "\<And>b st. map fst b = events \<Longrightarrow> unread P mode st \<Longrightarrow>
        (0 < expect \<Longrightarrow> \<forall>(ev, ans) \<in> set b. \<forall>i. send_ok ans i) \<Longrightarrow>
        \<exists>st'. process_batch A P it b st = (wire, False, st') \<and> counters P (ls_metrics st') = counts"
    and asserts: "\<And>metrics. counters P metrics = counts \<Longrightarrow> Q (map snd wire) metrics"
  shows "passes (run_roundtrip A P it events mode expect counts) Q"
  unfolding passes_def
proof (intro conjI allI impI)
  obtain m where m: "metrics_new P = Some m" "fresh_metrics P m" using new_metrics [OF P] .
  have z: "counters P m = (0, 0, 0)" using fresh_counters [OF m(2)] by (simp add: counters_def)
  let ?ans = "\<lparr>wall_event = 0, prune_at = 0, observe_time = 0, send_ok = \<lambda>i. True, wall_send = \<lambda>i. 0\<rparr>"
  let ?b = "map (\<lambda>ev. (ev, ?ans)) events"
  have b: "map fst ?b = events" "\<forall>(ev, ans) \<in> set ?b. \<forall>i. send_ok ans i" by (simp_all add: comp_def)
  obtain st' where st': "process_batch A P it ?b (connected_state P mode m) = (wire, False, st')"
    "counters P (ls_metrics st') = counts"
    using batch [OF b(1) unread_connected [OF z] b(2)] by blast
  have "reached P counts (ls_metrics st')" by (cases counts) (simp add: reached_counters st'(2))
  from roundtrip_finishes [OF m(1) b st'(1) len this]
  show "\<exists>got metrics. run_roundtrip A P it events mode expect counts got metrics" .
next
  fix got metrics
  assume "run_roundtrip A P it events mode expect counts got metrics"
  from roundtrip_outcome [OF P this pos] obtain rest where n: "expect \<le> length got"
    and read: "batch_read A P it mode events expect (got @ rest) (counters P metrics)" by blast
  then obtain b out failed st st' where b: "map fst b = events" "unread P mode st"
    "0 < expect \<Longrightarrow> \<forall>(ev, ans) \<in> set b. \<forall>i. send_ok ans i" "process_batch A P it b st = (out, failed, st')"
    "got @ rest = map snd out" "counters P metrics = counters P (ls_metrics st')"
    unfolding batch_read_def by blast
  with batch [OF b(1-3)] have r: "got @ rest = map snd wire" "counters P metrics = counts" by auto
  then have "length got + length rest = expect" using len by (metis length_append length_map)
  with n have "length rest = 0" by linarith
  with r(1) have "got = map snd wire" by simp
  with asserts [OF r(2)] show "Q got metrics" by simp
qed

lemma loop_tests:
  assumes laws: "builder_laws A B" and P: "prom_laws P"
  shows "gateway_bid_is_reinjected_with_computed_priority A B P it"
    "non_gateway_tx_is_observed_but_not_reinjected A B P it"
    "duplicate_insert_is_reinjected_once A B P it"
proof -
  note [simp] = prom_lawsD [OF P]
  note upd = counters_def record_event_def record_insert_def record_prioritized_def
    record_skipped_non_gateway_def add_backrun_pairs_def add_backrun_pended_def add_backrun_evicted_def
    set_backrun_pending_def set_backrun_cache_def add_sent_cache_evictions_def set_sent_cache_def
  have s: "compute_priority A (eip1559 B GW (gateway_call_calldata A B 7000000) h) (for_test GW 0) = 7105000"
    "compute_priority A (eip1559 B GW (gateway_call_calldata A B 5) h) (for_test GW 0) = 105005" for h
    by (rule eip1559_facts(3) [OF laws], simp)+
  have z: "priorities (sent_new n) = fmempty" for n by (simp add: sent_new_def)
  note sim = unread_def loop_steps eip1559_facts(1,2) [OF laws] s z upd
  show "gateway_bid_is_reinjected_with_computed_priority A B P it"
    unfolding gateway_bid_is_reinjected_with_computed_priority_def policy_mode_def Let_def prod.case
    by (rule passesI [OF P, where wire = "[(tx_hash 1, \<lparr>ipc_payload = eip1559 B GW (gateway_call_calldata A B 7000000) (tx_hash 1),
          ipc_priority = encode_tob_priority 7105000, extra_data = []\<rparr>)]"])
       (auto simp: sim map_eq_Cons_conv snapshot_def)
  show "non_gateway_tx_is_observed_but_not_reinjected A B P it"
    unfolding non_gateway_tx_is_observed_but_not_reinjected_def policy_mode_def Let_def prod.case
    by (rule passesI [OF P, where wire = "[]"]) (auto simp: sim map_eq_Cons_conv snapshot_def)
  show "duplicate_insert_is_reinjected_once A B P it"
    unfolding duplicate_insert_is_reinjected_once_def policy_mode_def Let_def prod.case
    by (rule passesI [OF P, where wire = "[(tx_hash 3, \<lparr>ipc_payload = eip1559 B GW (gateway_call_calldata A B 5) (tx_hash 3),
          ipc_priority = encode_tob_priority 105005, extra_data = []\<rparr>)]"])
       (auto simp: sim map_eq_Cons_conv snapshot_def)
qed

end
