(* ===== verification/Test_Text.thy ===== *)
theory Test_Text
  imports Test_Loop "HOL-Library.Sublist" "HOL-Library.AList"
begin

section \<open>The tests of the metrics text\<close>

text \<open>
  Two tests, in \<^verbatim>\<open>src/metrics.rs\<close> and \<^verbatim>\<open>src/routes.rs\<close>, look for names and labels in the text that
  the encoder of the crate \<open>prometheus\<close> makes of the registry. What the encoder does is its
  documented format, here the hypothesis \<open>text_laws\<close>: a family stands there under the prefix of the
  registry and the name it was registered with, and a labelled counter that was counted up as a
  sample with the label names it was registered with (said of label names in alphabetical order, in
  which the encoder writes them, and of values without escapes). The law names no family and no label: those
  come from the registrations of \<open>Metrics::new\<close>, by \<open>vec_desc\<close> of \<open>prom_laws\<close>, and what is counted
  from the handlers, and that is what the tests test.
\<close>

subsection \<open>The text format\<close>

text \<open>\<open>name{label="value",...}\<close>, without the value of the sample.\<close>

fun label_text :: "string list \<Rightarrow> string list \<Rightarrow> string" where
  "label_text (l # ls) (v # vs) = l @ ''=\"'' @ v @ ''\"'' @ (if ls = [] then [] else '','' @ label_text ls vs)"
| "label_text _ _ = []"

definition sample_text :: "string \<Rightarrow> string \<Rightarrow> string list \<Rightarrow> string list \<Rightarrow> string" where
  "sample_text pre name labels values = pre @ ''_'' @ name @ ''{'' @ label_text labels values @ ''}''"

definition contains :: "u8 list \<Rightarrow> string \<Rightarrow> bool" where
  "contains body s \<longleftrightarrow> sublist (str_bytes s) body"

text \<open>The labelled counters of the metrics, each with the name and the label names it was registered with.\<close>

definition labelled :: "('r, 'c, 'g, 'v) prom \<Rightarrow> ('r, 'c, 'g, 'v) metrics \<Rightarrow> (string \<times> string list \<times> 'v) list" where
  "labelled P m = map (\<lambda>v. (fst (vec_desc P v), snd (vec_desc P v), v)) [txpool_events_total m, http_requests_total m]"

definition ascii :: "string \<Rightarrow> bool" where
  "ascii s \<longleftrightarrow> (\<forall>c \<in> set s. of_char c < (128 :: nat))"

text \<open>A label value that needs no escape, and the order in which the encoder writes the labels of a sample.\<close>

definition unescaped :: "string \<Rightarrow> bool" where
  "unescaped s \<longleftrightarrow> (\<forall>c \<in> set s. c \<noteq> CHR 0x22 \<and> c \<noteq> CHR 0x5C \<and> c \<noteq> CHR 0x0A)"

fun precedes :: "string \<Rightarrow> string \<Rightarrow> bool" where
  "precedes [] t \<longleftrightarrow> t \<noteq> []"
| "precedes (c # s) [] \<longleftrightarrow> False"
| "precedes (c # s) (d # t) \<longleftrightarrow> of_char c < (of_char d :: nat) \<or> c = d \<and> precedes s t"

text \<open>Names and labels of seven bits, values without escapes: the program has no other.\<close>

definition ascii_metrics :: "('r, 'c, 'g, 'v) prom \<Rightarrow> ('r \<Rightarrow> string) \<Rightarrow> ('r, 'c, 'g, 'v) metrics \<Rightarrow> bool" where
  "ascii_metrics P prefix_of m \<longleftrightarrow>
     ascii (prefix_of (registry m)) \<and> (\<forall>name \<in> set (registered P (registry m)). ascii name)
     \<and> (\<forall>(name, labels, v) \<in> set (labelled P m). (\<forall>l \<in> set labels. ascii l)
         \<and> (\<forall>k. 0 < vec_get P k v \<longrightarrow> (\<forall>l \<in> set k. ascii l \<and> unescaped l)))"

definition prefix_laws :: "('r, 'c, 'g, 'v) prom \<Rightarrow> ('r \<Rightarrow> string) \<Rightarrow> bool" where
  "prefix_laws P prefix_of \<longleftrightarrow>
     (\<forall>p r. registry_new P p = Some r \<longrightarrow> prefix_of r = p)
     \<and> (\<forall>name help r c r'. register_counter P name help r = Some (c, r') \<longrightarrow> prefix_of r' = prefix_of r)
     \<and> (\<forall>name help r g r'. register_gauge P name help r = Some (g, r') \<longrightarrow> prefix_of r' = prefix_of r)
     \<and> (\<forall>name help labels r v r'. register_counter_vec P name help labels r = Some (v, r') \<longrightarrow> prefix_of r' = prefix_of r)"

definition shows_families :: "('r, 'c, 'g, 'v) prom \<Rightarrow> ('r \<Rightarrow> string) \<Rightarrow> ('r, 'c, 'g, 'v) metrics \<Rightarrow> u8 list \<Rightarrow> bool" where
  "shows_families P prefix_of m body \<longleftrightarrow>
     (\<forall>name \<in> set (registered P (registry m)) - fst ` set (labelled P m). contains body (prefix_of (registry m) @ ''_'' @ name))
     \<and> (\<forall>(name, labels, v) \<in> set (labelled P m). \<forall>k. name \<in> set (registered P (registry m)) \<longrightarrow>
          sorted_wrt precedes labels \<longrightarrow> length k = length labels \<longrightarrow> 0 < vec_get P k v \<longrightarrow> contains body (sample_text (prefix_of (registry m)) name labels k))"

definition text_laws :: "('r, 'c, 'g, 'v) prom \<Rightarrow> ('r \<Rightarrow> string) \<Rightarrow> (('r, 'c, 'g, 'v) metrics \<Rightarrow> 'e + u8 list) \<Rightarrow> bool" where
  "text_laws P prefix_of encode \<longleftrightarrow>
     prefix_laws P prefix_of
     \<and> (\<forall>m. ascii_metrics P prefix_of m \<longrightarrow> (\<exists>body. encode m = Inr body \<and> valid_utf8 body \<and> shows_families P prefix_of m body))"

lemma prefix_lawsD:
  assumes "prefix_laws P prefix_of"
  shows "registry_new P p = Some r \<Longrightarrow> prefix_of r = p"
    "register_counter P name help r = Some (c, r') \<Longrightarrow> prefix_of r' = prefix_of r"
    "register_gauge P name help r = Some (g, r') \<Longrightarrow> prefix_of r' = prefix_of r"
    "register_counter_vec P name help labels r = Some (v, r') \<Longrightarrow> prefix_of r' = prefix_of r"
  using assms unfolding prefix_laws_def by metis+

lemma contains_part: "contains body s \<Longrightarrow> sublist s' s \<Longrightarrow> contains body s'"
  unfolding contains_def str_bytes_def by (metis map_mono_sublist sublist_order.order_trans)

lemma sublist_parts [intro]:
  "sublist s (s @ s')" "sublist s s'' \<Longrightarrow> sublist s (s' @ s'')"
  unfolding sublist_def by (metis append.assoc append_Nil)+

text \<open>The metrics of the program: nineteen families under one prefix.\<close>

lemma new_prefix:
  assumes T: "text_laws P prefix_of encode" and m: "metrics_new P = Some m"
  shows "prefix_of (registry m) = ''magma_sidecar''"
proof -
  have "prefix_laws P prefix_of" using T by (simp add: text_laws_def)
  note D = prefix_lawsD [OF this]
  show ?thesis
    using m by (auto simp: metrics_new_def set_ipc_state_def bind_eq_Some_conv dest!: D)
qed

lemma rendered:
  assumes P: "prom_laws P" and T: "text_laws P prefix_of encode" and m0: "metrics_new P = Some m0"
    and m: "registry m = registry m0" "ascii_metrics P prefix_of m"
      "vec_desc P (txpool_events_total m) = vec_desc P (txpool_events_total m0)"
      "vec_desc P (http_requests_total m) = vec_desc P (http_requests_total m0)"
  shows "\<exists>body. render_prometheus encode m = Inr body \<and> valid_utf8 body \<and> contains body ''magma_sidecar_txpool_ipc_state''
    \<and> (\<forall>kind. 0 < vec_get P [kind] (txpool_events_total m) \<longrightarrow>
         contains body (sample_text ''magma_sidecar'' ''txpool_events_total'' [''kind''] [kind]))
    \<and> (\<forall>route c. 0 < vec_get P [route, c] (http_requests_total m) \<longrightarrow>
         contains body (sample_text ''magma_sidecar'' ''http_requests_total'' [''route'', ''status_class''] [route, c]))"
proof -
  have fresh: "fresh_metrics P m0" using metrics_new_returns [OF P] m0 by (simp add: returns_def)
  have desc: "vec_desc P (txpool_events_total m) = (''txpool_events_total'', [''kind''])"
    "vec_desc P (http_requests_total m) = (''http_requests_total'', [''route'', ''status_class''])"
    using fresh unfolding m(3,4) fresh_metrics_def by simp_all
  from fresh have "set (registered P (registry m0)) = set metric_names" unfolding fresh_metrics_def by (metis set_rev)
  then have reg: "{''txpool_ipc_state'', ''txpool_events_total'', ''http_requests_total''} \<subseteq> set (registered P (registry m))"
    by (simp add: m(1) metric_names_def)
  have pre: "prefix_of (registry m) = ''magma_sidecar''" using new_prefix [OF T m0] m(1) by simp
  obtain body where body: "encode m = Inr body" "valid_utf8 body" "shows_families P prefix_of m body"
    using T m(2) by (auto simp: text_laws_def)
  have r: "render_prometheus encode m = Inr body" using body by (simp add: render_prometheus_def)
  have g: "contains body ''magma_sidecar_txpool_ipc_state''"
    using bspec [OF conjunct1 [OF body(3) [unfolded shows_families_def]], of "''txpool_ipc_state''"] reg
    by (simp add: labelled_def desc pre)
  have s: "0 < vec_get P [kind] (txpool_events_total m) \<Longrightarrow>
      contains body (sample_text ''magma_sidecar'' ''txpool_events_total'' [''kind''] [kind])"
    "0 < vec_get P [route, c] (http_requests_total m) \<Longrightarrow>
      contains body (sample_text ''magma_sidecar'' ''http_requests_total'' [''route'', ''status_class''] [route, c])" for kind route c
    using body(3) reg by (simp_all add: shows_families_def labelled_def desc pre)
  show ?thesis by (intro exI [of _ body] conjI allI impI r body(2) g s)
qed

text \<open>What stands in a sample.\<close>

lemma sample_parts:
  "sublist (pre @ ''_'' @ name) (sample_text pre name ls vs)"
  "sublist (pre @ ''_'' @ name @ ''{'' @ l @ ''=\"'' @ v @ ''\"'') (sample_text pre name (l # ls) (v # vs))"
  "sublist (label_text ls vs) (sample_text pre name ls vs)"
  "sublist (l @ ''=\"'' @ v @ ''\"'') (label_text (l # ls) (v # vs))"
  "ls \<noteq> [] \<Longrightarrow> sublist (label_text ls vs) (label_text (l # ls) (v # vs))"
proof -
  show "sublist (pre @ ''_'' @ name) (sample_text pre name ls vs)"
    "sublist (pre @ ''_'' @ name @ ''{'' @ l @ ''=\"'' @ v @ ''\"'') (sample_text pre name (l # ls) (v # vs))"
    "sublist (l @ ''=\"'' @ v @ ''\"'') (label_text (l # ls) (v # vs))"
    by (rule prefix_imp_sublist, simp add: sample_text_def)+
  show "sublist (label_text ls vs) (sample_text pre name ls vs)"
    unfolding sample_text_def by (intro sublist_parts)
  show "ls \<noteq> [] \<Longrightarrow> sublist (label_text ls vs) (label_text (l # ls) (v # vs))"
    by (auto intro!: sublist_parts(2) simp del: append.simps)
qed

lemmas sample_labels = sample_parts(4) [THEN sublist_order.order_trans, OF sample_parts(3)]
  sample_parts(4) [THEN sublist_order.order_trans, OF sublist_order.order_trans [OF sample_parts(5) sample_parts(3)]]

subsection \<open>The tests\<close>

definition render_prometheus_includes_namespace :: "('r, 'c, 'g, 'v) prom \<Rightarrow> (('r, 'c, 'g, 'v) metrics \<Rightarrow> 'e + u8 list) \<Rightarrow>
    int \<Rightarrow> bool" where
  "render_prometheus_includes_namespace P encode wall \<longleftrightarrow>
     (case metrics_new P of
        None \<Rightarrow> False
      | Some m \<Rightarrow>
          (let m = record_event P ''commit'' wall m;
               m = record_http P ''/health'' 200 m
           in case render_prometheus encode m of
                Inl e \<Rightarrow> False
              | Inr body \<Rightarrow>
                  contains body ''magma_sidecar_txpool_events_total'' \<and> contains body ''kind=\"commit\"''
                  \<and> contains body ''magma_sidecar_http_requests_total'' \<and> contains body ''route=\"/health\"''
                  \<and> contains body ''status_class=\"2xx\"''))"

definition metrics_exposes_prometheus_text :: "('r, 'c, 'g, 'v) prom \<Rightarrow> (('r, 'c, 'g, 'v) metrics \<Rightarrow> 'e + u8 list) \<Rightarrow>
    ('e render_error \<Rightarrow> u8 list) \<Rightarrow> bool" where
  "metrics_exposes_prometheus_text P encode display \<longleftrightarrow>
     (case metrics_new P of
        None \<Rightarrow> False
      | Some m \<Rightarrow>
          (case serve P encode display ''/metrics'' m of
             Some (Response status ct body, m1) \<Rightarrow>
               status = 200 \<and> prefix ''text/plain'' ct \<and> valid_utf8 body \<and> contains body ''magma_sidecar_txpool_ipc_state''
               \<and> (case serve P encode display ''/metrics'' m1 of
                    Some (Response status2 ct2 body2, m2) \<Rightarrow>
                      valid_utf8 body2 \<and> contains body2 ''magma_sidecar_http_requests_total{route=\"/metrics\"''
                  | _ \<Rightarrow> False)
           | _ \<Rightarrow> False))"

lemma ascii_fresh:
  assumes "text_laws P prefix_of encode" "metrics_new P = Some m" "fresh_metrics P m"
  shows "ascii_metrics P prefix_of m"
proof -
  have "set (registered P (registry m)) = set metric_names" using assms(3) unfolding fresh_metrics_def by (metis set_rev)
  moreover have "ascii name" if "name \<in> set metric_names" for name
    using that by (auto simp: metric_names_def ascii_def)
  moreover have "ascii ''magma_sidecar''" "ascii ''kind''" "ascii ''route''" "ascii ''status_class''" by (simp_all add: ascii_def)
  ultimately show ?thesis
    using new_prefix [OF assms(1,2)] assms(3) by (simp add: ascii_metrics_def labelled_def fresh_metrics_def)
qed

lemma ascii_counted:
  assumes "prom_laws P" "ascii_metrics P prefix_of m" "\<forall>l \<in> set k. ascii l \<and> unescaped l"
  shows "length k = length (snd (vec_desc P (txpool_events_total m))) \<Longrightarrow>
      ascii_metrics P prefix_of (m\<lparr>txpool_events_total := vec_inc P k (txpool_events_total m)\<rparr>)"
    "length k = length (snd (vec_desc P (http_requests_total m))) \<Longrightarrow>
      ascii_metrics P prefix_of (m\<lparr>http_requests_total := vec_inc P k (http_requests_total m)\<rparr>)"
  using assms(2,3) by (auto simp: ascii_metrics_def labelled_def prom_lawsD [OF assms(1)] split: if_splits)

lemma text_tests:
  assumes P: "prom_laws P" and T: "text_laws P prefix_of encode"
  shows "render_prometheus_includes_namespace P encode wall" "metrics_exposes_prometheus_text P encode display"
proof -
  obtain m where m: "metrics_new P = Some m" and f: "fresh_metrics P m" using new_metrics [OF P] .
  note [simp] = prom_lawsD [OF P]
  have z: "vec_get P k (txpool_events_total m) = 0" "vec_get P k (http_requests_total m) = 0"
    "length (snd (vec_desc P (txpool_events_total m))) = 1" "length (snd (vec_desc P (http_requests_total m))) = 2" for k
    using f by (simp_all add: fresh_metrics_def)
  have lit: "ascii ''commit''" "ascii ''/health''" "ascii ''/metrics''" "ascii ''2xx''"
    "unescaped ''commit''" "unescaped ''/health''" "unescaped ''/metrics''" "unescaped ''2xx''"
    by (simp_all add: ascii_def unescaped_def)
  let ?m1 = "m\<lparr>txpool_events_total := vec_inc P [''commit''] (txpool_events_total m),
    last_event_unix_seconds := gauge_set P (unix_now wall) (last_event_unix_seconds m), last_event_ts := unix_now wall\<rparr>"
  let ?m2 = "?m1\<lparr>http_requests_total := vec_inc P [''/health'', ''2xx''] (http_requests_total m)\<rparr>"
  let ?m3 = "m\<lparr>http_requests_total := vec_inc P [''/metrics'', ''2xx''] (http_requests_total m)\<rparr>"
  have a1: "ascii_metrics P prefix_of ?m1"
    using ascii_counted(1) [OF P ascii_fresh [OF T m f], of "[''commit'']"] lit z(3) by (simp add: ascii_metrics_def labelled_def)
  have a: "ascii_metrics P prefix_of ?m2" "ascii_metrics P prefix_of ?m3"
    using ascii_counted(2) [OF P a1, of "[''/health'', ''2xx'']"] ascii_counted(2) [OF P ascii_fresh [OF T m f], of "[''/metrics'', ''2xx'']"] lit z(4)
    by simp_all
  have reg: "registry ?m2 = registry m" "registry ?m3 = registry m" by simp_all
  have n: "0 < vec_get P [''commit''] (txpool_events_total ?m2)" "0 < vec_get P [''/health'', ''2xx''] (http_requests_total ?m2)"
    "0 < vec_get P [''/metrics'', ''2xx''] (http_requests_total ?m3)" by (simp_all add: z)
  have d2: "vec_desc P (txpool_events_total ?m2) = vec_desc P (txpool_events_total m)"
      "vec_desc P (http_requests_total ?m2) = vec_desc P (http_requests_total m)" by simp_all
  have d3: "vec_desc P (txpool_events_total ?m3) = vec_desc P (txpool_events_total m)"
      "vec_desc P (http_requests_total ?m3) = vec_desc P (http_requests_total m)" by simp_all
  from rendered [OF P T m reg(1) a(1) d2] n(1,2) obtain body where t: "render_prometheus encode ?m2 = Inr body"
    "contains body (sample_text ''magma_sidecar'' ''txpool_events_total'' [''kind''] [''commit''])"
    "contains body (sample_text ''magma_sidecar'' ''http_requests_total'' [''route'', ''status_class''] [''/health'', ''2xx''])"
    by blast
  note c = contains_part [OF t(2) sample_parts(1)] contains_part [OF t(2) sample_labels(1)] contains_part [OF t(3) sample_parts(1)]
    contains_part [OF t(3) sample_labels(1)] contains_part [OF t(3) sample_labels(2)]
  show "render_prometheus_includes_namespace P encode wall"
    using t(1) c by (simp add: render_prometheus_includes_namespace_def m record_event_def record_http_def Let_def status_class_def)
  from rendered [OF P T m refl ascii_fresh [OF T m f] refl refl] obtain body1 where b1: "render_prometheus encode m = Inr body1"
    "valid_utf8 body1" "contains body1 ''magma_sidecar_txpool_ipc_state''" by blast
  from rendered [OF P T m reg(2) a(2) d3] n(3) obtain body2 where b2: "render_prometheus encode ?m3 = Inr body2" "valid_utf8 body2"
    "contains body2 (sample_text ''magma_sidecar'' ''http_requests_total'' [''route'', ''status_class''] [''/metrics'', ''2xx''])"
    by blast
  note d = contains_part [OF b2(3) sample_parts(2)]
  show "metrics_exposes_prometheus_text P encode display"
    using b1 b2(1,2) d
    by (simp add: metrics_exposes_prometheus_text_def m serve_def router_def metrics_endpoint_def record_http_def status_class_def)
qed

subsection \<open>An encoder with these laws\<close>

text \<open>A registry is a prefix and the names, a labelled counter its names and the list of its children.\<close>

type_synonym text_vec = "(string \<times> string list) \<times> (string list \<times> u64) list"

definition text_prom :: "(string \<times> string list, u64, i64, text_vec) prom" where
  "text_prom =
     \<lparr>registry_new = (\<lambda>prefix. Some (prefix, [])), registered = snd,
      register_counter = (\<lambda>name help (p, ns). if name \<in> set ns then None else Some (0, p, name # ns)),
      register_gauge = (\<lambda>name help (p, ns). if name \<in> set ns then None else Some (0, p, name # ns)),
      register_counter_vec = (\<lambda>name help labels (p, ns). if name \<in> set ns then None else Some (((name, labels), []), p, name # ns)),
      counter_inc_by = (\<lambda>n c. c + n), counter_get = (\<lambda>c. c),
      gauge_set = (\<lambda>n g. n), gauge_get = (\<lambda>g. g),
      vec_desc = fst, vec_inc = (\<lambda>k (d, v). (d, AList.update k (case map_of v k of None \<Rightarrow> 1 | Some n \<Rightarrow> n + 1) v)),
      vec_get = (\<lambda>k (d, v). case map_of v k of None \<Rightarrow> 0 | Some n \<Rightarrow> n)\<rparr>"

lemma text_prom_laws: "prom_laws text_prom"
  by (auto simp: prom_laws_def accepted_def text_prom_def update_conv' split: option.splits)

definition text_lines :: "(string \<times> string list, u64, i64, text_vec) metrics \<Rightarrow> string list" where
  "text_lines m =
     (let pre = fst (registry m); names = snd (registry m)
      in map (\<lambda>name. pre @ ''_'' @ name) (filter (\<lambda>name. name \<notin> fst ` set (labelled text_prom m)) names)
         @ concat (map (\<lambda>(name, labels, v).
             map (\<lambda>k. sample_text pre name labels k) (filter (\<lambda>k. 0 < vec_get text_prom k v \<and> length k = length labels) (map fst (snd v))))
             (filter (\<lambda>(name, labels, v). name \<in> set names) (labelled text_prom m))))"

lemma text_prom_listed: "0 < vec_get text_prom k v \<Longrightarrow> k \<in> fst ` set (snd v)"
  by (auto simp: text_prom_def split: option.splits prod.splits dest: map_of_SomeD intro: rev_image_eqI)

lemma set_text_lines:
  "set (text_lines m) =
     {fst (registry m) @ ''_'' @ name |name. name \<in> set (snd (registry m)) \<and> name \<notin> fst ` set (labelled text_prom m)}
     \<union> {sample_text (fst (registry m)) name labels k |name labels v k. (name, labels, v) \<in> set (labelled text_prom m)
          \<and> name \<in> set (snd (registry m)) \<and> 0 < vec_get text_prom k v \<and> length k = length labels}"
  using text_prom_listed unfolding text_lines_def Let_def by (auto simp del: append.simps)

definition text_encode :: "(string \<times> string list, u64, i64, text_vec) metrics \<Rightarrow> unit + u8 list" where
  "text_encode m = Inr (str_bytes (concat (map (\<lambda>line. line @ [CHR 0x0A]) (text_lines m))))"

lemma ascii_simps [simp]: "ascii []" "ascii (c # s) \<longleftrightarrow> of_char c < (128 :: nat) \<and> ascii s" "ascii (s @ s') \<longleftrightarrow> ascii s \<and> ascii s'"
  by (auto simp: ascii_def)

lemma ascii_concat: "ascii (concat ss) \<longleftrightarrow> (\<forall>s \<in> set ss. ascii s)"
  by (auto simp: ascii_def)

lemma ascii_valid: "ascii s \<Longrightarrow> valid_utf8 (str_bytes s)"
proof (induction s)
  case (Cons c s)
  then have "unat (of_nat (of_char c) :: u8) = of_char c" by (simp add: unat_of_nat)
  with Cons show ?case by (simp add: str_bytes_def word_le_nat_alt)
qed (simp add: str_bytes_def)

lemma ascii_label_text: "\<forall>l \<in> set ls. ascii l \<Longrightarrow> \<forall>v \<in> set vs. ascii v \<Longrightarrow> ascii (label_text ls vs)"
  by (induction ls vs rule: label_text.induct) auto

lemma contains_line:
  assumes "line \<in> set (text_lines m)" "text_encode m = Inr body"
  shows "contains body line"
proof -
  obtain xs ys where "text_lines m = xs @ line # ys" using assms(1) by (meson split_list)
  then have "sublist line (concat (map (\<lambda>line. line @ [CHR 0x0A]) (text_lines m)))"
    by (auto intro: sublist_parts)
  then show ?thesis
    using assms(2) by (auto simp: text_encode_def contains_def str_bytes_def intro: map_mono_sublist)
qed

lemma text_encode_laws: "text_laws text_prom fst text_encode"
  unfolding text_laws_def
proof (intro conjI allI impI)
  show "prefix_laws text_prom fst" by (auto simp: prefix_laws_def text_prom_def split: if_splits)
next
  fix m assume a: "ascii_metrics text_prom fst m"
  obtain body where b: "text_encode m = Inr body" by (simp add: text_encode_def)
  have "ascii line" if "line \<in> set (text_lines m)" for line
  proof -
    have r: "registered text_prom = snd" by (simp add: text_prom_def)
    have "\<forall>l \<in> set labels. ascii l" if "(name, labels, v) \<in> set (labelled text_prom m)" for name labels v
      using that a unfolding ascii_metrics_def by blast
    moreover have "\<forall>l \<in> set k. ascii l" if "(name, labels, v) \<in> set (labelled text_prom m)" "0 < vec_get text_prom k v" for name labels v k
      using that a unfolding ascii_metrics_def by blast
    ultimately show ?thesis
      using that a unfolding set_text_lines ascii_metrics_def r sample_text_def by (auto intro!: ascii_label_text)
  qed
  then have "ascii (concat (map (\<lambda>line. line @ [CHR 0x0A]) (text_lines m)))"
    by (simp add: ascii_concat)
  then have v: "valid_utf8 body" using b ascii_valid by (auto simp: text_encode_def simp del: map_append)
  have "shows_families text_prom fst m body"
    unfolding shows_families_def
    by (intro conjI ballI, unfold split_paired_all prod.case) (auto intro!: contains_line [OF _ b] simp: set_text_lines text_prom_def)
  with b v show "\<exists>body. text_encode m = Inr body \<and> valid_utf8 body \<and> shows_families text_prom fst m body" by blast
qed

end
