(* ===== verification/Test_Properties.thy ===== *)
theory Test_Properties
  imports Test_Instance Test_Harness Test_Text
begin

section \<open>The repository's test suite passes on the model\<close>

text \<open>C40: Every test of the repository passes, for every crate \<open>alloy\<close> and \<open>prometheus\<close> with the documented
  behaviour, text format included, every reading of the monotonic clock, every order in which the hash map is visited, and every wall clock from one
  second after the epoch. The end-to-end tests pass in every
  interleaving of server, loop and test in which no one gives up waiting, and there is one.\<close>
theorem repository_tests_pass:
  assumes "builder_laws A B" "call_selector A \<noteq> [0xde, 0xad, 0xbe, 0xef]" "prom_laws P" "is_iteration it" "text_laws P prefix_of encode"
    and "\<And>i. 1000000000 \<le> wall i" "\<And>i. wall i < 2 ^ 63 * 1000000000"
  shows "eip1559_priority_fee_only A B \<and> eip1559_gateway_receive_topup_does_not_count_value_as_bid A B
      \<and> gateway_call_uses_decoded_bid_amount A B \<and> gateway_with_unknown_selector_gets_zero_bid A B
      \<and> non_gateway_recipient_excluded A B \<and> legacy_tx_uses_gas_price_minus_floor A B
      \<and> create_tx_has_no_value_component A B \<and> network_constants_are_well_formed
      \<and> gateway_is_unset_detects_zero_address \<and> decode_gateway_call_extracts_bid_and_target A B
      \<and> tob_outranks_every_backrun \<and> opportunity_sits_just_above_its_bids
      \<and> same_target_shares_group_other_targets_do_not \<and> backrun_groups_sit_above_vanilla_priorities
      \<and> tob_bid_is_encoded_and_streamed_immediately A B clock
      \<and> non_gateway_tx_is_cached_but_not_reinjected A B clock \<and> target_already_pooled_pairs_immediately A B clock
      \<and> bid_before_target_pairs_when_target_arrives A B clock
      \<and> multiple_competing_bids_all_stream_and_self_order A B clock
      \<and> backrun_bids_rank_by_total_value_not_bare_bid A B clock
      \<and> later_bid_after_target_streamed_does_not_restream_target A B clock
      \<and> pending_bid_expires_after_ttl A B clock \<and> cache_entry_expires_after_ttl A B clock
      \<and> capacity_evicts_oldest_cache_entry A B clock \<and> forget_removes_pending_and_cache_state it A B clock
      \<and> capacity_evicts_oldest_pending_bid A B clock \<and> invalid_gateway_call_is_not_reinjected A B clock
      \<and> builds_empty_backrun_pool A \<and> sent_cache_evicts_oldest_hash \<and> sent_cache_compacts_stale_order_entries
      \<and> snapshot_round_trip P wall \<and> ipc_state_gauge_values P \<and> health_returns_structured_snapshot P encode display
      \<and> render_prometheus_includes_namespace P encode (wall 0) \<and> metrics_exposes_prometheus_text P encode display
      \<and> gateway_bid_is_reinjected_with_computed_priority A B P it
      \<and> non_gateway_tx_is_observed_but_not_reinjected A B P it \<and> duplicate_insert_is_reinjected_once A B P it"
  by (intro conjI scores_without_bid score_with_bid network_tests decoding_test encoder_tests
      one_observation_tests pairing_tests ranking_tests capacity_tests [OF assms(1,4)] sent_cache_tests metrics_tests [OF assms(3,6,7)]
      text_tests [OF assms(3,5)] loop_tests assms)+

lemma repository_tests_pass_witness:
  "gateway_call_uses_decoded_bid_amount test_alloy test_builder
   \<and> target_already_pooled_pairs_immediately test_alloy test_builder (\<lambda>i. i)
   \<and> metrics_exposes_prometheus_text text_prom text_encode (\<lambda>e. [])
   \<and> duplicate_insert_is_reinjected_once test_alloy test_builder text_prom ascending"
proof -
  have c: "call_selector test_alloy \<noteq> [0xde, 0xad, 0xbe, 0xef]"
    by (simp add: test_alloy_def sample_selector_def)
  have w: "1000000000 \<le> (1000000000 :: int)" "(1000000000 :: int) < 2 ^ 63 * 1000000000" by simp_all
  show ?thesis
    using repository_tests_pass [OF test_builder_laws c text_prom_laws ascending_iteration text_encode_laws w] by blast
qed

end
