(* ===== verification/Spec2Isabelle.thy ===== *)
theory Spec2Isabelle
  imports Policy_Properties Sent_Properties Pool_Properties Loop_Properties Block_Properties Process_Properties
    Atomic_Properties Test_Properties
begin

text \<open>
  A verification library for \<^bold>\<open>magma-sidecar\<close>, a process beside a Monad node that reads the events
  of the node's transaction pool from a Unix socket and writes selected transactions back with a
  256-bit priority that fixes their place in the block.

  \<^bold>\<open>The program and its parts.\<close>
  \<^item> \<^verbatim>\<open>src/policy.rs\<close>: which contract counts as the gateway, what a transaction is worth, how a gateway
    call is decoded, how a score becomes a structured priority.
  \<^item> \<^verbatim>\<open>src/backrun.rs\<close>: \<open>PendingPool\<close>, which pairs a backrun bid with the transaction it names:
    a cache of candidate targets, the bids parked under the hash of their target, order queues for
    eviction and expiry, a counter, the targets already streamed.
  \<^item> \<^verbatim>\<open>src/txpool_ipc.rs\<close>: \<open>SentCache\<close>, the bounded cache of hashes already written, and the loop
    that connects, reads batches, feeds the pool, writes reinjections, reconnects and stops.
  \<^item> \<^verbatim>\<open>src/metrics.rs\<close>, \<^verbatim>\<open>src/routes.rs\<close>: counters and gauges, the health snapshot, the two HTTP routes.
  \<^item> \<^verbatim>\<open>src/config.rs\<close>, \<^verbatim>\<open>src/main.rs\<close>: defaults, capacities, the refusal to start, what is started.
  The loop calls the pool and the dedup cache, the pool calls the policy, everything that happens is
  counted in the metrics, and \<^verbatim>\<open>/health\<close> shows them. \<open>main\<close> runs the HTTP server and the loop side by
  side and ends both on the interrupt.

  \<^bold>\<open>The theories.\<close>
  \<^item> \<open>Sidecar_Prelude\<close>: machine types, the standard-library operations on words, vectors and maps
    that the code uses, and the lemmas every component shares.
  \<^item> \<open>Policy\<close>: \<^verbatim>\<open>policy.rs\<close>, function by function. \<open>Priority_Slots\<close>: the intended block order as a
    linear order on slots, and the locale \<open>slot_encoding\<close> of encoders that embed it.
  \<^item> \<open>Bounded_Store\<close>: order queues with stale entries, and the locales \<open>bounded_store\<close> and
    \<open>expiring_store\<close>, the contract the loop relies on from its two stores.
  \<^item> \<open>Sent_Cache\<close>: \<open>SentCache\<close> and its contract. \<open>Sent_Cache_Spec\<close>: the bounded queue it implements.
  \<^item> \<open>Pending_Pool\<close>: \<open>PendingPool\<close> with every operation, as in the code. \<open>Pool_Invariant\<close>,
    \<open>Pool_Operations\<close>: the representation invariant, the six branches of \<open>observe_at\<close>, preservation,
    the contract of \<open>expiring_store\<close>. \<open>Pool_Spec\<close>: the parked bids as one list and the refinement of
    every operation. \<open>Pool_History\<close>: sequences of calls. \<open>Pool_Semantics\<close>: where reinjections come
    from, no bid waits for a cached vanilla transaction. \<open>Pool_Pairing\<close>: arrival order, flushing,
    one opportunity per target, accounting. \<open>Pool_Expiry\<close>: what a prune takes and what it keeps.
    \<open>Pool_Window\<close>: while nothing expires and there is room, nothing reported is taken out.
    \<open>Pool_Queues\<close>: how long the order queues get, and the run in which one grows without bound.
    \<open>Pool_Duplicates\<close>: a bid parked several times, and what forgetting it leaves.
  \<^item> \<open>Metrics\<close>, \<open>Routes\<close>: \<^verbatim>\<open>metrics.rs\<close> and \<^verbatim>\<open>routes.rs\<close> over an abstract metrics registry.
  \<^item> \<open>Ipc_Loop\<close>: what the loop does with one event and one batch. \<open>Ipc_Batch\<close>: its effect on the pool
    and the dedup cache, a hash is sent once, messages are justified. \<open>Ipc_Metrics\<close>: its effect on
    the counters and gauges. \<open>Ipc_Pairing\<close>: a target and its bids on the wire. \<open>Ipc_Machine\<close>: the loop as a
    transition system between its await points, its invariant, runs, shutdown.
    \<open>Ipc_Complete\<close>: what must be written is written, over whole runs.
  \<^item> \<open>Startup\<close>: \<^verbatim>\<open>config.rs\<close> and the start of \<^verbatim>\<open>main.rs\<close>. \<open>Runs\<close>: runs of any step relation, and the locale
    \<open>stutter_simulation\<close>. \<open>Sidecar_Process\<close>: what \<open>main\<close> runs, the loop, the requests and the interrupt
    interleaved, with shared metrics; it simulates the loop on its own.
  \<^item> \<open>Block_Order\<close>: the block that a node builds from the messages of a run by descending priority, and
    what stands behind a target in it. \<open>Auction\<close>: with \<open>Ipc_Complete\<close>, who wins the first place of the
    block and the place behind a target.
  \<^item> \<open>Atomic_Metrics\<close>: every handler of the loop as the list of its atomic writes and messages.
    \<open>Atomic_Process\<close>: the process again with each of these, and each of the fifteen loads of a health
    request, as a step of its own; completed, it simulates the loop. \<open>Atomic_Health\<close>: the metrics at any
    moment are the log of the writes so far, field by field, and how the count of messages follows the
    messages.
    \<open>Atomic_Runs\<close>: the steps of \<open>Sidecar_Process\<close> are undisturbed sequences of atomic steps.
  \<^item> \<open>Samples\<close>, \<open>Sample_Run\<close>: concrete instances of the parameters, one concrete run.
  \<^item> \<open>Test_Fixtures\<close>, \<open>Test_Policy\<close>, \<open>Test_Pool\<close>, \<open>Test_Loop\<close>: the repository's own tests as predicates
    over the foreign crates, with the record \<open>builder\<close> of their constructors and its laws.
    \<open>Test_Harness\<close>: the end-to-end tests, their server, the loop and the test itself as three tasks.
    \<open>Test_Text\<close>: the tests that read the metrics text, over its documented format, and an encoder for it.
    \<open>Test_Instance\<close>: a concrete \<open>alloy\<close> and \<open>builder\<close> that satisfy them.
  \<^item> \<open>Policy_Properties\<close>, \<open>Sent_Properties\<close>, \<open>Pool_Properties\<close>, \<open>Loop_Properties\<close>, \<open>Block_Properties\<close>,
    \<open>Process_Properties\<close>, \<open>Atomic_Properties\<close>, \<open>Test_Properties\<close>: the properties, each with its number and, where it has hypotheses, an instance at concrete data.

  \<^bold>\<open>State and operations.\<close> A struct is a record, a method a function that takes the state and returns
  it updated, with its result. \<open>HashMap\<close> is a finite map, \<open>HashSet\<close> a finite set, \<open>VecDeque\<close> and \<open>Vec\<close>
  are lists; integers are words of their width, so a counter that wrapped would show; the lengths
  of collections are natural numbers. Instants and durations are nanoseconds. A \<open>while\<close> loop is a
  recursive function on the queue it pops, so it ends by construction and no fuel is needed; the
  loop of the program, which need not end, is a step relation.

  \<^bold>\<open>Parameters.\<close> Code outside the repository is an argument: the record \<open>alloy\<close> (accessors of an
  envelope, the selector and the ABI decoder), the record \<open>prom\<close> with the predicate \<open>prom_laws\<close>
  (registry, counters, gauges; of invalid or repeated names and of label lists of the wrong length,
  which the crate refuses, nothing is assumed), the text encoder, the order in which a hash map is visited
  (\<open>is_iteration\<close>: every key once), and per event the record \<open>answers\<close> (clocks, results of sends).
  No law is assumed of \<open>alloy\<close>, except in the tests, which build envelopes: there \<open>builder_laws\<close> says that
  the accessors read the fields back and the decoder inverts the encoder, and \<open>text_laws\<close> that the text of
  the metrics names every registered family, and every labelled counter that was counted up under the
  name and the label names it was registered with.

  \<^bold>\<open>What the lemmas show.\<close> The encoders are an order embedding of slots and can be decoded; scores are
  exact and ordered below \<open>2 ^ 128\<close> and truncated from there on. The dedup cache and the pool keep
  their invariants and bounds over every sequence of calls. When no hash returns, the dedup cache is
  a bounded queue and the pool's parked bids are one list with parking, matching, expiry and
  forgetting as list operations; the theorems about hashes that do return say what happens then.
  Everything written to the node was reported by the node and carries the priority it earned; a
  hash is written once; a target and its bids go out in order, whichever arrives first. When the node
  takes the messages, every top-of-block bid of a run is written, and every pair of a bid and a
  vanilla target that stays within the time to live and the capacities; so in a block that takes
  every written message the first is the best top-of-block bid, and right behind a target stands the
  best of the bids for it. In any
  block ordered by the written priorities every target is followed at once by its bids, the best
  first, unless the target was written before with another priority. The loop
  shows its connection state, counts what it writes, keeps its state across reconnects, and stops
  on the signal. Requests never change what the loop does, not even
  between two of its writes; what a health request reads is the log of the writes at growing
  moments, one for every field, and when the loop writes nothing meanwhile it is the state of the run;
  each request is counted; startup refuses a policy without gateway; and the process exits in order after the
  interrupt. The repository's tests pass for every such crate and every clock, the
  end-to-end tests in every interleaving in which no one gives up waiting.

  \<^bold>\<open>Bounds.\<close> The invariant of the pool needs a capacity of parked bids below \<open>2 ^ 64 - 1\<close>, so that the
  counter can hold one more before eviction; the program uses 4096. Times saturate at zero as
  \<open>duration_since\<close> does.

  \<^bold>\<open>Not modelled.\<close> Logging, the command-line parser, the HTTP server and JSON serialisation, the socket
  client and its wire format, the async runtime beyond the choice points of the loop; what the
  encoder of metrics writes is its documented format. The atomic reads
  and writes happen in one order, in which each thread follows its program; that \<open>Relaxed\<close> lets a
  reader see the writes to two different atomics in another order is left out, and the gathering of
  all metrics for \<^verbatim>\<open>/metrics\<close> is one step. A connect or a send that never completes is a step that is
  never taken. Debug builds panic where release builds wrap; the invariant shows that the counter
  does neither.
\<close>

end
